theory Spec2Isabelle
  imports
    Main
    "HOL-Library.Multiset"
    "HOL-Library.Char_ord"
    "HOL-Library.List_Lexorder"
    "HOL-Library.Product_Lexorder"
begin

section \<open>Data model of process-wrapper.ts\<close>

text \<open>
  The Loadout Optimizer's process wrapper (\<^verbatim>\<open>app/loadout-builder/process/process-wrapper.ts\<close>)
  maps inventory items to worker items, prunes dominated items, groups interchangeable
  ones and hands one representative per group to a web worker.

  Numbers are modelled as \<open>int\<close>: the source declares stat values, energy capacities,
  hashes and power as \<^verbatim>\<open>number\<close>, and armor stats are whole numbers.  Strings are
  \<open>char list\<close>.  A field that TypeScript marks optional is an \<open>option\<close>.
\<close>

record ResolvedStatConstraint =
  statHash :: int
  minTier :: int
  maxTier :: int
  ignored :: bool

text \<open>\<^verbatim>\<open>mod.plug.plugCategoryHash\<close> is the only part of a mod definition that is read.\<close>

record PluggableInventoryItemDefinition =
  plugCategoryHash :: int

text \<open>
  The fields of \<^verbatim>\<open>ProcessItem\<close> that the wrapper reads.  \<^verbatim>\<open>stats\<close> is indexed by stat
  hash and typed \<^verbatim>\<open>number\<close> at every index (the source stores the lookups in a
  \<^verbatim>\<open>number[]\<close>), so it is a total function here.
\<close>

record ProcessItem =
  id_p :: string
  hash :: int
  isExotic :: bool
  isArtifice :: bool
  stats :: "int \<Rightarrow> int"
  remainingEnergyCapacity :: int
  compatibleModSeasons :: "string list option"

record DimEnergy =
  energyCapacity :: int

text \<open>
  The fields of \<^verbatim>\<open>DimItem\<close> that the wrapper reads, and the item's instance id.
  \<^verbatim>\<open>vendor\<close> holds the vendor hash of a vendor-sourced item and is absent on an owned one.
\<close>

record DimItem =
  id_d :: string
  energy :: "DimEnergy option"
  vendor :: "int option"
  power_d :: int
  equipped :: bool

record MappedItem =
  dimItem :: DimItem
  processItem :: ProcessItem

record ItemGroup =
  canonicalProcessItem :: ProcessItem
  items :: "DimItem list"

text \<open>The value type of the \<^verbatim>\<open>cache\<close> map of \<^verbatim>\<open>mapItemsToGroups\<close>.\<close>

record CacheEntry =
  stats_c :: "int list"
  energyCapacity_c :: int
  relevantModSeasons :: "string list"
  isArtifice_c :: bool

section \<open>JavaScript built-ins used by the wrapper\<close>

text \<open>\<^verbatim>\<open>xs[i]\<close>: \<^verbatim>\<open>undefined\<close> (here \<open>None\<close>) out of range.\<close>

definition nth_opt :: "'a list \<Rightarrow> nat \<Rightarrow> 'a option" where
  "nth_opt xs i = (if i < length xs then Some (xs ! i) else None)"

text \<open>\<^verbatim>\<open>xs.every((v, idx) => ...)\<close> and \<^verbatim>\<open>xs.some((v, idx) => ...)\<close>.\<close>

definition every_idx :: "('a \<Rightarrow> nat \<Rightarrow> bool) \<Rightarrow> 'a list \<Rightarrow> bool" where
  "every_idx P xs = list_all (\<lambda>i. P (xs ! i) i) [0..<length xs]"

definition some_idx :: "('a \<Rightarrow> nat \<Rightarrow> bool) \<Rightarrow> 'a list \<Rightarrow> bool" where
  "some_idx P xs = list_ex (\<lambda>i. P (xs ! i) i) [0..<length xs]"

text \<open>
  A \<^verbatim>\<open>Set\<close> is the list of its members in insertion order: \<^verbatim>\<open>add\<close> appends a value
  that is not yet a member, \<^verbatim>\<open>has\<close> is membership, \<^verbatim>\<open>size\<close> is the length and
  \<^verbatim>\<open>values()\<close> is the list itself.
\<close>

definition Set_add :: "'a \<Rightarrow> 'a list \<Rightarrow> 'a list" where
  "Set_add v s = (if v \<in> set s then s else s @ [v])"

definition new_Set :: "'a list \<Rightarrow> 'a list" where
  "new_Set xs = foldl (\<lambda>s v. Set_add v s) [] xs"

text \<open>
  \<^verbatim>\<open>Number.prototype.toString\<close> on a whole number: decimal digits, with a leading minus
  sign on a negative one.
\<close>

definition digit_char :: "nat \<Rightarrow> char" where
  "digit_char d = char_of (48 + d)"

fun nat_toString :: "nat \<Rightarrow> string" where
  "nat_toString n =
     (if n < 10 then [digit_char n] else nat_toString (n div 10) @ [digit_char (n mod 10)])"

declare nat_toString.simps [simp del]

definition Number_toString :: "int \<Rightarrow> string" where
  "Number_toString i =
     (if i < 0 then CHR ''-'' # nat_toString (nat (- i)) else nat_toString (nat i))"

text \<open>\<^verbatim>\<open>Array.prototype.toString\<close> on strings: the members joined by commas.\<close>

fun join_comma :: "string list \<Rightarrow> string" where
  "join_comma [] = []"
| "join_comma [x] = x"
| "join_comma (x # y # ys) = x @ CHR '','' # join_comma (y # ys)"

definition Array_toString :: "int list \<Rightarrow> string" where
  "Array_toString xs = join_comma (map Number_toString xs)"

text \<open>
  \<^verbatim>\<open>Object.groupBy\<close> and \<^verbatim>\<open>Map.groupBy\<close>: the groups in the order in which their keys
  first occur, each group's members in input order.  The key callback may throw
  (\<open>None\<close>), which aborts the grouping.  The first-pass keys all end in a minus sign,
  so none of them is an array index and \<^verbatim>\<open>Object.values\<close> keeps insertion order too.
\<close>

fun group_add :: "'k \<Rightarrow> 'a \<Rightarrow> ('k \<times> 'a list) list \<Rightarrow> ('k \<times> 'a list) list" where
  "group_add k x [] = [(k, [x])]"
| "group_add k x ((k', g) # rest) =
     (if k = k' then (k', g @ [x]) # rest else (k', g) # group_add k x rest)"

fun groupBy_from :: "('a \<Rightarrow> 'k option) \<Rightarrow> 'a list \<Rightarrow> ('k \<times> 'a list) list \<Rightarrow> ('k \<times> 'a list) list option" where
  "groupBy_from f [] acc = Some acc"
| "groupBy_from f (x # xs) acc =
     (case f x of None \<Rightarrow> None | Some k \<Rightarrow> groupBy_from f xs (group_add k x acc))"

definition groupBy :: "('a \<Rightarrow> 'k option) \<Rightarrow> 'a list \<Rightarrow> ('k \<times> 'a list) list option" where
  "groupBy f xs = groupBy_from f xs []"

text \<open>
  \<^verbatim>\<open>Array.prototype.sort\<close> with a comparator: a stable sort; an element stays before the
  later elements that the comparator does not put ahead of it.
\<close>

fun insort_cmp :: "('a \<Rightarrow> 'a \<Rightarrow> int) \<Rightarrow> 'a \<Rightarrow> 'a list \<Rightarrow> 'a list" where
  "insort_cmp cmp x [] = [x]"
| "insort_cmp cmp x (y # ys) =
     (if cmp x y \<le> 0 then x # y # ys else y # insort_cmp cmp x ys)"

definition Array_sort :: "('a \<Rightarrow> 'a \<Rightarrow> int) \<Rightarrow> 'a list \<Rightarrow> 'a list" where
  "Array_sort cmp xs = foldr (insort_cmp cmp) xs []"

section \<open>The comparators of app/utils/comparators\<close>

text \<open>
  Modelled from the spec: \<^verbatim>\<open>compareBy\<close> and \<^verbatim>\<open>chainComparator\<close> are imported from
  \<^verbatim>\<open>app/utils/comparators\<close>, which is not among the sources.  The spec applies the
  tie-breaks "lexicographically": \<^verbatim>\<open>compareBy\<close> orders two values by the key it is
  given (negative, zero or positive), and \<^verbatim>\<open>chainComparator\<close> returns the result of
  the first comparator that does not return zero.
\<close>

definition compareBy :: "('a \<Rightarrow> 'v::linorder) \<Rightarrow> 'a \<Rightarrow> 'a \<Rightarrow> int" where
  "compareBy fn a b = (if fn a < fn b then - 1 else if fn b < fn a then 1 else 0)"

fun chainComparator :: "('a \<Rightarrow> 'a \<Rightarrow> int) list \<Rightarrow> 'a \<Rightarrow> 'a \<Rightarrow> int" where
  "chainComparator [] a b = 0"
| "chainComparator (compare # compares) a b =
     (let retval = compare a b in if retval \<noteq> 0 then retval else chainComparator compares a b)"

section \<open>groupComparator\<close>

text \<open>
  The optional \<^verbatim>\<open>getTag\<close> callback returns a tag value or \<^verbatim>\<open>undefined\<close>;
  \<^verbatim>\<open>getTag?.(dimItem) !== 'favorite'\<close> is true when the callback is absent.
\<close>

definition energyCapacity_or_0 :: "DimItem \<Rightarrow> int" where
  "energyCapacity_or_0 d = (case energy d of None \<Rightarrow> 0 | Some e \<Rightarrow> energyCapacity e)"

definition not_favorite :: "(DimItem \<Rightarrow> string option) option \<Rightarrow> DimItem \<Rightarrow> bool" where
  "not_favorite getTag d =
     (case getTag of None \<Rightarrow> True | Some f \<Rightarrow> f d \<noteq> Some ''favorite'')"

definition groupComparator ::
  "(DimItem \<Rightarrow> string option) option \<Rightarrow> MappedItem \<Rightarrow> MappedItem \<Rightarrow> int" where
  "groupComparator getTag =
     chainComparator
       [compareBy (\<lambda>m. - energyCapacity_or_0 (dimItem m)),
        compareBy (\<lambda>m. vendor (dimItem m) \<noteq> None),
        compareBy (\<lambda>m. not_favorite getTag (dimItem m)),
        compareBy (\<lambda>m. - power_d (dimItem m)),
        compareBy (\<lambda>m. if equipped (dimItem m) then (0::int) else 1)]"

text \<open>
  The five keys that the callbacks of \<^verbatim>\<open>groupComparator\<close> read from a member's
  \<^verbatim>\<open>dimItem\<close>, as one tuple in the order of the chain.  The first is the negated
  \<^verbatim>\<open>dimItem.energy?.energyCapacity || 0\<close>, the energy capacity of the item itself.
\<close>

definition groupComparator_key ::
  "(DimItem \<Rightarrow> string option) option \<Rightarrow> DimItem \<Rightarrow> int \<times> bool \<times> bool \<times> int \<times> int" where
  "groupComparator_key getTag d =
     (- energyCapacity_or_0 d, vendor d \<noteq> None, not_favorite getTag d, - power_d d,
      if equipped d then 0 else 1)"

section \<open>mapItemsToGroups\<close>

subsection \<open>Required mod tags and the cache\<close>

text \<open>
  \<^verbatim>\<open>getModTypeTagByPlugCategoryHash\<close> (from \<^verbatim>\<open>app/utils/item-utils\<close>) is a parameter: it
  maps a plug category hash to a tag or to \<^verbatim>\<open>undefined\<close>.  The source adds the tag
  only when it is truthy, so neither \<^verbatim>\<open>undefined\<close> nor the empty string is added.
\<close>

definition requiredModTags_of ::
  "(int \<Rightarrow> string option) \<Rightarrow> PluggableInventoryItemDefinition list \<Rightarrow> string list" where
  "requiredModTags_of getModTypeTagByPlugCategoryHash activityMods =
     foldl (\<lambda>requiredModTags activityMod.
              case getModTypeTagByPlugCategoryHash (plugCategoryHash activityMod) of
                None \<Rightarrow> requiredModTags
              | Some modTag \<Rightarrow>
                  if modTag \<noteq> [] then Set_add modTag requiredModTags else requiredModTags)
       [] activityMods"

text \<open>
  One pass of the loop that fills \<^verbatim>\<open>cache\<close>: the stat values in the order of the
  constraints, the remaining energy, the compatible mod seasons that are required
  (sorted, as a set) and the artifice flag.
\<close>

definition cacheEntry ::
  "ResolvedStatConstraint list \<Rightarrow> string list \<Rightarrow> MappedItem \<Rightarrow> CacheEntry" where
  "cacheEntry resolvedStatConstraints requiredModTags item =
     (let statValues = map (\<lambda>c. stats (processItem item) (statHash c)) resolvedStatConstraints;
          energyCapacity = remainingEnergyCapacity (processItem item);
          relevantModSeasons =
            (case compatibleModSeasons (processItem item) of
               None \<Rightarrow> []
             | Some seasons \<Rightarrow> filter (\<lambda>season. season \<in> set requiredModTags) seasons)
      in \<lparr> stats_c = statValues,
           energyCapacity_c = energyCapacity,
           relevantModSeasons = new_Set (sort relevantModSeasons),
           isArtifice_c = isArtifice (processItem item) \<rparr>)"

definition buildCache ::
  "ResolvedStatConstraint list \<Rightarrow> string list \<Rightarrow> MappedItem list \<Rightarrow> (DimItem \<rightharpoonup> CacheEntry)" where
  "buildCache resolvedStatConstraints requiredModTags mappedItems =
     foldl (\<lambda>cache item. cache(dimItem item \<mapsto> cacheEntry resolvedStatConstraints requiredModTags item))
       Map.empty mappedItems"

subsection \<open>The grouping keys\<close>

definition firstPassGroupingFn :: "ProcessItem \<Rightarrow> string" where
  "firstPassGroupingFn p =
     (if isExotic p then Number_toString (hash p) @ ''-'' else ''legendary-'')"

text \<open>\<^verbatim>\<open>cache.get(item)!\<close>: reading a field of a missing entry throws (\<open>None\<close>).\<close>

definition finalGroupingFn :: "(DimItem \<rightharpoonup> CacheEntry) \<Rightarrow> DimItem \<Rightarrow> string option" where
  "finalGroupingFn cache item =
     (case cache item of
        None \<Rightarrow> None
      | Some info \<Rightarrow>
          Some (Array_toString (stats_c info) @ ''-'' @ Number_toString (energyCapacity_c info)
                @ ''-'' @ join_comma (relevantModSeasons info)))"

subsection \<open>Dominance\<close>

definition isSuperset :: "'a list \<Rightarrow> 'a list \<Rightarrow> bool" where
  "isSuperset test existing = list_all (\<lambda>v. v \<in> set test) existing"

text \<open>
  The body of \<^verbatim>\<open>isStrictlyBetter\<close> after both cache lookups.  A comparison with
  \<^verbatim>\<open>existingInfo.stats[idx]\<close> out of range compares with \<^verbatim>\<open>undefined\<close>:
  \<^verbatim>\<open>>=\<close> is then false and \<^verbatim>\<open>!==\<close> true.
\<close>

definition strictlyBetterInfo :: "MappedItem \<Rightarrow> CacheEntry \<Rightarrow> CacheEntry \<Rightarrow> bool" where
  "strictlyBetterInfo testItem testInfo existingInfo =
     (let betterOrEqual =
            (every_idx (\<lambda>statValue idx.
                 case nth_opt (stats_c existingInfo) idx of
                   None \<Rightarrow> False | Some e \<Rightarrow> statValue \<ge> e) (stats_c testInfo)
             \<and> energyCapacity_c testInfo \<ge> energyCapacity_c existingInfo
             \<and> (isArtifice (processItem testItem) \<or> \<not> isArtifice_c existingInfo)
             \<and> isSuperset (relevantModSeasons testInfo) (relevantModSeasons existingInfo))
      in if \<not> betterOrEqual then False
         else
           (let isDifferent =
                  (some_idx (\<lambda>statValue idx.
                       case nth_opt (stats_c existingInfo) idx of
                         None \<Rightarrow> True | Some e \<Rightarrow> statValue \<noteq> e) (stats_c testInfo)
                   \<or> energyCapacity_c testInfo \<noteq> energyCapacity_c existingInfo
                   \<or> isArtifice_c testInfo \<noteq> isArtifice_c existingInfo
                   \<or> length (relevantModSeasons testInfo) \<noteq> length (relevantModSeasons existingInfo))
            in isDifferent))"

definition isStrictlyBetter ::
  "(DimItem \<rightharpoonup> CacheEntry) \<Rightarrow> MappedItem \<Rightarrow> MappedItem \<Rightarrow> bool option" where
  "isStrictlyBetter cache testItem existingItem =
     (case cache (dimItem testItem) of
        None \<Rightarrow> None
      | Some testInfo \<Rightarrow>
          (case cache (dimItem existingItem) of
             None \<Rightarrow> None
           | Some existingInfo \<Rightarrow> Some (strictlyBetterInfo testItem testInfo existingInfo)))"

subsection \<open>The pruning loop\<close>

text \<open>\<^verbatim>\<open>keepSet.splice(idx, 1)\<close>.\<close>

definition splice1 :: "nat \<Rightarrow> 'a list \<Rightarrow> 'a list" where
  "splice1 idx xs = take idx xs @ drop (Suc idx) xs"

text \<open>
  The inner loop, \<^verbatim>\<open>for (let idx = keepSet.length - 1; idx >= 0; idx--)\<close>.  The
  counter \<open>n\<close> is \<open>idx + 1\<close>; the result is the \<^verbatim>\<open>dominated\<close> flag and the kept list.
\<close>

fun scanKeepSet ::
  "(DimItem \<rightharpoonup> CacheEntry) \<Rightarrow> MappedItem \<Rightarrow> MappedItem list \<Rightarrow> nat \<Rightarrow> (bool \<times> MappedItem list) option" where
  "scanKeepSet cache item keepSet 0 = Some (False, keepSet)"
| "scanKeepSet cache item keepSet (Suc idx) =
     (case nth_opt keepSet idx of
        None \<Rightarrow> None
      | Some kept \<Rightarrow>
          (case isStrictlyBetter cache kept item of
             None \<Rightarrow> None
           | Some True \<Rightarrow> Some (True, keepSet)
           | Some False \<Rightarrow>
               (case isStrictlyBetter cache item kept of
                  None \<Rightarrow> None
                | Some True \<Rightarrow> scanKeepSet cache item (splice1 idx keepSet) idx
                | Some False \<Rightarrow> scanKeepSet cache item keepSet idx)))"

text \<open>The outer loop, \<^verbatim>\<open>for (const item of group)\<close>.\<close>

fun pruneLoop ::
  "(DimItem \<rightharpoonup> CacheEntry) \<Rightarrow> MappedItem list \<Rightarrow> MappedItem list \<Rightarrow> MappedItem list option" where
  "pruneLoop cache [] keepSet = Some keepSet"
| "pruneLoop cache (item # rest) keepSet =
     (case scanKeepSet cache item keepSet (length keepSet) of
        None \<Rightarrow> None
      | Some (dominated, keepSet') \<Rightarrow>
          pruneLoop cache rest (if \<not> dominated then keepSet' @ [item] else keepSet'))"

subsection \<open>Building the groups\<close>

text \<open>
  The loop over \<^verbatim>\<open>groupedByEverything.values()\<close>: sort the group, take the first
  member's process item (\<^verbatim>\<open>group[0].processItem\<close> throws on an empty group) and keep
  every member's \<^verbatim>\<open>dimItem\<close>.
\<close>

definition makeGroup ::
  "(DimItem \<Rightarrow> string option) option \<Rightarrow> MappedItem list \<Rightarrow> ItemGroup option" where
  "makeGroup getUserItemTag grp =
     (case Array_sort (groupComparator getUserItemTag) grp of
        [] \<Rightarrow> None
      | first # others \<Rightarrow>
          Some \<lparr> canonicalProcessItem = processItem first,
                 items = map dimItem (first # others) \<rparr>)"

fun makeGroups ::
  "(DimItem \<Rightarrow> string option) option \<Rightarrow> MappedItem list list \<Rightarrow> ItemGroup list option" where
  "makeGroups getUserItemTag [] = Some []"
| "makeGroups getUserItemTag (grp # rest) =
     (case makeGroup getUserItemTag grp of
        None \<Rightarrow> None
      | Some g \<Rightarrow>
          (case makeGroups getUserItemTag rest of
             None \<Rightarrow> None
           | Some gs \<Rightarrow> Some (g # gs)))"

text \<open>One pass of \<^verbatim>\<open>for (const group of Object.values(energyGroups))\<close>.\<close>

definition processBucket ::
  "(DimItem \<rightharpoonup> CacheEntry) \<Rightarrow> (DimItem \<Rightarrow> string option) option \<Rightarrow> MappedItem list \<Rightarrow> ItemGroup list option" where
  "processBucket cache getUserItemTag grp =
     (case pruneLoop cache grp [] of
        None \<Rightarrow> None
      | Some keepSet \<Rightarrow>
          (case groupBy (\<lambda>m. finalGroupingFn cache (dimItem m)) keepSet of
             None \<Rightarrow> None
           | Some groupedByEverything \<Rightarrow> makeGroups getUserItemTag (map snd groupedByEverything)))"

fun processBuckets ::
  "(DimItem \<rightharpoonup> CacheEntry) \<Rightarrow> (DimItem \<Rightarrow> string option) option \<Rightarrow> MappedItem list list \<Rightarrow> ItemGroup list option" where
  "processBuckets cache getUserItemTag [] = Some []"
| "processBuckets cache getUserItemTag (grp # rest) =
     (case processBucket cache getUserItemTag grp of
        None \<Rightarrow> None
      | Some gs \<Rightarrow>
          (case processBuckets cache getUserItemTag rest of
             None \<Rightarrow> None
           | Some gs' \<Rightarrow> Some (gs @ gs')))"

text \<open>
  \<^verbatim>\<open>mapDimItemToProcessItem\<close> (from \<^verbatim>\<open>./mappers\<close>) is a parameter, applied to the energy
  rules and the slot's mods as the source does.
\<close>

definition mapItems ::
  "('r \<Rightarrow> 'm \<Rightarrow> DimItem \<Rightarrow> ProcessItem) \<Rightarrow> 'r \<Rightarrow> 'm \<Rightarrow> DimItem list \<Rightarrow> MappedItem list" where
  "mapItems mapDimItemToProcessItem armorEnergyRules modsForSlot items_in =
     map (\<lambda>d. \<lparr> dimItem = d,
                processItem = mapDimItemToProcessItem armorEnergyRules modsForSlot d \<rparr>) items_in"

definition energyGroups_of :: "MappedItem list \<Rightarrow> MappedItem list list" where
  "energyGroups_of mappedItems =
     (case groupBy (\<lambda>m. Some (firstPassGroupingFn (processItem m))) mappedItems of
        None \<Rightarrow> []
      | Some gs \<Rightarrow> map snd gs)"

definition mapItemsToGroups ::
  "('r \<Rightarrow> 'm \<Rightarrow> DimItem \<Rightarrow> ProcessItem) \<Rightarrow> (int \<Rightarrow> string option) \<Rightarrow>
   DimItem list \<Rightarrow> ResolvedStatConstraint list \<Rightarrow> 'r \<Rightarrow>
   PluggableInventoryItemDefinition list \<Rightarrow> 'm \<Rightarrow>
   (DimItem \<Rightarrow> string option) option \<Rightarrow> ItemGroup list option" where
  "mapItemsToGroups mapDimItemToProcessItem getModTypeTagByPlugCategoryHash
       items_in resolvedStatConstraints armorEnergyRules activityMods modsForSlot getUserItemTag =
     (let requiredModTags = requiredModTags_of getModTypeTagByPlugCategoryHash activityMods;
          mappedItems = mapItems mapDimItemToProcessItem armorEnergyRules modsForSlot items_in;
          cache = buildCache resolvedStatConstraints requiredModTags mappedItems
      in processBuckets cache getUserItemTag (energyGroups_of mappedItems))"

section \<open>runProcess: the items sent to the worker\<close>

text \<open>
  \<^verbatim>\<open>lockedModMap\<close>: the mods locked per bucket, the activity mods and the general mods.
\<close>

record ModMap =
  bucketSpecificMods :: "int \<rightharpoonup> PluggableInventoryItemDefinition list"
  activityMods :: "PluggableInventoryItemDefinition list"
  generalMods :: "PluggableInventoryItemDefinition list"

text \<open>\<^verbatim>\<open>bucketSpecificMods[bucketHash] || []\<close>.\<close>

definition modsForSlot_of :: "ModMap \<Rightarrow> int \<Rightarrow> PluggableInventoryItemDefinition list" where
  "modsForSlot_of lockedModMap bucketHash =
     (case bucketSpecificMods lockedModMap bucketHash of None \<Rightarrow> [] | Some mods \<Rightarrow> mods)"

text \<open>
  The two tables that the loop over \<^verbatim>\<open>Object.entries(filteredItems)\<close> fills:
  \<^verbatim>\<open>processItems\<close>, by bucket hash, and \<^verbatim>\<open>itemsById\<close>.
\<close>

record JobTables =
  processItems :: "int \<rightharpoonup> ProcessItem list"
  itemsById :: "string \<rightharpoonup> ItemGroup"

text \<open>
  \<^verbatim>\<open>processItems\<close> starts with an empty list for each armor bucket.  The five bucket
  hashes come from \<^verbatim>\<open>data/d2/generated-enums\<close>, which is not among the sources, and are
  a parameter.
\<close>

definition initialTables :: "int list \<Rightarrow> JobTables" where
  "initialTables armorBuckets =
     \<lparr> processItems = map_of (map (\<lambda>b. (b, [])) armorBuckets), itemsById = Map.empty \<rparr>"

text \<open>
  The body of \<^verbatim>\<open>for (const group of groupedItems)\<close>: push the canonical process item
  (which throws if the bucket has no list) and index the group by that item's id.
\<close>

definition addGroup :: "int \<Rightarrow> JobTables \<Rightarrow> ItemGroup \<Rightarrow> JobTables option" where
  "addGroup bucketHash tables grp =
     (case processItems tables bucketHash of
        None \<Rightarrow> None
      | Some sent \<Rightarrow>
          Some \<lparr> processItems = (processItems tables)(bucketHash \<mapsto> sent @ [canonicalProcessItem grp]),
                 itemsById = (itemsById tables)(id_p (canonicalProcessItem grp) \<mapsto> grp) \<rparr>)"

fun addGroups :: "int \<Rightarrow> JobTables \<Rightarrow> ItemGroup list \<Rightarrow> JobTables option" where
  "addGroups bucketHash tables [] = Some tables"
| "addGroups bucketHash tables (grp # rest) =
     (case addGroup bucketHash tables grp of
        None \<Rightarrow> None
      | Some tables' \<Rightarrow> addGroups bucketHash tables' rest)"

text \<open>
  The loop over \<^verbatim>\<open>Object.entries(filteredItems)\<close>; \<^verbatim>\<open>filteredItems\<close> is the list of
  its entries.
\<close>

fun fillTables ::
  "('r \<Rightarrow> PluggableInventoryItemDefinition list \<Rightarrow> DimItem \<Rightarrow> ProcessItem) \<Rightarrow>
   (int \<Rightarrow> string option) \<Rightarrow> ResolvedStatConstraint list \<Rightarrow> 'r \<Rightarrow> ModMap \<Rightarrow>
   (DimItem \<Rightarrow> string option) option \<Rightarrow> (int \<times> DimItem list) list \<Rightarrow> JobTables \<Rightarrow>
   JobTables option" where
  "fillTables mapDimItemToProcessItem getModTypeTagByPlugCategoryHash resolvedStatConstraints
       armorEnergyRules lockedModMap getUserItemTag [] tables = Some tables"
| "fillTables mapDimItemToProcessItem getModTypeTagByPlugCategoryHash resolvedStatConstraints
       armorEnergyRules lockedModMap getUserItemTag ((bucketHash, items_in) # rest) tables =
     (case mapItemsToGroups mapDimItemToProcessItem getModTypeTagByPlugCategoryHash items_in
             resolvedStatConstraints armorEnergyRules (activityMods lockedModMap)
             (modsForSlot_of lockedModMap bucketHash) getUserItemTag of
        None \<Rightarrow> None
      | Some groupedItems \<Rightarrow>
          (case addGroups bucketHash
                  (tables\<lparr> processItems := (processItems tables)(bucketHash \<mapsto> []) \<rparr>)
                  groupedItems of
             None \<Rightarrow> None
           | Some tables' \<Rightarrow>
               fillTables mapDimItemToProcessItem getModTypeTagByPlugCategoryHash
                 resolvedStatConstraints armorEnergyRules lockedModMap getUserItemTag rest tables'))"

section \<open>Hydration\<close>

text \<open>
  Modelled from the spec: \<^verbatim>\<open>hydrateArmorSet\<close> is imported from \<^verbatim>\<open>./mappers\<close>, which is
  not among the sources.  A result set references one canonical item id per slot; the
  hydrator "expands each set's per-slot canonical id to {representative, alternatives:
  remaining group members}", and an id that is absent from the group index is a
  precondition violation that fails loudly (\<open>None\<close>).
\<close>

record ProcessArmorSet =
  armor :: "string list"

record HydratedSlot =
  representative :: DimItem
  alternatives :: "DimItem list"

definition hydrateSlot :: "(string \<rightharpoonup> ItemGroup) \<Rightarrow> string \<Rightarrow> HydratedSlot option" where
  "hydrateSlot groupIndex itemId =
     (case groupIndex itemId of
        None \<Rightarrow> None
      | Some grp \<Rightarrow>
          (case items grp of
             [] \<Rightarrow> None
           | first # others \<Rightarrow> Some \<lparr> representative = first, alternatives = others \<rparr>))"

fun hydrateSlots :: "(string \<rightharpoonup> ItemGroup) \<Rightarrow> string list \<Rightarrow> HydratedSlot list option" where
  "hydrateSlots groupIndex [] = Some []"
| "hydrateSlots groupIndex (itemId # rest) =
     (case hydrateSlot groupIndex itemId of
        None \<Rightarrow> None
      | Some slot \<Rightarrow>
          (case hydrateSlots groupIndex rest of
             None \<Rightarrow> None
           | Some slots \<Rightarrow> Some (slot # slots)))"

definition hydrateArmorSet :: "ProcessArmorSet \<Rightarrow> (string \<rightharpoonup> ItemGroup) \<Rightarrow> HydratedSlot list option" where
  "hydrateArmorSet processed groupIndex = hydrateSlots groupIndex (armor processed)"

section \<open>runProcess: the result promise\<close>

text \<open>
  What \<^verbatim>\<open>runProcess\<close> returns is a \<^verbatim>\<open>cleanup\<close> function and a promise built as
  \<^verbatim>\<open>new Promise((resolve) => { worker.process(...).then(onResult).finally(() => cleanup()) })\<close>.
  The executor takes \<^verbatim>\<open>resolve\<close> only.  After the call returns, three things can
  happen, each as one uninterrupted step of the event loop: the caller calls
  \<^verbatim>\<open>cleanup\<close>, the worker's call fulfils with a result, or the worker's call rejects.
\<close>

datatype 'a PromiseState = Pending | Fulfilled 'a | Rejected string

datatype Event = CallerCleanup | WorkerFulfils "ProcessArmorSet list" | WorkerRejects string

text \<open>
  The state of one dispatch: the result promise, whether \<^verbatim>\<open>cleanupRef\<close> still holds the
  worker's cleanup function, and how often that function (\<^verbatim>\<open>releaseProxy\<close> and
  \<^verbatim>\<open>terminate\<close>) has run.  The resolved value is the list of hydrated sets; the other
  fields of the result are passed through and \<^verbatim>\<open>processTime\<close> is a clock reading.
\<close>

record Dispatch =
  resultPromise :: "HydratedSlot list list PromiseState"
  cleanupRef :: bool
  workerReleased :: nat

definition dispatched :: Dispatch where
  "dispatched = \<lparr> resultPromise = Pending, cleanupRef = True, workerReleased = 0 \<rparr>"

text \<open>\<^verbatim>\<open>cleanup = () => { cleanupRef?.(); cleanupRef = undefined; }\<close>.\<close>

definition cleanup :: "Dispatch \<Rightarrow> Dispatch" where
  "cleanup st =
     (if cleanupRef st
      then st\<lparr> workerReleased := workerReleased st + 1, cleanupRef := False \<rparr>
      else st)"

text \<open>\<^verbatim>\<open>resolve(value)\<close> settles a pending promise and does nothing to a settled one.\<close>

definition resolve :: "HydratedSlot list list \<Rightarrow> Dispatch \<Rightarrow> Dispatch" where
  "resolve v st = (if resultPromise st = Pending then st\<lparr> resultPromise := Fulfilled v \<rparr> else st)"

text \<open>\<^verbatim>\<open>result.sets.map((set) => hydrateArmorSet(set, itemsById))\<close>; a throw is \<open>None\<close>.\<close>

fun hydrateSets ::
  "(string \<rightharpoonup> ItemGroup) \<Rightarrow> ProcessArmorSet list \<Rightarrow> HydratedSlot list list option" where
  "hydrateSets groupIndex [] = Some []"
| "hydrateSets groupIndex (processed # rest) =
     (case hydrateArmorSet processed groupIndex of
        None \<Rightarrow> None
      | Some hydrated \<Rightarrow>
          (case hydrateSets groupIndex rest of
             None \<Rightarrow> None
           | Some more_sets \<Rightarrow> Some (hydrated # more_sets)))"

text \<open>
  The \<^verbatim>\<open>then\<close> callback: hydrate and resolve.  If hydration throws, \<^verbatim>\<open>resolve\<close> is not
  reached; the rejection goes to the promise that \<^verbatim>\<open>then\<close> returned, which nothing
  observes.
\<close>

definition onResult :: "(string \<rightharpoonup> ItemGroup) \<Rightarrow> ProcessArmorSet list \<Rightarrow> Dispatch \<Rightarrow> Dispatch" where
  "onResult groupIndex result_sets st =
     (case hydrateSets groupIndex result_sets of
        None \<Rightarrow> st
      | Some hydratedSets \<Rightarrow> resolve hydratedSets st)"

text \<open>
  One step.  The worker's call settles at most once and a terminated worker never
  answers; both hold exactly while \<^verbatim>\<open>cleanupRef\<close> is still set, because the
  \<^verbatim>\<open>finally\<close> callback runs \<^verbatim>\<open>cleanup\<close> as soon as the call has settled.  On
  fulfilment the \<^verbatim>\<open>then\<close> callback runs and then the \<^verbatim>\<open>finally\<close> callback; on
  rejection the \<^verbatim>\<open>then\<close> callback is skipped and only the \<^verbatim>\<open>finally\<close> callback runs.
\<close>

fun step :: "(string \<rightharpoonup> ItemGroup) \<Rightarrow> Dispatch \<Rightarrow> Event \<Rightarrow> Dispatch" where
  "step groupIndex st CallerCleanup = cleanup st"
| "step groupIndex st (WorkerFulfils result_sets) =
     (if cleanupRef st then cleanup (onResult groupIndex result_sets st) else st)"
| "step groupIndex st (WorkerRejects err) =
     (if cleanupRef st then cleanup st else st)"

definition run :: "(string \<rightharpoonup> ItemGroup) \<Rightarrow> Event list \<Rightarrow> Dispatch" where
  "run groupIndex events = foldl (step groupIndex) dispatched events"

section \<open>Definitions of the specification\<close>

text \<open>
  The relevant mod tags of a canonical item: the compatible mod seasons that some locked
  activity mod requires, as a set.
\<close>

definition relevantTags :: "string list \<Rightarrow> ProcessItem \<Rightarrow> string set" where
  "relevantTags requiredModTags p =
     (case compatibleModSeasons p of
        None \<Rightarrow> {}
      | Some seasons \<Rightarrow> set (filter (\<lambda>season. season \<in> set requiredModTags) seasons))"

text \<open>
  Dominance as the specification defines it, on two canonical items: (1) every constrained
  stat of \<open>a\<close> is at least that of \<open>b\<close>, (2) so is the energy capacity, (3) \<open>a\<close> is
  artifice-capable whenever \<open>b\<close> is, (4) the relevant mod tags of \<open>a\<close> include those of
  \<open>b\<close>, and (5) one of the four comparisons is strict.
\<close>

definition dominates ::
  "ResolvedStatConstraint list \<Rightarrow> string list \<Rightarrow> ProcessItem \<Rightarrow> ProcessItem \<Rightarrow> bool" where
  "dominates rc req a b \<longleftrightarrow>
     (\<forall>c\<in>set rc. stats a (statHash c) \<ge> stats b (statHash c))
     \<and> remainingEnergyCapacity a \<ge> remainingEnergyCapacity b
     \<and> (isArtifice b \<longrightarrow> isArtifice a)
     \<and> relevantTags req b \<subseteq> relevantTags req a
     \<and> ((\<exists>c\<in>set rc. stats a (statHash c) > stats b (statHash c))
        \<or> remainingEnergyCapacity a > remainingEnergyCapacity b
        \<or> (isArtifice a \<and> \<not> isArtifice b)
        \<or> relevantTags req b \<subset> relevantTags req a)"

text \<open>
  What \<^verbatim>\<open>isStrictlyBetter\<close> returns on two items whose cache entries are those the
  cache-filling loop computes for them.
\<close>

definition better :: "ResolvedStatConstraint list \<Rightarrow> string list \<Rightarrow> MappedItem \<Rightarrow> MappedItem \<Rightarrow> bool" where
  "better rc req a b = strictlyBetterInfo a (cacheEntry rc req a) (cacheEntry rc req b)"

text \<open>
  The group that the loop over \<^verbatim>\<open>groupedByEverything.values()\<close> pushes for a non-empty
  list of mapped items.
\<close>

definition groupOf :: "(DimItem \<Rightarrow> string option) option \<Rightarrow> MappedItem list \<Rightarrow> ItemGroup" where
  "groupOf getUserItemTag grp =
     (let sorted_grp = Array_sort (groupComparator getUserItemTag) grp
      in \<lparr> canonicalProcessItem = processItem (hd sorted_grp),
           items = map dimItem sorted_grp \<rparr>)"

text \<open>
  The tie-break in the words of the specification, as a sort key on a group member that
  is compared lexicographically: higher energy capacity first, then owned before
  vendor-sourced, then favorited, then higher power, then equipped.  The specification's
  energy capacity is the remaining budget for mods, the one the canonical item holds and
  the grouping key contains, so that it is equal within a group.
\<close>

definition tiebreak_key ::
  "(DimItem \<Rightarrow> string option) option \<Rightarrow> MappedItem \<Rightarrow> int \<times> bool \<times> bool \<times> int \<times> int" where
  "tiebreak_key getTag m =
     (- remainingEnergyCapacity (processItem m), vendor (dimItem m) \<noteq> None,
      not_favorite getTag (dimItem m), - power_d (dimItem m),
      if equipped (dimItem m) then 0 else 1)"

text \<open>Decimal digits, and the number that a string of digits denotes.\<close>

definition is_digit :: "char \<Rightarrow> bool" where
  "is_digit c \<longleftrightarrow> 48 \<le> (of_char c :: nat) \<and> (of_char c :: nat) < 58"

definition digits_value :: "string \<Rightarrow> nat" where
  "digits_value s = foldl (\<lambda>a c. 10 * a + (of_char c - 48)) 0 s"

text \<open>
  Well-formed input: among the filtered items, the id of a process item identifies the
  item it was mapped from and the bucket it is in.
\<close>

definition idsIdentifyItems ::
  "('r \<Rightarrow> PluggableInventoryItemDefinition list \<Rightarrow> DimItem \<Rightarrow> ProcessItem) \<Rightarrow> 'r \<Rightarrow> ModMap \<Rightarrow>
   (int \<times> DimItem list) list \<Rightarrow> bool" where
  "idsIdentifyItems f armorEnergyRules lockedModMap filteredItems \<longleftrightarrow>
     (\<forall>(b, ds)\<in>set filteredItems. \<forall>(b', ds')\<in>set filteredItems. \<forall>d\<in>set ds. \<forall>d'\<in>set ds'.
        id_p (f armorEnergyRules (modsForSlot_of lockedModMap b) d)
          = id_p (f armorEnergyRules (modsForSlot_of lockedModMap b') d')
        \<longrightarrow> b = b' \<and> d = d')"

text \<open>
  The invariant of the loop that fills the tables: every process item sent for a bucket
  was mapped from an item of that bucket, and the index maps its id to a group that has
  it as canonical process item and whose first member it was mapped from.
\<close>

definition tablesOk ::
  "('r \<Rightarrow> PluggableInventoryItemDefinition list \<Rightarrow> DimItem \<Rightarrow> ProcessItem) \<Rightarrow> 'r \<Rightarrow> ModMap \<Rightarrow>
   (int \<times> DimItem list) list \<Rightarrow> JobTables \<Rightarrow> bool" where
  "tablesOk f armorEnergyRules lockedModMap filteredItems tables \<longleftrightarrow>
     (\<forall>b sent p. processItems tables b = Some sent \<longrightarrow> p \<in> set sent \<longrightarrow>
        (\<exists>ds d. (b, ds) \<in> set filteredItems \<and> d \<in> set ds
            \<and> p = f armorEnergyRules (modsForSlot_of lockedModMap b) d)
        \<and> (\<exists>g. itemsById tables (id_p p) = Some g \<and> canonicalProcessItem g = p \<and> items g \<noteq> []
              \<and> f armorEnergyRules (modsForSlot_of lockedModMap b) (hd (items g)) = p))"

section \<open>Example data\<close>

text \<open>
  Example data: an armor piece named by its instance id, owned and equipped or sold by a
  vendor, and a mapper that derives one stat from the item's power, makes the item with
  id \<open>X\<close> an exotic and the item with id \<open>R\<close> artifice armor, and gives every item the
  same two mod seasons.
\<close>

definition ex_item :: "string \<Rightarrow> bool \<Rightarrow> int \<Rightarrow> DimItem" where
  "ex_item name owned pw =
     \<lparr> id_d = name, energy = Some \<lparr> energyCapacity = 10 \<rparr>,
       vendor = (if owned then None else Some 350061650),
       power_d = pw, equipped = owned \<rparr>"

definition ex_mapper :: "unit \<Rightarrow> unit \<Rightarrow> DimItem \<Rightarrow> ProcessItem" where
  "ex_mapper armorEnergyRules modsForSlot d =
     \<lparr> id_p = id_d d, hash = (if id_d d = ''X'' then 2001 else 1001),
       isExotic = (id_d d = ''X''), isArtifice = (id_d d = ''R''),
       stats = (\<lambda>h. if h = 2996146975 then power_d d - 1800 else 10),
       remainingEnergyCapacity = 10,
       compatibleModSeasons = Some [''vaultofglass'', ''deepstonecrypt''] \<rparr>"

text \<open>
  Example data: an owned and equipped armor piece that is not masterworked: the item
  itself has energy capacity 7, while the example mapper, like energy rules that assume
  masterworked armor, gives every item the remaining capacity 10.
\<close>

definition ex_unmasterworked :: "string \<Rightarrow> int \<Rightarrow> DimItem" where
  "ex_unmasterworked name pw =
     \<lparr> id_d = name, energy = Some \<lparr> energyCapacity = 7 \<rparr>,
       vendor = None, power_d = pw, equipped = True \<rparr>"

definition ex_constraints :: "ResolvedStatConstraint list" where
  "ex_constraints =
     [\<lparr> statHash = 2996146975, minTier = 0, maxTier = 10, ignored = False \<rparr>,
      \<lparr> statHash = 392767087, minTier = 0, maxTier = 10, ignored = False \<rparr>]"

text \<open>
  Example data: three legendary helmets whose first constrained stat is 9, 10 and 11, in
  the order in which the pruning loop meets them, and the list of all three mapped.
\<close>

definition ex_helmets :: "DimItem list" where
  "ex_helmets = [ex_item ''B'' True 1809, ex_item ''A'' True 1810, ex_item ''C'' True 1811]"

definition ex_mapped :: "MappedItem list" where
  "ex_mapped = mapItems ex_mapper () () ex_helmets"

text \<open>
  Example data: four helmets as \<^verbatim>\<open>mapItemsToGroups\<close> receives them.  \<open>H1\<close> is owned and
  equipped, \<open>H2\<close> is sold by a vendor and has the same stats, \<open>H3\<close> is worse than both and
  \<open>X\<close> is an exotic.  One activity mod is locked, whose plug category has a tag.
\<close>

definition ex_armor :: "DimItem list" where
  "ex_armor = [ex_item ''H3'' True 1805, ex_item ''H2'' False 1810,
               ex_item ''X'' True 1810, ex_item ''H1'' True 1810]"

definition ex_getModTag :: "int \<Rightarrow> string option" where
  "ex_getModTag h = (if h = 1 then Some ''deepstonecrypt'' else None)"

definition ex_mods :: "PluggableInventoryItemDefinition list" where
  "ex_mods = [\<lparr> plugCategoryHash = 1 \<rparr>]"

definition ex_m :: "DimItem \<Rightarrow> MappedItem" where
  "ex_m d = \<lparr> dimItem = d, processItem = ex_mapper () () d \<rparr>"

text \<open>
  Example data: the helmets of the running example as the only filtered bucket, the five
  armor bucket hashes, no bucket-specific mods, and the example mapper with the type that
  \<^verbatim>\<open>runProcess\<close> uses it at.
\<close>

definition ex_slot_mapper ::
  "unit \<Rightarrow> PluggableInventoryItemDefinition list \<Rightarrow> DimItem \<Rightarrow> ProcessItem" where
  "ex_slot_mapper armorEnergyRules modsForSlot d = ex_mapper () () d"

definition ex_lockedModMap :: ModMap where
  "ex_lockedModMap = \<lparr> bucketSpecificMods = Map.empty, activityMods = ex_mods, generalMods = [] \<rparr>"

definition ex_armorBuckets :: "int list" where
  "ex_armorBuckets = [3448274439, 3551918588, 14239492, 20886954, 1585787867]"

definition ex_filteredItems :: "(int \<times> DimItem list) list" where
  "ex_filteredItems = [(3448274439, ex_armor)]"

text \<open>
  Example data: the group index of the running example, with the helmet group under the
  id \<open>H1\<close>.
\<close>

definition ex_index :: "string \<rightharpoonup> ItemGroup" where
  "ex_index =
     [''H1'' \<mapsto> \<lparr> canonicalProcessItem = ex_mapper () () (ex_item ''H1'' True 1810),
                   items = [ex_item ''H1'' True 1810, ex_item ''H2'' False 1810] \<rparr>]"

section \<open>Sets and cache entries\<close>

lemma set_Set_add: "set (Set_add x acc) = insert x (set acc)"
  by (auto simp: Set_add_def)

lemma foldl_Set_add_set:
  "set (foldl (\<lambda>s v. Set_add v s) acc xs) = set acc \<union> set xs"
  by (induction xs arbitrary: acc) (simp_all add: set_Set_add)

lemma foldl_Set_add_distinct:
  "distinct acc \<Longrightarrow> distinct (foldl (\<lambda>s v. Set_add v s) acc xs)"
proof (induction xs arbitrary: acc)
  case Nil
  then show ?case by simp
next
  case (Cons x xs)
  have "distinct (Set_add x acc)"
    using Cons.prems by (simp add: Set_add_def)
  then show ?case
    using Cons.IH by simp
qed

lemma foldl_Set_add_sorted:
  "sorted (acc @ xs) \<Longrightarrow> sorted (foldl (\<lambda>s v. Set_add v s) acc xs)"
proof (induction xs arbitrary: acc)
  case Nil
  then show ?case by simp
next
  case (Cons x xs)
  have "sorted (Set_add x acc @ xs)"
    using Cons.prems by (auto simp: Set_add_def sorted_append)
  then show ?case
    using Cons.IH by simp
qed

lemma set_new_Set: "set (new_Set xs) = set xs"
  by (simp add: new_Set_def foldl_Set_add_set)

lemma distinct_new_Set: "distinct (new_Set xs)"
  by (simp add: new_Set_def foldl_Set_add_distinct)

lemma sorted_new_Set: "sorted xs \<Longrightarrow> sorted (new_Set xs)"
  by (simp add: new_Set_def foldl_Set_add_sorted)

lemma new_Set_sort_cong:
  assumes "set xs = set (ys :: string list)"
  shows "new_Set (sort xs) = new_Set (sort ys)"
proof (rule sorted_distinct_set_unique)
  show "set (new_Set (sort xs)) = set (new_Set (sort ys))"
    using assms by (simp add: set_new_Set)
qed (simp_all add: distinct_new_Set sorted_new_Set)

lemma relevantModSeasons_cacheEntry:
  "set (relevantModSeasons (cacheEntry rc req m)) = relevantTags req (processItem m)"
  by (simp add: cacheEntry_def relevantTags_def set_new_Set split: option.splits)

lemma distinct_relevantModSeasons: "distinct (relevantModSeasons (cacheEntry rc req m))"
  by (simp add: cacheEntry_def distinct_new_Set)

lemma every_idx_stats:
  "every_idx (\<lambda>v idx. case nth_opt (map g rc) idx of None \<Rightarrow> False | Some e \<Rightarrow> v \<ge> e) (map f rc)
   \<longleftrightarrow> (\<forall>c\<in>set rc. (f c :: int) \<ge> g c)"
proof -
  have "every_idx (\<lambda>v idx. case nth_opt (map g rc) idx of None \<Rightarrow> False | Some e \<Rightarrow> v \<ge> e) (map f rc)
        \<longleftrightarrow> (\<forall>i<length rc. f (rc ! i) \<ge> g (rc ! i))"
    by (auto simp: every_idx_def nth_opt_def list_all_iff)
  then show ?thesis
    by (simp add: all_set_conv_all_nth)
qed

lemma some_idx_stats:
  "some_idx (\<lambda>v idx. case nth_opt (map g rc) idx of None \<Rightarrow> True | Some e \<Rightarrow> v \<noteq> e) (map f rc)
   \<longleftrightarrow> (\<exists>c\<in>set rc. (f c :: int) \<noteq> g c)"
proof -
  have "some_idx (\<lambda>v idx. case nth_opt (map g rc) idx of None \<Rightarrow> True | Some e \<Rightarrow> v \<noteq> e) (map f rc)
        \<longleftrightarrow> (\<exists>i<length rc. f (rc ! i) \<noteq> g (rc ! i))"
    by (auto simp: some_idx_def nth_opt_def list_ex_iff)
  also have "\<dots> \<longleftrightarrow> (\<exists>c\<in>set rc. f c \<noteq> g c)"
    by (metis in_set_conv_nth)
  finally show ?thesis .
qed

lemma superset_length:
  assumes "distinct xs" "distinct ys" "set ys \<subseteq> set xs"
  shows "length xs \<noteq> length ys \<longleftrightarrow> set ys \<subset> set xs"
proof -
  have "length xs = card (set xs)" "length ys = card (set ys)"
    using assms by (simp_all add: distinct_card)
  moreover have "card (set ys) = card (set xs) \<longleftrightarrow> set ys = set xs"
    using assms(3) by (metis List.finite_set card_subset_eq)
  ultimately show ?thesis using assms(3) by auto
qed

lemma ne_iff_less:
  assumes "\<forall>c\<in>S. (g c :: int) \<le> f c"
  shows "(\<exists>c\<in>S. f c \<noteq> g c) \<longleftrightarrow> (\<exists>c\<in>S. g c < f c)"
proof
  assume "\<exists>c\<in>S. f c \<noteq> g c"
  then obtain c where "c \<in> S" "f c \<noteq> g c" by blast
  with assms have "g c < f c" by force
  with \<open>c \<in> S\<close> show "\<exists>c\<in>S. g c < f c" by blast
next
  assume "\<exists>c\<in>S. g c < f c"
  then show "\<exists>c\<in>S. f c \<noteq> g c" by force
qed

lemma better_dominates:
  "better rc req a b = dominates rc req (processItem a) (processItem b)"
proof -
  let ?ta = "relevantModSeasons (cacheEntry rc req a)"
  let ?tb = "relevantModSeasons (cacheEntry rc req b)"
  have len: "set ?tb \<subseteq> set ?ta \<Longrightarrow> length ?ta \<noteq> length ?tb \<longleftrightarrow> set ?tb \<subset> set ?ta"
    by (rule superset_length) (simp_all add: distinct_relevantModSeasons)
  have st: "stats_c (cacheEntry rc req a) = map (\<lambda>c. stats (processItem a) (statHash c)) rc"
       "stats_c (cacheEntry rc req b) = map (\<lambda>c. stats (processItem b) (statHash c)) rc"
       "energyCapacity_c (cacheEntry rc req a) = remainingEnergyCapacity (processItem a)"
       "energyCapacity_c (cacheEntry rc req b) = remainingEnergyCapacity (processItem b)"
       "isArtifice_c (cacheEntry rc req a) = isArtifice (processItem a)"
       "isArtifice_c (cacheEntry rc req b) = isArtifice (processItem b)"
    by (simp_all add: cacheEntry_def)
  have ne: "(\<forall>c\<in>set rc. stats (processItem b) (statHash c) \<le> stats (processItem a) (statHash c)) \<Longrightarrow>
       (\<exists>c\<in>set rc. stats (processItem a) (statHash c) \<noteq> stats (processItem b) (statHash c))
       \<longleftrightarrow> (\<exists>c\<in>set rc. stats (processItem b) (statHash c) < stats (processItem a) (statHash c))"
    by (rule ne_iff_less)
  have sup: "isSuperset ?ta ?tb \<longleftrightarrow> relevantTags req (processItem b) \<subseteq> relevantTags req (processItem a)"
    by (auto simp: isSuperset_def list_all_iff relevantModSeasons_cacheEntry)
  have len': "relevantTags req (processItem b) \<subseteq> relevantTags req (processItem a) \<Longrightarrow>
      length ?ta \<noteq> length ?tb \<longleftrightarrow> relevantTags req (processItem b) \<subset> relevantTags req (processItem a)"
    using len by (simp add: relevantModSeasons_cacheEntry)
  show ?thesis
  proof (cases "(\<forall>c\<in>set rc. stats (processItem b) (statHash c) \<le> stats (processItem a) (statHash c))
      \<and> relevantTags req (processItem b) \<subseteq> relevantTags req (processItem a)")
    case True
    then show ?thesis
      unfolding better_def strictlyBetterInfo_def dominates_def Let_def st
        every_idx_stats some_idx_stats sup
      using ne len' by auto
  next
    case False
    then show ?thesis
      unfolding better_def strictlyBetterInfo_def dominates_def Let_def st
        every_idx_stats some_idx_stats sup
      by auto
  qed
qed

section \<open>The cache holds an entry for every mapped item\<close>

lemma foldl_map_upd:
  assumes "\<forall>i\<in>set xs. v i = V (k i)"
  shows "foldl (\<lambda>c i. c(k i \<mapsto> v i)) c0 xs d = (if d \<in> k ` set xs then Some (V d) else c0 d)"
  using assms by (induction xs arbitrary: c0) auto

lemma mapItems_member:
  "m \<in> set (mapItems f r ms ds) \<longleftrightarrow>
     dimItem m \<in> set ds \<and> m = \<lparr> dimItem = dimItem m, processItem = f r ms (dimItem m) \<rparr>"
  by (auto simp: mapItems_def)

lemma buildCache_lookup:
  assumes "m \<in> set (mapItems f r ms ds)"
  shows "buildCache rc req (mapItems f r ms ds) (dimItem m) = Some (cacheEntry rc req m)"
proof -
  let ?V = "\<lambda>d. cacheEntry rc req \<lparr> dimItem = d, processItem = f r ms d \<rparr>"
  have "\<forall>i\<in>set (mapItems f r ms ds). cacheEntry rc req i = ?V (dimItem i)"
    by (metis mapItems_member)
  then have "buildCache rc req (mapItems f r ms ds) (dimItem m)
      = (if dimItem m \<in> dimItem ` set (mapItems f r ms ds) then Some (?V (dimItem m)) else None)"
    unfolding buildCache_def by (subst foldl_map_upd [where V = "?V"]) simp_all
  moreover have "?V (dimItem m) = cacheEntry rc req m"
    using assms by (metis mapItems_member)
  ultimately show ?thesis
    using assms by auto
qed

lemma isStrictlyBetter_better:
  assumes "a \<in> set (mapItems f r ms ds)" and "b \<in> set (mapItems f r ms ds)"
  shows "isStrictlyBetter (buildCache rc req (mapItems f r ms ds)) a b = Some (better rc req a b)"
  using assms by (simp add: isStrictlyBetter_def buildCache_lookup better_def)

section \<open>Dominance\<close>

text \<open>
  Claim C3.  For two items of the mapped item list (so in particular for two items of one
  bucket), \<^verbatim>\<open>isStrictlyBetter(a, b)\<close> returns, and returns true exactly when \<open>a\<close>
  dominates \<open>b\<close> by the five conditions of the specification: every constrained stat
  and the energy capacity of \<open>a\<close> are at least those of \<open>b\<close>, \<open>a\<close> is artifice-capable
  whenever \<open>b\<close> is, the relevant mod tags of \<open>a\<close> include those of \<open>b\<close>, and one of
  these comparisons is strict.
\<close>

theorem isStrictlyBetter_iff_dominates:
  assumes "a \<in> set (mapItems f r ms ds)" and "b \<in> set (mapItems f r ms ds)"
  shows "isStrictlyBetter (buildCache rc req (mapItems f r ms ds)) a b
         = Some (dominates rc req (processItem a) (processItem b))"
  using assms by (simp add: isStrictlyBetter_better better_dominates)

theorem isStrictlyBetter_iff_dominates_witness:
  "(let ds = [ex_item ''A'' True 1810, ex_item ''B'' True 1809];
        a = \<lparr> dimItem = ex_item ''A'' True 1810, processItem = ex_mapper () () (ex_item ''A'' True 1810) \<rparr>;
        b = \<lparr> dimItem = ex_item ''B'' True 1809, processItem = ex_mapper () () (ex_item ''B'' True 1809) \<rparr>
    in a \<in> set (mapItems ex_mapper () () ds) \<and> b \<in> set (mapItems ex_mapper () () ds)
       \<and> isStrictlyBetter (buildCache ex_constraints [] (mapItems ex_mapper () () ds)) a b = Some True
       \<and> isStrictlyBetter (buildCache ex_constraints [] (mapItems ex_mapper () () ds)) b a = Some False)"
proof -
  let ?dA = "ex_item ''A'' True 1810" and ?dB = "ex_item ''B'' True 1809"
  let ?a = "\<lparr> dimItem = ?dA, processItem = ex_mapper () () ?dA \<rparr>"
  let ?b = "\<lparr> dimItem = ?dB, processItem = ex_mapper () () ?dB \<rparr>"
  have ma: "?a \<in> set (mapItems ex_mapper () () [?dA, ?dB])"
    and mb: "?b \<in> set (mapItems ex_mapper () () [?dA, ?dB])"
    by (simp_all add: mapItems_def)
  have "dominates ex_constraints [] (processItem ?a) (processItem ?b)"
    by (simp add: dominates_def ex_constraints_def ex_mapper_def ex_item_def relevantTags_def)
  moreover have "\<not> dominates ex_constraints [] (processItem ?b) (processItem ?a)"
    by (simp add: dominates_def ex_constraints_def ex_mapper_def ex_item_def relevantTags_def)
  ultimately show ?thesis
    using isStrictlyBetter_iff_dominates [OF ma mb, of ex_constraints "[]"]
          isStrictlyBetter_iff_dominates [OF mb ma, of ex_constraints "[]"] ma mb
    by (simp add: Let_def)
qed

section \<open>Dominance is a strict partial order\<close>

lemma dominates_irrefl: "\<not> dominates rc req a a"
  by (auto simp: dominates_def)

lemma dominates_trans:
  assumes "dominates rc req a b" and "dominates rc req b c"
  shows "dominates rc req a c"
proof -
  have ge: "\<forall>x\<in>set rc. stats c (statHash x) \<le> stats a (statHash x)"
    using assms by (force simp: dominates_def)
  have en: "remainingEnergyCapacity c \<le> remainingEnergyCapacity a"
    using assms by (force simp: dominates_def)
  have ar: "isArtifice c \<longrightarrow> isArtifice a"
    using assms by (simp add: dominates_def)
  have tg: "relevantTags req c \<subseteq> relevantTags req a"
    using assms by (auto simp: dominates_def)
  have strict: "(\<exists>x\<in>set rc. stats a (statHash x) > stats c (statHash x))
        \<or> remainingEnergyCapacity a > remainingEnergyCapacity c
        \<or> (isArtifice a \<and> \<not> isArtifice c)
        \<or> relevantTags req c \<subset> relevantTags req a"
  proof -
    from assms(1) consider
        (st) x where "x \<in> set rc" "stats a (statHash x) > stats b (statHash x)"
      | (en) "remainingEnergyCapacity a > remainingEnergyCapacity b"
      | (ar) "isArtifice a" "\<not> isArtifice b"
      | (tg) "relevantTags req b \<subset> relevantTags req a"
      by (auto simp: dominates_def)
    then show ?thesis
    proof cases
      case st
      moreover have "stats c (statHash x) \<le> stats b (statHash x)"
        using assms(2) st(1) by (simp add: dominates_def)
      ultimately show ?thesis by force
    next
      case en
      moreover have "remainingEnergyCapacity c \<le> remainingEnergyCapacity b"
        using assms(2) by (simp add: dominates_def)
      ultimately show ?thesis by force
    next
      case ar
      moreover have "isArtifice c \<longrightarrow> isArtifice b"
        using assms(2) by (simp add: dominates_def)
      ultimately show ?thesis by blast
    next
      case tg
      moreover have "relevantTags req c \<subseteq> relevantTags req b"
        using assms(2) by (simp add: dominates_def)
      ultimately show ?thesis by blast
    qed
  qed
  show ?thesis
    unfolding dominates_def using ge en ar tg strict by blast
qed

lemma better_irrefl: "\<not> better rc req a a"
  by (simp add: better_dominates dominates_irrefl)

lemma better_trans: "better rc req a b \<Longrightarrow> better rc req b c \<Longrightarrow> better rc req a c"
  unfolding better_dominates by (rule dominates_trans)

section \<open>The inner loop\<close>

lemma take_splice1: "idx < length xs \<Longrightarrow> take idx (splice1 idx xs) = take idx xs"
  by (simp add: splice1_def)

lemma drop_splice1: "idx < length xs \<Longrightarrow> drop idx (splice1 idx xs) = drop (Suc idx) xs"
  by (simp add: splice1_def)

lemma length_splice1: "idx < length xs \<Longrightarrow> length (splice1 idx xs) = length xs - 1"
  by (simp add: splice1_def)

lemma set_splice1: "set (splice1 idx xs) \<subseteq> set xs"
  by (auto simp: splice1_def dest: in_set_takeD in_set_dropD)

lemma splice1_keeps:
  assumes "idx < length xs" and "x \<in> set xs"
  shows "x \<in> set (splice1 idx xs) \<or> x = xs ! idx"
proof -
  have "set xs = set (take idx xs @ xs ! idx # drop (Suc idx) xs)"
    by (rule arg_cong [where f = set], rule id_take_nth_drop [OF assms(1)])
  also have "\<dots> = set (splice1 idx xs) \<union> {xs ! idx}"
    by (auto simp: splice1_def)
  finally show ?thesis
    using assms(2) by blast
qed

lemma scanKeepSet_spec:
  assumes "n \<le> length ks"
      and "set ks \<subseteq> set (mapItems f r ms ds)"
      and "item \<in> set (mapItems f r ms ds)"
  shows "\<exists>dominated ks'.
           scanKeepSet (buildCache rc req (mapItems f r ms ds)) item ks n = Some (dominated, ks')
           \<and> set ks' \<subseteq> set ks
           \<and> (\<forall>k\<in>set ks. k \<in> set ks' \<or> better rc req item k)
           \<and> (dominated \<longrightarrow> (\<exists>k\<in>set ks. better rc req k item))
           \<and> (\<not> dominated \<longrightarrow>
                 ks' = filter (\<lambda>k. \<not> better rc req item k) (take n ks) @ drop n ks
                 \<and> (\<forall>k\<in>set (take n ks). \<not> better rc req k item))"
  using assms
proof (induction n arbitrary: ks)
  case 0
  show ?case
  proof (intro exI conjI)
    show "scanKeepSet (buildCache rc req (mapItems f r ms ds)) item ks 0 = Some (False, ks)"
      by simp
  qed simp_all
next
  case (Suc idx)
  let ?C = "buildCache rc req (mapItems f r ms ds)"
  let ?kept = "ks ! idx"
  have lt: "idx < length ks" using Suc.prems(1) by simp
  then have kin: "?kept \<in> set ks" by simp
  then have kM: "?kept \<in> set (mapItems f r ms ds)" using Suc.prems(2) by blast
  have nth: "nth_opt ks idx = Some ?kept" using lt by (simp add: nth_opt_def)
  have b1: "isStrictlyBetter ?C ?kept item = Some (better rc req ?kept item)"
    using kM Suc.prems(3) by (rule isStrictlyBetter_better)
  have b2: "isStrictlyBetter ?C item ?kept = Some (better rc req item ?kept)"
    using Suc.prems(3) kM by (rule isStrictlyBetter_better)
  have tk: "take (Suc idx) ks = take idx ks @ [?kept]"
    using lt by (simp add: take_Suc_conv_app_nth)
  show ?case
  proof (cases "better rc req ?kept item")
    case True
    show ?thesis
    proof (intro exI conjI)
      show "scanKeepSet ?C item ks (Suc idx) = Some (True, ks)"
        using nth b1 True by simp
      show "True \<longrightarrow> (\<exists>k\<in>set ks. better rc req k item)"
        using kin True by blast
    qed simp_all
  next
    case nb: False
    show ?thesis
    proof (cases "better rc req item ?kept")
      case True
      let ?ks = "splice1 idx ks"
      have le: "idx \<le> length ?ks" using lt by (simp add: length_splice1)
      have subM: "set ?ks \<subseteq> set (mapItems f r ms ds)"
        by (rule order_trans [OF set_splice1 Suc.prems(2)])
      obtain dominated ks' where
        res: "scanKeepSet ?C item ?ks idx = Some (dominated, ks')"
        and sub: "set ks' \<subseteq> set ?ks"
        and cov: "\<forall>k\<in>set ?ks. k \<in> set ks' \<or> better rc req item k"
        and dom: "dominated \<longrightarrow> (\<exists>k\<in>set ?ks. better rc req k item)"
        and ndom: "\<not> dominated \<longrightarrow>
                 ks' = filter (\<lambda>k. \<not> better rc req item k) (take idx ?ks) @ drop idx ?ks
                 \<and> (\<forall>k\<in>set (take idx ?ks). \<not> better rc req k item)"
        using Suc.IH [OF le subM Suc.prems(3)] by blast
      show ?thesis
      proof (intro exI conjI)
        show "scanKeepSet ?C item ks (Suc idx) = Some (dominated, ks')"
          using nth b1 b2 nb True res by simp
        show "set ks' \<subseteq> set ks" by (rule order_trans [OF sub set_splice1])
        show "\<forall>k\<in>set ks. k \<in> set ks' \<or> better rc req item k"
          using cov splice1_keeps [OF lt] True by blast
        show "dominated \<longrightarrow> (\<exists>k\<in>set ks. better rc req k item)"
          using dom set_splice1 [of idx ks] by blast
        show "\<not> dominated \<longrightarrow>
                 ks' = filter (\<lambda>k. \<not> better rc req item k) (take (Suc idx) ks) @ drop (Suc idx) ks
                 \<and> (\<forall>k\<in>set (take (Suc idx) ks). \<not> better rc req k item)"
          using ndom nb True by (simp add: tk take_splice1 [OF lt] drop_splice1 [OF lt])
      qed
    next
      case False
      have le: "idx \<le> length ks" using lt by simp
      obtain dominated ks' where
        res: "scanKeepSet ?C item ks idx = Some (dominated, ks')"
        and sub: "set ks' \<subseteq> set ks"
        and cov: "\<forall>k\<in>set ks. k \<in> set ks' \<or> better rc req item k"
        and dom: "dominated \<longrightarrow> (\<exists>k\<in>set ks. better rc req k item)"
        and ndom: "\<not> dominated \<longrightarrow>
                 ks' = filter (\<lambda>k. \<not> better rc req item k) (take idx ks) @ drop idx ks
                 \<and> (\<forall>k\<in>set (take idx ks). \<not> better rc req k item)"
        using Suc.IH [OF le Suc.prems(2) Suc.prems(3)] by blast
      show ?thesis
      proof (intro exI conjI)
        show "scanKeepSet ?C item ks (Suc idx) = Some (dominated, ks')"
          using nth b1 b2 nb False res by simp
        show "set ks' \<subseteq> set ks" by (rule sub)
        show "\<forall>k\<in>set ks. k \<in> set ks' \<or> better rc req item k" by (rule cov)
        show "dominated \<longrightarrow> (\<exists>k\<in>set ks. better rc req k item)" by (rule dom)
        show "\<not> dominated \<longrightarrow>
                 ks' = filter (\<lambda>k. \<not> better rc req item k) (take (Suc idx) ks) @ drop (Suc idx) ks
                 \<and> (\<forall>k\<in>set (take (Suc idx) ks). \<not> better rc req k item)"
          using ndom nb False lt by (simp add: tk Cons_nth_drop_Suc)
      qed
    qed
  qed
qed

section \<open>The pruning loop keeps the maximal items\<close>

lemma prune_step:
  assumes anti: "\<forall>x\<in>set K. \<forall>y\<in>set K. \<not> better rc req x y"
      and KM: "set K \<subseteq> set (mapItems f r ms ds)"
      and iM: "item \<in> set (mapItems f r ms ds)"
  shows "\<exists>dominated K'.
           scanKeepSet (buildCache rc req (mapItems f r ms ds)) item K (length K) = Some (dominated, K')
           \<and> (dominated \<longrightarrow> set K' = set K \<and> (\<exists>k\<in>set K. better rc req k item))
           \<and> (\<not> dominated \<longrightarrow> K' = filter (\<lambda>k. \<not> better rc req item k) K
                 \<and> (\<forall>k\<in>set K. \<not> better rc req k item))"
proof -
  obtain dominated K' where
    res: "scanKeepSet (buildCache rc req (mapItems f r ms ds)) item K (length K) = Some (dominated, K')"
    and sub: "set K' \<subseteq> set K"
    and cov: "\<forall>k\<in>set K. k \<in> set K' \<or> better rc req item k"
    and dom: "dominated \<longrightarrow> (\<exists>k\<in>set K. better rc req k item)"
    and ndom: "\<not> dominated \<longrightarrow>
                 K' = filter (\<lambda>k. \<not> better rc req item k) (take (length K) K) @ drop (length K) K
                 \<and> (\<forall>k\<in>set (take (length K) K). \<not> better rc req k item)"
    using scanKeepSet_spec [OF order_refl KM iM, of rc req] by blast
  have d: "dominated \<longrightarrow> set K' = set K"
  proof
    assume dominated
    then obtain k where k: "k \<in> set K" "better rc req k item" using dom by blast
    have "x \<in> set K'" if "x \<in> set K" for x
    proof (rule ccontr)
      assume "x \<notin> set K'"
      then have "better rc req item x" using cov that by blast
      then have "better rc req k x" using k(2) better_trans by blast
      then show False using anti k(1) that by blast
    qed
    then show "set K' = set K" using sub by blast
  qed
  show ?thesis
  proof (intro exI conjI)
    show "scanKeepSet (buildCache rc req (mapItems f r ms ds)) item K (length K) = Some (dominated, K')"
      by (rule res)
    show "dominated \<longrightarrow> set K' = set K \<and> (\<exists>k\<in>set K. better rc req k item)"
      using d dom by blast
    show "\<not> dominated \<longrightarrow> K' = filter (\<lambda>k. \<not> better rc req item k) K
                 \<and> (\<forall>k\<in>set K. \<not> better rc req k item)"
      using ndom by simp
  qed
qed

lemma pruneLoop_spec:
  assumes "\<forall>x\<in>set K. \<forall>y\<in>set K. \<not> better rc req x y"
      and "set K \<subseteq> set (mapItems f r ms ds)"
      and "set xs \<subseteq> set (mapItems f r ms ds)"
      and "set K \<subseteq> P"
      and "\<forall>x\<in>P. x \<in> set K \<or> (\<exists>k\<in>set K. better rc req k x)"
  shows "\<exists>R. pruneLoop (buildCache rc req (mapItems f r ms ds)) xs K = Some R
           \<and> (\<forall>x\<in>set R. \<forall>y\<in>set R. \<not> better rc req x y)
           \<and> set R \<subseteq> P \<union> set xs
           \<and> (\<forall>x\<in>P \<union> set xs. x \<in> set R \<or> (\<exists>k\<in>set R. better rc req k x))"
  using assms
proof (induction xs arbitrary: K P)
  case Nil
  show ?case
  proof (intro exI conjI)
    show "pruneLoop (buildCache rc req (mapItems f r ms ds)) [] K = Some K" by simp
    show "\<forall>x\<in>set K. \<forall>y\<in>set K. \<not> better rc req x y" by (rule Nil.prems(1))
    show "set K \<subseteq> P \<union> set []" using Nil.prems(4) by simp
    show "\<forall>x\<in>P \<union> set []. x \<in> set K \<or> (\<exists>k\<in>set K. better rc req k x)"
      using Nil.prems(5) by simp
  qed
next
  case (Cons item rest)
  let ?C = "buildCache rc req (mapItems f r ms ds)"
  have iM: "item \<in> set (mapItems f r ms ds)" using Cons.prems(3) by simp
  have restM: "set rest \<subseteq> set (mapItems f r ms ds)" using Cons.prems(3) by simp
  obtain dominated K' where
    res: "scanKeepSet ?C item K (length K) = Some (dominated, K')"
    and dom: "dominated \<longrightarrow> set K' = set K \<and> (\<exists>k\<in>set K. better rc req k item)"
    and ndom: "\<not> dominated \<longrightarrow> K' = filter (\<lambda>k. \<not> better rc req item k) K
                 \<and> (\<forall>k\<in>set K. \<not> better rc req k item)"
    using prune_step [OF Cons.prems(1) Cons.prems(2) iM] by blast
  let ?K = "if \<not> dominated then K' @ [item] else K'"
  have sub: "set ?K \<subseteq> set K \<union> {item}"
    using dom ndom by (cases dominated) auto
  have anti: "\<forall>x\<in>set ?K. \<forall>y\<in>set ?K. \<not> better rc req x y"
  proof (cases dominated)
    case True
    then show ?thesis using dom Cons.prems(1) by simp
  next
    case False
    then have K': "K' = filter (\<lambda>k. \<not> better rc req item k) K"
      and nk: "\<forall>k\<in>set K. \<not> better rc req k item"
      using ndom by simp_all
    show ?thesis
      using False Cons.prems(1) nk better_irrefl [of rc req item] by (auto simp: K')
  qed
  have KM: "set ?K \<subseteq> set (mapItems f r ms ds)"
    using sub Cons.prems(2) iM by blast
  have KP: "set ?K \<subseteq> insert item P"
    using sub Cons.prems(4) by blast
  have cov: "\<forall>x\<in>insert item P. x \<in> set ?K \<or> (\<exists>k\<in>set ?K. better rc req k x)"
  proof
    fix x assume x: "x \<in> insert item P"
    show "x \<in> set ?K \<or> (\<exists>k\<in>set ?K. better rc req k x)"
    proof (cases dominated)
      case True
      then have eq: "set ?K = set K" and ex: "\<exists>k\<in>set K. better rc req k item"
        using dom by simp_all
      show ?thesis
        using x Cons.prems(5) ex unfolding eq by blast
    next
      case False
      then have K': "K' = filter (\<lambda>k. \<not> better rc req item k) K"
        using ndom by simp
      have setK: "set ?K = {k \<in> set K. \<not> better rc req item k} \<union> {item}"
        using False by (auto simp: K')
      have keep: "k \<in> set ?K \<or> better rc req item k" if "k \<in> set K" for k
        using that unfolding setK by blast
      have itemK: "item \<in> set ?K" unfolding setK by blast
      show ?thesis
      proof (cases "x = item")
        case True
        then show ?thesis using itemK by blast
      next
        case False
        then have "x \<in> P" using x by blast
        then consider "x \<in> set K" | k where "k \<in> set K" "better rc req k x"
          using Cons.prems(5) by blast
        then show ?thesis
        proof cases
          case 1
          then show ?thesis using keep itemK by blast
        next
          case 2
          from keep [OF 2(1)] show ?thesis
          proof
            assume "k \<in> set ?K"
            then show ?thesis using 2(2) by blast
          next
            assume "better rc req item k"
            then have "better rc req item x" using 2(2) better_trans by blast
            then show ?thesis using itemK by blast
          qed
        qed
      qed
    qed
  qed
  obtain R where
    R: "pruneLoop ?C rest ?K = Some R"
    and Ranti: "\<forall>x\<in>set R. \<forall>y\<in>set R. \<not> better rc req x y"
    and Rsub: "set R \<subseteq> insert item P \<union> set rest"
    and Rcov: "\<forall>x\<in>insert item P \<union> set rest. x \<in> set R \<or> (\<exists>k\<in>set R. better rc req k x)"
    using Cons.IH [OF anti KM restM KP cov] by blast
  show ?case
  proof (intro exI conjI)
    show "pruneLoop ?C (item # rest) K = Some R"
      using res R by simp
    show "\<forall>x\<in>set R. \<forall>y\<in>set R. \<not> better rc req x y" by (rule Ranti)
    show "set R \<subseteq> P \<union> set (item # rest)" using Rsub by auto
    show "\<forall>x\<in>P \<union> set (item # rest). x \<in> set R \<or> (\<exists>k\<in>set R. better rc req k x)"
      using Rcov by auto
  qed
qed

lemma pruneLoop_maximal:
  assumes "set xs \<subseteq> set (mapItems f r ms ds)"
  shows "\<exists>R. pruneLoop (buildCache rc req (mapItems f r ms ds)) xs [] = Some R
           \<and> (\<forall>x\<in>set R. \<forall>y\<in>set R. \<not> better rc req x y)
           \<and> set R = {x \<in> set xs. \<forall>y\<in>set xs. \<not> better rc req y x}"
proof -
  obtain R where
    R: "pruneLoop (buildCache rc req (mapItems f r ms ds)) xs [] = Some R"
    and anti: "\<forall>x\<in>set R. \<forall>y\<in>set R. \<not> better rc req x y"
    and sub: "set R \<subseteq> {} \<union> set xs"
    and cov: "\<forall>x\<in>{} \<union> set xs. x \<in> set R \<or> (\<exists>k\<in>set R. better rc req k x)"
    using pruneLoop_spec [of "[]" rc req f r ms ds xs "{}"] assms by auto
  have "set R = {x \<in> set xs. \<forall>y\<in>set xs. \<not> better rc req y x}"
  proof (intro equalityI subsetI)
    fix x assume x: "x \<in> set R"
    have "\<not> better rc req y x" if "y \<in> set xs" for y
    proof
      assume b: "better rc req y x"
      from cov that consider "y \<in> set R" | k where "k \<in> set R" "better rc req k y" by auto
      then show False
      proof cases
        case 1
        then show False using anti x b by blast
      next
        case 2
        then have "better rc req k x" using b better_trans by blast
        then show False using anti x 2(1) by blast
      qed
    qed
    then show "x \<in> {x \<in> set xs. \<forall>y\<in>set xs. \<not> better rc req y x}"
      using x sub by auto
  next
    fix x assume "x \<in> {x \<in> set xs. \<forall>y\<in>set xs. \<not> better rc req y x}"
    then have x: "x \<in> set xs" and mx: "\<forall>y\<in>set xs. \<not> better rc req y x" by auto
    from cov x have "x \<in> set R \<or> (\<exists>k\<in>set R. better rc req k x)" by auto
    then show "x \<in> set R" using mx sub by auto
  qed
  then show ?thesis using R anti by blast
qed

section \<open>Grouping\<close>

lemma group_add_mset:
  "mset (concat (map snd (group_add k x acc))) = mset (concat (map snd acc)) + {#x#}"
  by (induction k x acc rule: group_add.induct) auto

lemma group_add_keys: "fst ` set (group_add k x acc) = insert k (fst ` set acc)"
  by (induction k x acc rule: group_add.induct) auto

lemma group_add_distinct:
  "distinct (map fst acc) \<Longrightarrow> distinct (map fst (group_add k x acc))"
proof (induction k x acc rule: group_add.induct)
  case (1 k x)
  then show ?case by simp
next
  case (2 k x k' g rest)
  have "fst ` set (group_add k x rest) = insert k (fst ` set rest)"
    by (rule group_add_keys)
  then show ?case using 2 by auto
qed

lemma group_add_length: "length (group_add k x acc) \<le> Suc (length acc)"
  by (induction k x acc rule: group_add.induct) auto

lemma group_add_members:
  assumes "\<forall>(k', g)\<in>set acc. g \<noteq> [] \<and> (\<forall>y\<in>set g. f y = Some k')" and "f x = Some k"
  shows "\<forall>(k', g)\<in>set (group_add k x acc). g \<noteq> [] \<and> (\<forall>y\<in>set g. f y = Some k')"
  using assms by (induction k x acc rule: group_add.induct) auto

lemma groupBy_from_spec:
  assumes "\<forall>x\<in>set xs. \<exists>k. f x = Some k"
      and "distinct (map fst acc)"
      and "\<forall>(k', g)\<in>set acc. g \<noteq> [] \<and> (\<forall>y\<in>set g. f y = Some k')"
  shows "\<exists>res. groupBy_from f xs acc = Some res
           \<and> mset (concat (map snd res)) = mset (concat (map snd acc)) + mset xs
           \<and> distinct (map fst res)
           \<and> (\<forall>(k', g)\<in>set res. g \<noteq> [] \<and> (\<forall>y\<in>set g. f y = Some k'))
           \<and> length res \<le> length acc + length xs"
  using assms
proof (induction xs arbitrary: acc)
  case Nil
  then show ?case by simp
next
  case (Cons x xs)
  obtain k where k: "f x = Some k" using Cons.prems(1) by auto
  let ?acc = "group_add k x acc"
  have 1: "\<forall>x\<in>set xs. \<exists>k. f x = Some k" using Cons.prems(1) by simp
  have 2: "distinct (map fst ?acc)" using Cons.prems(2) by (rule group_add_distinct)
  have 3: "\<forall>(k', g)\<in>set ?acc. g \<noteq> [] \<and> (\<forall>y\<in>set g. f y = Some k')"
    using Cons.prems(3) k by (rule group_add_members)
  obtain res where
    r: "groupBy_from f xs ?acc = Some res"
    and m: "mset (concat (map snd res)) = mset (concat (map snd ?acc)) + mset xs"
    and d: "distinct (map fst res)"
    and g: "\<forall>(k', g)\<in>set res. g \<noteq> [] \<and> (\<forall>y\<in>set g. f y = Some k')"
    and l: "length res \<le> length ?acc + length xs"
    using Cons.IH [OF 1 2 3] by blast
  show ?case
  proof (intro exI conjI)
    show "groupBy_from f (x # xs) acc = Some res" using k r by simp
    show "mset (concat (map snd res)) = mset (concat (map snd acc)) + mset (x # xs)"
      using m by (simp add: group_add_mset)
    show "distinct (map fst res)" by (rule d)
    show "\<forall>(k', g)\<in>set res. g \<noteq> [] \<and> (\<forall>y\<in>set g. f y = Some k')" by (rule g)
    show "length res \<le> length acc + length (x # xs)"
      using l group_add_length [of k x acc] by simp
  qed
qed

lemma groupBy_spec:
  assumes "\<forall>x\<in>set xs. \<exists>k. f x = Some k"
  shows "\<exists>res. groupBy f xs = Some res
           \<and> mset (concat (map snd res)) = mset xs
           \<and> distinct (map fst res)
           \<and> (\<forall>(k', g)\<in>set res. g \<noteq> [] \<and> (\<forall>y\<in>set g. f y = Some k'))
           \<and> length res \<le> length xs"
  using groupBy_from_spec [OF assms, of "[]"] by (simp add: groupBy_def)

lemma energyGroups_of_spec:
  assumes "bucket \<in> set (energyGroups_of M)"
  shows "set bucket \<subseteq> set M"
    and "\<forall>x\<in>set bucket. \<forall>y\<in>set bucket.
           firstPassGroupingFn (processItem x) = firstPassGroupingFn (processItem y)"
proof -
  let ?f = "\<lambda>m. Some (firstPassGroupingFn (processItem m))"
  obtain res where
    r: "groupBy ?f M = Some res"
    and m: "mset (concat (map snd res)) = mset M"
    and g: "\<forall>(k', g)\<in>set res. g \<noteq> [] \<and> (\<forall>y\<in>set g. ?f y = Some k')"
    using groupBy_spec [of M ?f] by auto
  have "bucket \<in> set (map snd res)"
    using assms r by (simp add: energyGroups_of_def)
  then obtain k where kb: "(k, bucket) \<in> set res" by auto
  have "set bucket \<subseteq> set (concat (map snd res))"
    using kb by force
  also have "\<dots> = set M"
    using m by (metis set_mset_mset)
  finally show "set bucket \<subseteq> set M" .
  show "\<forall>x\<in>set bucket. \<forall>y\<in>set bucket.
           firstPassGroupingFn (processItem x) = firstPassGroupingFn (processItem y)"
    using g kb by fastforce
qed

section \<open>The kept set\<close>

text \<open>
  Claim C4.  The pruning loop over a bucket returns, and the kept set is an antichain:
  for any two kept items \<^verbatim>\<open>isStrictlyBetter\<close> returns false, in either order.
\<close>

theorem keepSet_antichain:
  assumes "bucket \<in> set (energyGroups_of (mapItems f r ms ds))"
  shows "\<exists>keepSet.
           pruneLoop (buildCache rc req (mapItems f r ms ds)) bucket [] = Some keepSet
           \<and> (\<forall>x\<in>set keepSet. \<forall>y\<in>set keepSet.
                 isStrictlyBetter (buildCache rc req (mapItems f r ms ds)) x y = Some False)"
proof -
  have sub: "set bucket \<subseteq> set (mapItems f r ms ds)"
    using assms by (rule energyGroups_of_spec(1))
  obtain R where
    R: "pruneLoop (buildCache rc req (mapItems f r ms ds)) bucket [] = Some R"
    and anti: "\<forall>x\<in>set R. \<forall>y\<in>set R. \<not> better rc req x y"
    and mx: "set R = {x \<in> set bucket. \<forall>y\<in>set bucket. \<not> better rc req y x}"
    using pruneLoop_maximal [OF sub, of rc req] by blast
  have "isStrictlyBetter (buildCache rc req (mapItems f r ms ds)) x y = Some False"
    if "x \<in> set R" "y \<in> set R" for x y
  proof -
    have "x \<in> set (mapItems f r ms ds)" "y \<in> set (mapItems f r ms ds)"
      using that mx sub by auto
    then show ?thesis
      using anti that by (simp add: isStrictlyBetter_better)
  qed
  then show ?thesis using R by blast
qed

text \<open>
  Claim C5.  If \<open>a\<close> and \<open>b\<close> are items of one bucket and \<open>a\<close> dominates \<open>b\<close> by the five
  conditions, the pruning loop returns a kept set without \<open>b\<close>, whether or not \<open>a\<close>
  itself is kept.
\<close>

theorem dominated_item_pruned:
  assumes "bucket \<in> set (energyGroups_of (mapItems f r ms ds))"
      and "a \<in> set bucket" and "b \<in> set bucket"
      and "dominates rc req (processItem a) (processItem b)"
  shows "\<exists>keepSet.
           pruneLoop (buildCache rc req (mapItems f r ms ds)) bucket [] = Some keepSet
           \<and> b \<notin> set keepSet"
proof -
  have sub: "set bucket \<subseteq> set (mapItems f r ms ds)"
    using assms(1) by (rule energyGroups_of_spec(1))
  obtain R where
    R: "pruneLoop (buildCache rc req (mapItems f r ms ds)) bucket [] = Some R"
    and mx: "set R = {x \<in> set bucket. \<forall>y\<in>set bucket. \<not> better rc req y x}"
    using pruneLoop_maximal [OF sub, of rc req] by blast
  have "better rc req a b" using assms(4) by (simp add: better_dominates)
  then have "b \<notin> set R" using mx assms(2) by blast
  then show ?thesis using R by blast
qed

text \<open>
  Claim C6.  The kept set, as a set of items, does not depend on the order in which the
  bucket's items are met: the pruning loop returns on every permutation of the bucket,
  with the same set of kept items.
\<close>

theorem keepSet_order_independent:
  assumes "bucket \<in> set (energyGroups_of (mapItems f r ms ds))"
      and "mset bucket' = mset bucket"
  shows "\<exists>keepSet keepSet'.
           pruneLoop (buildCache rc req (mapItems f r ms ds)) bucket [] = Some keepSet
           \<and> pruneLoop (buildCache rc req (mapItems f r ms ds)) bucket' [] = Some keepSet'
           \<and> set keepSet' = set keepSet"
proof -
  have sub: "set bucket \<subseteq> set (mapItems f r ms ds)"
    using assms(1) by (rule energyGroups_of_spec(1))
  have eq: "set bucket' = set bucket"
    using assms(2) by (rule mset_eq_setD)
  then have sub': "set bucket' \<subseteq> set (mapItems f r ms ds)" using sub by simp
  obtain R where
    R: "pruneLoop (buildCache rc req (mapItems f r ms ds)) bucket [] = Some R"
    and mx: "set R = {x \<in> set bucket. \<forall>y\<in>set bucket. \<not> better rc req y x}"
    using pruneLoop_maximal [OF sub, of rc req] by blast
  obtain R' where
    R': "pruneLoop (buildCache rc req (mapItems f r ms ds)) bucket' [] = Some R'"
    and mx': "set R' = {x \<in> set bucket'. \<forall>y\<in>set bucket'. \<not> better rc req y x}"
    using pruneLoop_maximal [OF sub', of rc req] by blast
  have "set R' = set R" using mx mx' eq by simp
  then show ?thesis using R R' by blast
qed

lemma ex_mapped_eq:
  "ex_mapped =
     [\<lparr> dimItem = ex_item ''B'' True 1809, processItem = ex_mapper () () (ex_item ''B'' True 1809) \<rparr>,
      \<lparr> dimItem = ex_item ''A'' True 1810, processItem = ex_mapper () () (ex_item ''A'' True 1810) \<rparr>,
      \<lparr> dimItem = ex_item ''C'' True 1811, processItem = ex_mapper () () (ex_item ''C'' True 1811) \<rparr>]"
  by (simp add: ex_mapped_def ex_helmets_def mapItems_def)

lemma ex_bucket: "ex_mapped \<in> set (energyGroups_of (mapItems ex_mapper () () ex_helmets))"
  unfolding ex_mapped_def [symmetric]
  by (simp add: ex_mapped_eq energyGroups_of_def groupBy_def firstPassGroupingFn_def ex_mapper_def
        ex_item_def)

lemma ex_better:
  "better ex_constraints req \<lparr> dimItem = ex_item n ow p, processItem = ex_mapper () () (ex_item n ow p) \<rparr>
      \<lparr> dimItem = ex_item n' ow' p', processItem = ex_mapper () () (ex_item n' ow' p') \<rparr>
   \<longleftrightarrow> p' \<le> p \<and> (n' = ''R'' \<longrightarrow> n = ''R'') \<and> (p' < p \<or> (n = ''R'' \<and> n' \<noteq> ''R''))"
  by (auto simp: better_dominates dominates_def ex_constraints_def ex_mapper_def ex_item_def relevantTags_def)

lemma ex_pruned:
  "pruneLoop (buildCache ex_constraints [] (mapItems ex_mapper () () ex_helmets)) ex_mapped []
   = Some [\<lparr> dimItem = ex_item ''C'' True 1811, processItem = ex_mapper () () (ex_item ''C'' True 1811) \<rparr>]"
proof -
  have m: "\<And>x. x \<in> set ex_mapped \<Longrightarrow> x \<in> set (mapItems ex_mapper () () ex_helmets)"
    by (simp add: ex_mapped_def)
  have b: "\<And>x y. x \<in> set ex_mapped \<Longrightarrow> y \<in> set ex_mapped \<Longrightarrow>
      isStrictlyBetter (buildCache ex_constraints [] (mapItems ex_mapper () () ex_helmets)) x y
      = Some (better ex_constraints [] x y)"
    by (rule isStrictlyBetter_better) (simp_all add: ex_mapped_def)
  show ?thesis
    unfolding ex_mapped_eq
    by (simp add: b [unfolded ex_mapped_eq] nth_opt_def ex_better splice1_def)
qed

theorem keepSet_antichain_witness:
  "ex_mapped \<in> set (energyGroups_of (mapItems ex_mapper () () ex_helmets))
   \<and> (\<exists>keepSet.
         pruneLoop (buildCache ex_constraints [] (mapItems ex_mapper () () ex_helmets)) ex_mapped []
           = Some keepSet
         \<and> keepSet = [\<lparr> dimItem = ex_item ''C'' True 1811,
                          processItem = ex_mapper () () (ex_item ''C'' True 1811) \<rparr>]
         \<and> (\<forall>x\<in>set keepSet. \<forall>y\<in>set keepSet.
               isStrictlyBetter (buildCache ex_constraints [] (mapItems ex_mapper () () ex_helmets)) x y
                 = Some False))"
  using keepSet_antichain [OF ex_bucket, of ex_constraints "[]"] ex_bucket ex_pruned
  by auto

theorem dominated_item_pruned_witness:
  "(let a = \<lparr> dimItem = ex_item ''A'' True 1810, processItem = ex_mapper () () (ex_item ''A'' True 1810) \<rparr>;
        b = \<lparr> dimItem = ex_item ''B'' True 1809, processItem = ex_mapper () () (ex_item ''B'' True 1809) \<rparr>
    in ex_mapped \<in> set (energyGroups_of (mapItems ex_mapper () () ex_helmets))
       \<and> a \<in> set ex_mapped \<and> b \<in> set ex_mapped
       \<and> dominates ex_constraints [] (processItem a) (processItem b)
       \<and> (\<exists>keepSet.
             pruneLoop (buildCache ex_constraints [] (mapItems ex_mapper () () ex_helmets)) ex_mapped []
               = Some keepSet
             \<and> a \<notin> set keepSet \<and> b \<notin> set keepSet))"
proof -
  let ?a = "\<lparr> dimItem = ex_item ''A'' True 1810, processItem = ex_mapper () () (ex_item ''A'' True 1810) \<rparr>"
  let ?b = "\<lparr> dimItem = ex_item ''B'' True 1809, processItem = ex_mapper () () (ex_item ''B'' True 1809) \<rparr>"
  have a: "?a \<in> set ex_mapped" and b: "?b \<in> set ex_mapped"
    by (simp_all add: ex_mapped_eq)
  have d: "dominates ex_constraints [] (processItem ?a) (processItem ?b)"
    using ex_better [of "[]" "''A''" True 1810 "''B''" True 1809] by (simp add: better_dominates)
  have "?a \<notin> set [\<lparr> dimItem = ex_item ''C'' True 1811,
                       processItem = ex_mapper () () (ex_item ''C'' True 1811) \<rparr>]"
    by (simp add: ex_item_def)
  then show ?thesis
    using dominated_item_pruned [OF ex_bucket a b d] ex_bucket a b d ex_pruned
    by (auto simp: Let_def)
qed

theorem keepSet_order_independent_witness:
  "ex_mapped \<in> set (energyGroups_of (mapItems ex_mapper () () ex_helmets))
   \<and> mset (rev ex_mapped) = mset ex_mapped
   \<and> (\<exists>keepSet keepSet'.
         pruneLoop (buildCache ex_constraints [] (mapItems ex_mapper () () ex_helmets)) ex_mapped []
           = Some keepSet
         \<and> pruneLoop (buildCache ex_constraints [] (mapItems ex_mapper () () ex_helmets)) (rev ex_mapped) []
           = Some keepSet'
         \<and> set keepSet' = set keepSet)"
proof -
  have m: "mset (rev ex_mapped) = mset ex_mapped" by simp
  show ?thesis
    using keepSet_order_independent [OF ex_bucket m, of ex_constraints "[]"] ex_bucket m
    by blast
qed

section \<open>Sorting\<close>

lemma mset_insort_cmp: "mset (insort_cmp cmp x xs) = add_mset x (mset xs)"
  by (induction xs) auto

lemma mset_Array_sort: "mset (Array_sort cmp xs) = mset xs"
  by (induction xs) (simp_all add: Array_sort_def mset_insort_cmp)

lemma set_Array_sort: "set (Array_sort cmp xs) = set xs"
  by (metis mset_Array_sort set_mset_mset)

lemma Array_sort_Nil_iff: "Array_sort cmp xs = [] \<longleftrightarrow> xs = []"
  by (metis mset_Array_sort mset_zero_iff)

section \<open>Building the groups of a bucket\<close>

lemma makeGroup_groupOf:
  "grp \<noteq> [] \<Longrightarrow> makeGroup getTag grp = Some (groupOf getTag grp)"
  by (auto simp: makeGroup_def groupOf_def Let_def Array_sort_Nil_iff split: list.splits)

lemma makeGroups_groupOf:
  "\<forall>grp\<in>set grps. grp \<noteq> [] \<Longrightarrow> makeGroups getTag grps = Some (map (groupOf getTag) grps)"
  by (induction grps) (simp_all add: makeGroup_groupOf)

lemma items_groupOf: "mset (items (groupOf getTag grp)) = mset (map dimItem grp)"
proof -
  have "mset (map dimItem (Array_sort (groupComparator getTag) grp))
        = image_mset dimItem (mset (Array_sort (groupComparator getTag) grp))"
    by simp
  then show ?thesis
    by (simp add: groupOf_def Let_def mset_Array_sort)
qed

lemma set_items_groupOf: "set (items (groupOf getTag grp)) = dimItem ` set grp"
  by (simp add: groupOf_def Let_def set_Array_sort)

lemma mset_concat_items:
  "mset (concat (map items (map (groupOf getTag) grps))) = mset (map dimItem (concat grps))"
  by (induction grps) (simp_all add: items_groupOf)

text \<open>The key of the final grouping, as a function of a cache entry.\<close>

lemma finalGroupingFn_lookup:
  assumes "m \<in> set (mapItems f r ms ds)"
  shows "finalGroupingFn (buildCache rc req (mapItems f r ms ds)) (dimItem m)
         = Some (Array_toString (stats_c (cacheEntry rc req m)) @ ''-''
                 @ Number_toString (energyCapacity_c (cacheEntry rc req m)) @ ''-''
                 @ join_comma (relevantModSeasons (cacheEntry rc req m)))"
  using assms by (simp add: finalGroupingFn_def buildCache_lookup)

lemma processBucket_spec:
  assumes sub: "set bucket \<subseteq> set (mapItems f r ms ds)"
  shows "\<exists>keepSet res.
           pruneLoop (buildCache rc req (mapItems f r ms ds)) bucket [] = Some keepSet
           \<and> (\<forall>x\<in>set keepSet. \<forall>y\<in>set keepSet. \<not> better rc req x y)
           \<and> set keepSet = {x \<in> set bucket. \<forall>y\<in>set bucket. \<not> better rc req y x}
           \<and> groupBy (\<lambda>m. finalGroupingFn (buildCache rc req (mapItems f r ms ds)) (dimItem m)) keepSet
               = Some res
           \<and> mset (concat (map snd res)) = mset keepSet
           \<and> distinct (map fst res)
           \<and> (\<forall>(k, g)\<in>set res. g \<noteq> []
                 \<and> (\<forall>y\<in>set g. finalGroupingFn (buildCache rc req (mapItems f r ms ds)) (dimItem y) = Some k))
           \<and> length res \<le> length keepSet
           \<and> processBucket (buildCache rc req (mapItems f r ms ds)) getTag bucket
               = Some (map (groupOf getTag) (map snd res))"
proof -
  let ?C = "buildCache rc req (mapItems f r ms ds)"
  let ?key = "\<lambda>m. finalGroupingFn ?C (dimItem m)"
  obtain R where
    R: "pruneLoop ?C bucket [] = Some R"
    and anti: "\<forall>x\<in>set R. \<forall>y\<in>set R. \<not> better rc req x y"
    and mx: "set R = {x \<in> set bucket. \<forall>y\<in>set bucket. \<not> better rc req y x}"
    using pruneLoop_maximal [OF sub, of rc req] by blast
  have RM: "set R \<subseteq> set (mapItems f r ms ds)" using mx sub by auto
  have tot: "\<forall>x\<in>set R. \<exists>k. ?key x = Some k"
    using RM finalGroupingFn_lookup [of _ f r ms ds rc req] by blast
  obtain res where
    g: "groupBy ?key R = Some res"
    and m: "mset (concat (map snd res)) = mset R"
    and d: "distinct (map fst res)"
    and k: "\<forall>(k, g)\<in>set res. g \<noteq> [] \<and> (\<forall>y\<in>set g. ?key y = Some k)"
    and l: "length res \<le> length R"
    using groupBy_spec [OF tot] by blast
  have ne: "\<forall>grp\<in>set (map snd res). grp \<noteq> []"
    using k by auto
  have pb: "processBucket ?C getTag bucket = Some (map (groupOf getTag) (map snd res))"
    using R g makeGroups_groupOf [OF ne, of getTag] by (simp add: processBucket_def)
  show ?thesis
    using R anti mx g m d k l pb by blast
qed

text \<open>
  Claim C7.  The groups built from a bucket's kept set partition it: the member lists
  together hold exactly the kept items, each as often as it is kept; no item is a member
  of two groups; and there are at most as many groups as kept items.
\<close>

theorem groups_partition_keepSet:
  assumes "bucket \<in> set (energyGroups_of (mapItems f r ms ds))"
  shows "\<exists>keepSet groups.
           pruneLoop (buildCache rc req (mapItems f r ms ds)) bucket [] = Some keepSet
           \<and> processBucket (buildCache rc req (mapItems f r ms ds)) getTag bucket = Some groups
           \<and> mset (concat (map items groups)) = mset (map dimItem keepSet)
           \<and> (\<forall>i<length groups. \<forall>j<length groups.
                 i \<noteq> j \<longrightarrow> set (items (groups ! i)) \<inter> set (items (groups ! j)) = {})
           \<and> length groups \<le> length keepSet"
proof -
  let ?C = "buildCache rc req (mapItems f r ms ds)"
  have sub: "set bucket \<subseteq> set (mapItems f r ms ds)"
    using assms by (rule energyGroups_of_spec(1))
  obtain keepSet res where
    R: "pruneLoop ?C bucket [] = Some keepSet"
    and m: "mset (concat (map snd res)) = mset keepSet"
    and d: "distinct (map fst res)"
    and k: "\<forall>(k, g)\<in>set res. g \<noteq> []
                 \<and> (\<forall>y\<in>set g. finalGroupingFn ?C (dimItem y) = Some k)"
    and l: "length res \<le> length keepSet"
    and pb: "processBucket ?C getTag bucket = Some (map (groupOf getTag) (map snd res))"
    using processBucket_spec [OF sub, of rc req getTag] by blast
  let ?groups = "map (groupOf getTag) (map snd res)"
  have 1: "mset (concat (map items ?groups)) = mset (map dimItem keepSet)"
  proof -
    have "mset (concat (map items ?groups)) = mset (map dimItem (concat (map snd res)))"
      by (rule mset_concat_items)
    also have "\<dots> = image_mset dimItem (mset (concat (map snd res)))" by simp
    also have "\<dots> = mset (map dimItem keepSet)" by (simp only: m mset_map)
    finally show ?thesis .
  qed
  have key: "finalGroupingFn ?C d = Some (fst (res ! i))"
    if "i < length res" "d \<in> set (items (?groups ! i))" for i d
  proof -
    have "(fst (res ! i), snd (res ! i)) \<in> set res" using that(1) by simp
    then have "\<forall>y\<in>set (snd (res ! i)). finalGroupingFn ?C (dimItem y) = Some (fst (res ! i))"
      using k by blast
    moreover have "d \<in> dimItem ` set (snd (res ! i))"
      using that by (simp add: set_items_groupOf)
    ultimately show ?thesis by blast
  qed
  have 2: "\<forall>i<length ?groups. \<forall>j<length ?groups.
                 i \<noteq> j \<longrightarrow> set (items (?groups ! i)) \<inter> set (items (?groups ! j)) = {}"
  proof (intro allI impI)
    fix i j assume i: "i < length ?groups" and j: "j < length ?groups" and ne: "i \<noteq> j"
    have il: "i < length res" and jl: "j < length res" using i j by simp_all
    have "fst (res ! i) \<noteq> fst (res ! j)"
      using d il jl ne by (metis distinct_conv_nth length_map nth_map)
    then show "set (items (?groups ! i)) \<inter> set (items (?groups ! j)) = {}"
      using key [OF il] key [OF jl] by fastforce
  qed
  have 3: "length ?groups \<le> length keepSet" using l by simp
  show ?thesis
    using R pb 1 2 3 by blast
qed

theorem groups_partition_keepSet_witness:
  "ex_mapped \<in> set (energyGroups_of (mapItems ex_mapper () () ex_helmets))
   \<and> (\<exists>keepSet groups.
         pruneLoop (buildCache ex_constraints [] (mapItems ex_mapper () () ex_helmets)) ex_mapped []
           = Some keepSet
         \<and> processBucket (buildCache ex_constraints [] (mapItems ex_mapper () () ex_helmets)) None ex_mapped
           = Some groups
         \<and> keepSet = [\<lparr> dimItem = ex_item ''C'' True 1811,
                          processItem = ex_mapper () () (ex_item ''C'' True 1811) \<rparr>]
         \<and> mset (concat (map items groups)) = {# ex_item ''C'' True 1811 #}
         \<and> length groups \<le> 1)"
  using groups_partition_keepSet [OF ex_bucket, of ex_constraints "[]" None] ex_bucket ex_pruned
  by auto

section \<open>Rendering numbers\<close>

lemma is_digit_digit_char: "d < 10 \<Longrightarrow> is_digit (digit_char d)"
  by (simp add: is_digit_def digit_char_def)

lemma not_is_digit_minus: "\<not> is_digit CHR ''-''"
  by (simp add: is_digit_def)

lemma not_is_digit_comma: "\<not> is_digit CHR '',''"
  by (simp add: is_digit_def)

lemma not_is_digit_l: "\<not> is_digit CHR ''l''"
  by (simp add: is_digit_def)

lemma nat_toString_digits: "\<forall>c\<in>set (nat_toString n). is_digit c"
proof (induction n rule: nat_toString.induct)
  case (1 n)
  show ?case
  proof (cases "n < 10")
    case True
    then show ?thesis
      by (subst nat_toString.simps) (simp add: is_digit_digit_char)
  next
    case False
    then show ?thesis
      using 1 by (subst nat_toString.simps) (simp add: is_digit_digit_char)
  qed
qed

lemma nat_toString_nonempty: "nat_toString n \<noteq> []"
  by (subst nat_toString.simps) simp

lemma digits_value_snoc: "digits_value (s @ [c]) = 10 * digits_value s + (of_char c - 48)"
  by (simp add: digits_value_def)

lemma digits_value_digit_char: "d < 10 \<Longrightarrow> digits_value [digit_char d] = d"
  by (simp add: digits_value_def digit_char_def)

lemma digits_value_nat_toString: "digits_value (nat_toString n) = n"
proof (induction n rule: nat_toString.induct)
  case (1 n)
  show ?case
  proof (cases "n < 10")
    case True
    then show ?thesis
      by (subst nat_toString.simps) (simp add: digits_value_digit_char)
  next
    case False
    have "of_char (digit_char (n mod 10)) - 48 = n mod 10"
      by (simp add: digit_char_def)
    then show ?thesis
      using False 1 by (subst nat_toString.simps) (simp add: digits_value_snoc)
  qed
qed

lemma nat_toString_inj: "nat_toString a = nat_toString b \<Longrightarrow> a = b"
  by (metis digits_value_nat_toString)

text \<open>Two strings that agree up to and including their first character outside a class.\<close>

lemma split_at_first:
  assumes "\<forall>x\<in>set u. P x" and "\<not> P c" and "\<forall>x\<in>set v. P x" and "\<not> P c'"
      and "u @ c # r = v @ c' # r'"
  shows "u = v \<and> c = c' \<and> r = r'"
proof -
  have "takeWhile P (u @ c # r) = u"
    using assms(1,2) by simp
  moreover have "takeWhile P (v @ c' # r') = v"
    using assms(3,4) by simp
  ultimately have "u = v" using assms(5) by simp
  then show ?thesis using assms(5) by simp
qed

lemma Number_toString_split:
  assumes "Number_toString a @ c # r = Number_toString b @ c' # r'"
      and "\<not> is_digit c" and "\<not> is_digit c'"
  shows "a = b \<and> c = c' \<and> r = r'"
proof -
  have hd_digit: "\<exists>d s. nat_toString n = d # s \<and> is_digit d" for n
    using nat_toString_nonempty [of n] nat_toString_digits [of n]
    by (cases "nat_toString n") auto
  consider "a < 0" "b < 0" | "a < 0" "\<not> b < 0" | "\<not> a < 0" "b < 0" | "\<not> a < 0" "\<not> b < 0"
    by blast
  then show ?thesis
  proof cases
    case 1
    then have "nat_toString (nat (- a)) @ c # r = nat_toString (nat (- b)) @ c' # r'"
      using assms(1) by (simp add: Number_toString_def)
    then have "nat_toString (nat (- a)) = nat_toString (nat (- b)) \<and> c = c' \<and> r = r'"
      using split_at_first [of "nat_toString (nat (- a))" is_digit c "nat_toString (nat (- b))" c' r r']
        nat_toString_digits assms(2,3) by blast
    then show ?thesis using 1 nat_toString_inj [of "nat (- a)" "nat (- b)"] by auto
  next
    case 2
    obtain d s where "nat_toString (nat b) = d # s" "is_digit d" using hd_digit by blast
    then show ?thesis
      using 2 assms(1) not_is_digit_minus by (auto simp: Number_toString_def)
  next
    case 3
    obtain d s where "nat_toString (nat a) = d # s" "is_digit d" using hd_digit by blast
    then show ?thesis
      using 3 assms(1) not_is_digit_minus by (auto simp: Number_toString_def)
  next
    case 4
    then have "nat_toString (nat a) @ c # r = nat_toString (nat b) @ c' # r'"
      using assms(1) by (simp add: Number_toString_def)
    then have "nat_toString (nat a) = nat_toString (nat b) \<and> c = c' \<and> r = r'"
      using split_at_first [of "nat_toString (nat a)" is_digit c "nat_toString (nat b)" c' r r']
        nat_toString_digits assms(2,3) by blast
    then show ?thesis using 4 nat_toString_inj [of "nat a" "nat b"] by auto
  qed
qed

lemma Number_toString_inj: "Number_toString a = Number_toString b \<Longrightarrow> a = b"
  using Number_toString_split [of a "CHR ''-''" "[]" b "CHR ''-''" "[]"] not_is_digit_minus
  by simp

lemma Number_toString_hd:
  "\<exists>d s. Number_toString a = d # s \<and> (is_digit d \<or> d = CHR ''-'')"
proof -
  obtain d s where "nat_toString (nat a) = d # s" "is_digit d"
    using nat_toString_nonempty [of "nat a"] nat_toString_digits [of "nat a"]
    by (cases "nat_toString (nat a)") auto
  then show ?thesis by (auto simp: Number_toString_def)
qed

section \<open>The grouping keys determine what they are built from\<close>

lemma firstPassGroupingFn_inj:
  assumes "firstPassGroupingFn p = firstPassGroupingFn q"
  shows "isExotic p = isExotic q \<and> (isExotic p \<longrightarrow> hash p = hash q)"
proof -
  have legendary: "Number_toString h @ ''-'' \<noteq> ''legendary-''" for h
  proof -
    obtain d s where "Number_toString h = d # s" "is_digit d \<or> d = CHR ''-''"
      using Number_toString_hd by blast
    then show ?thesis using not_is_digit_l by auto
  qed
  show ?thesis
  proof (cases "isExotic p"; cases "isExotic q")
    assume "isExotic p" "isExotic q"
    then have "Number_toString (hash p) @ CHR ''-'' # [] = Number_toString (hash q) @ CHR ''-'' # []"
      using assms by (simp add: firstPassGroupingFn_def)
    then have "hash p = hash q"
      using Number_toString_split not_is_digit_minus by blast
    then show ?thesis using \<open>isExotic p\<close> \<open>isExotic q\<close> by simp
  next
    assume "isExotic p" "\<not> isExotic q"
    then show ?thesis using assms legendary [of "hash p"] by (simp add: firstPassGroupingFn_def)
  next
    assume "\<not> isExotic p" "isExotic q"
    then show ?thesis using assms legendary [of "hash q"] by (simp add: firstPassGroupingFn_def)
  next
    assume "\<not> isExotic p" "\<not> isExotic q"
    then show ?thesis by simp
  qed
qed

lemma Array_toString_split:
  assumes "length xs = length ys"
      and "Array_toString xs @ CHR ''-'' # r = Array_toString ys @ CHR ''-'' # r'"
  shows "xs = ys \<and> r = r'"
  using assms
proof (induction xs ys rule: list_induct2)
  case Nil
  then show ?case by (simp add: Array_toString_def)
next
  case (Cons x xs y ys)
  show ?case
  proof (cases xs)
    case Nil
    then have ys: "ys = []" using Cons.hyps by simp
    have "Number_toString x @ CHR ''-'' # r = Number_toString y @ CHR ''-'' # r'"
      using Cons.prems Nil ys by (simp add: Array_toString_def)
    then have "x = y \<and> r = r'"
      using Number_toString_split not_is_digit_minus by blast
    then show ?thesis using Nil ys by simp
  next
    case (Cons x2 xs2)
    then obtain y2 ys2 where ys: "ys = y2 # ys2"
      using Cons.hyps by (cases ys) auto
    have "Number_toString x @ CHR '','' # (Array_toString xs @ CHR ''-'' # r)
          = Number_toString y @ CHR '','' # (Array_toString ys @ CHR ''-'' # r')"
      using Cons.prems Cons ys by (simp add: Array_toString_def)
    then have "x = y \<and> Array_toString xs @ CHR ''-'' # r = Array_toString ys @ CHR ''-'' # r'"
      using Number_toString_split not_is_digit_comma by blast
    then show ?thesis using Cons.IH by simp
  qed
qed

lemma join_comma_Cons:
  "join_comma (x # xs) = (if xs = [] then x else x @ CHR '','' # join_comma xs)"
  by (cases xs) simp_all

lemma join_comma_inj:
  assumes "\<forall>t\<in>set xs. t \<noteq> [] \<and> CHR '','' \<notin> set t"
      and "\<forall>t\<in>set ys. t \<noteq> [] \<and> CHR '','' \<notin> set t"
      and "join_comma xs = join_comma ys"
  shows "xs = ys"
  using assms
proof (induction xs arbitrary: ys)
  case Nil
  show ?case
  proof (cases ys)
    case Nil
    then show ?thesis by simp
  next
    case (Cons y ys2)
    then have "y \<noteq> []" using Nil.prems(2) by simp
    then have "join_comma ys \<noteq> []" using Cons by (simp add: join_comma_Cons)
    then show ?thesis using Nil.prems(3) by simp
  qed
next
  case (Cons x xs)
  have x: "x \<noteq> []" "\<forall>c\<in>set x. c \<noteq> CHR '',''" using Cons.prems(1) by auto
  show ?case
  proof (cases ys)
    case Nil
    have "join_comma (x # xs) \<noteq> []" using x(1) by (simp add: join_comma_Cons)
    then show ?thesis using Cons.prems(3) Nil by simp
  next
    case ys: (Cons y ys2)
    have y: "y \<noteq> []" "\<forall>c\<in>set y. c \<noteq> CHR '',''" using Cons.prems(2) ys by auto
    have eq: "join_comma (x # xs) = join_comma (y # ys2)" using Cons.prems(3) ys by simp
    consider "xs = []" "ys2 = []" | "xs = []" "ys2 \<noteq> []" | "xs \<noteq> []" "ys2 = []"
      | "xs \<noteq> []" "ys2 \<noteq> []" by blast
    then show ?thesis
    proof cases
      case 1
      then show ?thesis using eq ys by simp
    next
      case 2
      then have "x = y @ CHR '','' # join_comma ys2" using eq by (simp add: join_comma_Cons)
      then have "CHR '','' \<in> set x" by simp
      then show ?thesis using x(2) by blast
    next
      case 3
      then have "y = x @ CHR '','' # join_comma xs" using eq by (simp add: join_comma_Cons)
      then have "CHR '','' \<in> set y" by simp
      then show ?thesis using y(2) by blast
    next
      case 4
      then have "x @ CHR '','' # join_comma xs = y @ CHR '','' # join_comma ys2"
        using eq by (simp add: join_comma_Cons)
      then have "x = y \<and> join_comma xs = join_comma ys2"
        using split_at_first [of x "\<lambda>c. c \<noteq> CHR '',''" "CHR '',''" y "CHR '',''"
                "join_comma xs" "join_comma ys2"] x(2) y(2) by simp
      moreover have "\<forall>t\<in>set xs. t \<noteq> [] \<and> CHR '','' \<notin> set t" using Cons.prems(1) by simp
      moreover have "\<forall>t\<in>set ys2. t \<noteq> [] \<and> CHR '','' \<notin> set t" using Cons.prems(2) ys by simp
      ultimately show ?thesis using Cons.IH [of ys2] ys by simp
    qed
  qed
qed

lemma final_key_inj:
  assumes "length s1 = length s2"
      and "\<forall>t\<in>set t1. t \<noteq> [] \<and> CHR '','' \<notin> set t"
      and "\<forall>t\<in>set t2. t \<noteq> [] \<and> CHR '','' \<notin> set t"
      and "Array_toString s1 @ ''-'' @ Number_toString e1 @ ''-'' @ join_comma t1
           = Array_toString s2 @ ''-'' @ Number_toString e2 @ ''-'' @ join_comma t2"
  shows "s1 = s2 \<and> e1 = e2 \<and> t1 = t2"
proof -
  have "Array_toString s1 @ CHR ''-'' # (Number_toString e1 @ CHR ''-'' # join_comma t1)
        = Array_toString s2 @ CHR ''-'' # (Number_toString e2 @ CHR ''-'' # join_comma t2)"
    using assms(4) by simp
  then have s: "s1 = s2"
    and r: "Number_toString e1 @ CHR ''-'' # join_comma t1
            = Number_toString e2 @ CHR ''-'' # join_comma t2"
    using Array_toString_split [OF assms(1)] by blast+
  have e: "e1 = e2" and j: "join_comma t1 = join_comma t2"
    using Number_toString_split [OF r] not_is_digit_minus by blast+
  have "t1 = t2" using assms(2,3) j by (rule join_comma_inj)
  then show ?thesis using s e by simp
qed

section \<open>The groups of mapItemsToGroups\<close>

lemma requiredModTags_step:
  assumes "\<forall>t\<in>set acc. t \<noteq> [] \<and> (\<exists>h. getModTag h = Some t)"
  shows "\<forall>t\<in>set (case getModTag h0 of
                None \<Rightarrow> acc
              | Some modTag \<Rightarrow> if modTag \<noteq> [] then Set_add modTag acc else acc).
           t \<noteq> [] \<and> (\<exists>h. getModTag h = Some t)"
proof (cases "getModTag h0")
  case None
  then show ?thesis using assms by simp
next
  case (Some modTag)
  show ?thesis
  proof (cases "modTag = []")
    case True
    then show ?thesis using assms Some by simp
  next
    case False
    have "\<exists>h. getModTag h = Some modTag" using Some by blast
    then show ?thesis using assms Some False by (simp add: set_Set_add)
  qed
qed

lemma requiredModTags_foldl:
  assumes "\<forall>t\<in>set acc. t \<noteq> [] \<and> (\<exists>h. getModTag h = Some t)"
  shows "\<forall>t\<in>set (foldl (\<lambda>requiredModTags activityMod.
              case getModTag (plugCategoryHash activityMod) of
                None \<Rightarrow> requiredModTags
              | Some modTag \<Rightarrow>
                  if modTag \<noteq> [] then Set_add modTag requiredModTags else requiredModTags)
            acc mods). t \<noteq> [] \<and> (\<exists>h. getModTag h = Some t)"
  using assms
proof (induction mods arbitrary: acc)
  case Nil
  then show ?case by simp
next
  case (Cons a mods)
  show ?case
    unfolding foldl_Cons
    by (rule Cons.IH, rule requiredModTags_step, rule Cons.prems)
qed

lemma requiredModTags_of_spec:
  assumes "t \<in> set (requiredModTags_of getModTag mods)"
  shows "t \<noteq> [] \<and> (\<exists>h. getModTag h = Some t)"
  using requiredModTags_foldl [of "[]" getModTag mods] assms
  by (simp add: requiredModTags_of_def)

lemma relevantModSeasons_required:
  "set (relevantModSeasons (cacheEntry rc req m)) \<subseteq> set req"
  by (cases "compatibleModSeasons (processItem m)")
     (auto simp: relevantModSeasons_cacheEntry relevantTags_def)

lemma processBucket_total:
  assumes "set bucket \<subseteq> set (mapItems f r ms ds)"
  shows "\<exists>gs. processBucket (buildCache rc req (mapItems f r ms ds)) getTag bucket = Some gs"
proof -
  from processBucket_spec [OF assms, of rc req getTag]
  obtain keepSet where "\<exists>res.
           pruneLoop (buildCache rc req (mapItems f r ms ds)) bucket [] = Some keepSet
           \<and> (\<forall>x\<in>set keepSet. \<forall>y\<in>set keepSet. \<not> better rc req x y)
           \<and> set keepSet = {x \<in> set bucket. \<forall>y\<in>set bucket. \<not> better rc req y x}
           \<and> groupBy (\<lambda>m. finalGroupingFn (buildCache rc req (mapItems f r ms ds)) (dimItem m)) keepSet
               = Some res
           \<and> mset (concat (map snd res)) = mset keepSet
           \<and> distinct (map fst res)
           \<and> (\<forall>(k, g)\<in>set res. g \<noteq> []
                 \<and> (\<forall>y\<in>set g. finalGroupingFn (buildCache rc req (mapItems f r ms ds)) (dimItem y) = Some k))
           \<and> length res \<le> length keepSet
           \<and> processBucket (buildCache rc req (mapItems f r ms ds)) getTag bucket
               = Some (map (groupOf getTag) (map snd res))" ..
  then obtain res where B: "
           pruneLoop (buildCache rc req (mapItems f r ms ds)) bucket [] = Some keepSet
           \<and> (\<forall>x\<in>set keepSet. \<forall>y\<in>set keepSet. \<not> better rc req x y)
           \<and> set keepSet = {x \<in> set bucket. \<forall>y\<in>set bucket. \<not> better rc req y x}
           \<and> groupBy (\<lambda>m. finalGroupingFn (buildCache rc req (mapItems f r ms ds)) (dimItem m)) keepSet
               = Some res
           \<and> mset (concat (map snd res)) = mset keepSet
           \<and> distinct (map fst res)
           \<and> (\<forall>(k, g)\<in>set res. g \<noteq> []
                 \<and> (\<forall>y\<in>set g. finalGroupingFn (buildCache rc req (mapItems f r ms ds)) (dimItem y) = Some k))
           \<and> length res \<le> length keepSet
           \<and> processBucket (buildCache rc req (mapItems f r ms ds)) getTag bucket
               = Some (map (groupOf getTag) (map snd res))" ..
  have "processBucket (buildCache rc req (mapItems f r ms ds)) getTag bucket
       = Some (map (groupOf getTag) (map snd res))"
    using B by (elim conjE)
  then show ?thesis ..
qed

text \<open>
  Every group of a bucket is built from a non-empty list of kept items that share one
  final grouping key.
\<close>

lemma processBucket_groups:
  assumes sub: "set bucket \<subseteq> set (mapItems f r ms ds)"
      and pb: "processBucket (buildCache rc req (mapItems f r ms ds)) getTag bucket = Some gs"
      and g: "g \<in> set gs"
  shows "\<exists>grp k. g = groupOf getTag grp \<and> grp \<noteq> []
           \<and> set grp \<subseteq> {x \<in> set bucket. \<forall>y\<in>set bucket. \<not> better rc req y x}
           \<and> (\<forall>y\<in>set grp.
                 finalGroupingFn (buildCache rc req (mapItems f r ms ds)) (dimItem y) = Some k)"
proof -
  let ?C = "buildCache rc req (mapItems f r ms ds)"
  from processBucket_spec [OF sub, of rc req getTag]
  obtain keepSet where "\<exists>res.
           pruneLoop ?C bucket [] = Some keepSet
           \<and> (\<forall>x\<in>set keepSet. \<forall>y\<in>set keepSet. \<not> better rc req x y)
           \<and> set keepSet = {x \<in> set bucket. \<forall>y\<in>set bucket. \<not> better rc req y x}
           \<and> groupBy (\<lambda>m. finalGroupingFn ?C (dimItem m)) keepSet = Some res
           \<and> mset (concat (map snd res)) = mset keepSet
           \<and> distinct (map fst res)
           \<and> (\<forall>(k, g)\<in>set res. g \<noteq> []
                 \<and> (\<forall>y\<in>set g. finalGroupingFn ?C (dimItem y) = Some k))
           \<and> length res \<le> length keepSet
           \<and> processBucket ?C getTag bucket = Some (map (groupOf getTag) (map snd res))" ..
  then obtain res where B: "
           pruneLoop ?C bucket [] = Some keepSet
           \<and> (\<forall>x\<in>set keepSet. \<forall>y\<in>set keepSet. \<not> better rc req x y)
           \<and> set keepSet = {x \<in> set bucket. \<forall>y\<in>set bucket. \<not> better rc req y x}
           \<and> groupBy (\<lambda>m. finalGroupingFn ?C (dimItem m)) keepSet = Some res
           \<and> mset (concat (map snd res)) = mset keepSet
           \<and> distinct (map fst res)
           \<and> (\<forall>(k, g)\<in>set res. g \<noteq> []
                 \<and> (\<forall>y\<in>set g. finalGroupingFn ?C (dimItem y) = Some k))
           \<and> length res \<le> length keepSet
           \<and> processBucket ?C getTag bucket = Some (map (groupOf getTag) (map snd res))" ..
  have mx: "set keepSet = {x \<in> set bucket. \<forall>y\<in>set bucket. \<not> better rc req y x}"
    using B by (elim conjE)
  have ms: "mset (concat (map snd res)) = mset keepSet"
    using B by (elim conjE)
  have k: "\<forall>(k, g)\<in>set res. g \<noteq> []
                 \<and> (\<forall>y\<in>set g. finalGroupingFn ?C (dimItem y) = Some k)"
    using B by (elim conjE)
  have pb': "processBucket ?C getTag bucket = Some (map (groupOf getTag) (map snd res))"
    using B by (elim conjE)
  have "g \<in> set (map (groupOf getTag) (map snd res))" using pb pb' g by simp
  then obtain k' grp where kg: "(k', grp) \<in> set res" and geq: "g = groupOf getTag grp"
    by auto
  have "set grp \<subseteq> set (concat (map snd res))" using kg by force
  also have "\<dots> = set keepSet" using ms by (rule mset_eq_setD)
  finally have 1: "set grp \<subseteq> {x \<in> set bucket. \<forall>y\<in>set bucket. \<not> better rc req y x}"
    using mx by simp
  have "case (k', grp) of (k, g) \<Rightarrow> g \<noteq> []
           \<and> (\<forall>y\<in>set g. finalGroupingFn ?C (dimItem y) = Some k)"
    using k kg by (rule bspec)
  then have 2: "grp \<noteq> []" and 3: "\<forall>y\<in>set grp. finalGroupingFn ?C (dimItem y) = Some k'"
    by simp_all
  show ?thesis
  proof (intro exI conjI)
    show "g = groupOf getTag grp" by (rule geq)
    show "grp \<noteq> []" by (rule 2)
    show "set grp \<subseteq> {x \<in> set bucket. \<forall>y\<in>set bucket. \<not> better rc req y x}" by (rule 1)
    show "\<forall>y\<in>set grp. finalGroupingFn ?C (dimItem y) = Some k'" by (rule 3)
  qed
qed

lemma processBuckets_spec:
  assumes "\<forall>b\<in>set bs. set b \<subseteq> set (mapItems f r ms ds)"
  shows "\<exists>groups.
           processBuckets (buildCache rc req (mapItems f r ms ds)) getTag bs = Some groups
           \<and> (\<forall>g\<in>set groups. \<exists>b\<in>set bs. \<exists>gs.
                 processBucket (buildCache rc req (mapItems f r ms ds)) getTag b = Some gs
                 \<and> g \<in> set gs)"
  using assms
proof (induction bs)
  case Nil
  then show ?case by simp
next
  case (Cons b bs)
  let ?C = "buildCache rc req (mapItems f r ms ds)"
  have "set b \<subseteq> set (mapItems f r ms ds)" using Cons.prems by simp
  from processBucket_total [OF this, of rc req getTag]
  obtain gs where gs: "processBucket ?C getTag b = Some gs" ..
  have "\<forall>b\<in>set bs. set b \<subseteq> set (mapItems f r ms ds)" using Cons.prems by simp
  from Cons.IH [OF this]
  obtain groups where gm: "processBuckets ?C getTag bs = Some groups
      \<and> (\<forall>g\<in>set groups. \<exists>b\<in>set bs. \<exists>gs. processBucket ?C getTag b = Some gs \<and> g \<in> set gs)" ..
  then have g: "processBuckets ?C getTag bs = Some groups"
    and m: "\<forall>g\<in>set groups. \<exists>b\<in>set bs. \<exists>gs. processBucket ?C getTag b = Some gs \<and> g \<in> set gs"
    by simp_all
  show ?case
  proof (intro exI conjI)
    show "processBuckets ?C getTag (b # bs) = Some (gs @ groups)"
      using gs g by simp
    show "\<forall>g\<in>set (gs @ groups). \<exists>b\<in>set (b # bs). \<exists>gs.
            processBucket ?C getTag b = Some gs \<and> g \<in> set gs"
    proof
      fix x assume "x \<in> set (gs @ groups)"
      then consider "x \<in> set gs" | "x \<in> set groups" by auto
      then show "\<exists>b\<in>set (b # bs). \<exists>gs. processBucket ?C getTag b = Some gs \<and> x \<in> set gs"
      proof cases
        case 1
        then show ?thesis using gs by auto
      next
        case 2
        then obtain b' gs' where "b' \<in> set bs" "processBucket ?C getTag b' = Some gs'" "x \<in> set gs'"
          using m by blast
        then show ?thesis by auto
      qed
    qed
  qed
qed

text \<open>
  Every group that \<^verbatim>\<open>mapItemsToGroups\<close> returns is built from a non-empty list of kept
  items of one first-pass bucket that share one final grouping key.
\<close>

lemma mapItemsToGroups_spec:
  "\<exists>groups.
     mapItemsToGroups f getModTag ds rc r mods ms getTag = Some groups
     \<and> (\<forall>g\<in>set groups. \<exists>bucket grp k.
           bucket \<in> set (energyGroups_of (mapItems f r ms ds))
           \<and> g = groupOf getTag grp \<and> grp \<noteq> []
           \<and> set grp \<subseteq> {x \<in> set bucket. \<forall>y\<in>set bucket.
                 \<not> better rc (requiredModTags_of getModTag mods) y x}
           \<and> (\<forall>y\<in>set grp.
                 finalGroupingFn (buildCache rc (requiredModTags_of getModTag mods) (mapItems f r ms ds))
                   (dimItem y) = Some k))"
proof -
  let ?req = "requiredModTags_of getModTag mods"
  let ?M = "mapItems f r ms ds"
  let ?C = "buildCache rc ?req ?M"
  have sub: "\<forall>b\<in>set (energyGroups_of ?M). set b \<subseteq> set ?M"
  proof
    fix b assume "b \<in> set (energyGroups_of ?M)"
    then show "set b \<subseteq> set ?M" by (rule energyGroups_of_spec(1))
  qed
  from processBuckets_spec [OF sub, of rc ?req getTag]
  obtain groups where
    gm: "processBuckets ?C getTag (energyGroups_of ?M) = Some groups
         \<and> (\<forall>g\<in>set groups. \<exists>b\<in>set (energyGroups_of ?M). \<exists>gs.
              processBucket ?C getTag b = Some gs \<and> g \<in> set gs)" ..
  have g: "processBuckets ?C getTag (energyGroups_of ?M) = Some groups"
    using gm by (rule conjunct1)
  have m: "\<forall>g\<in>set groups. \<exists>b\<in>set (energyGroups_of ?M). \<exists>gs.
              processBucket ?C getTag b = Some gs \<and> g \<in> set gs"
    using gm by (rule conjunct2)
  have "\<exists>bucket grp k.
           bucket \<in> set (energyGroups_of ?M)
           \<and> x = groupOf getTag grp \<and> grp \<noteq> []
           \<and> set grp \<subseteq> {x \<in> set bucket. \<forall>y\<in>set bucket. \<not> better rc ?req y x}
           \<and> (\<forall>y\<in>set grp. finalGroupingFn ?C (dimItem y) = Some k)"
    if "x \<in> set groups" for x
  proof -
    from m that have "\<exists>b\<in>set (energyGroups_of ?M). \<exists>gs.
              processBucket ?C getTag b = Some gs \<and> x \<in> set gs" by (rule bspec)
    then obtain b where b: "b \<in> set (energyGroups_of ?M)"
      and ex: "\<exists>gs. processBucket ?C getTag b = Some gs \<and> x \<in> set gs" ..
    from ex obtain gs where gx: "processBucket ?C getTag b = Some gs \<and> x \<in> set gs" ..
    then have gs: "processBucket ?C getTag b = Some gs" and xgs: "x \<in> set gs"
      by simp_all
    have bM: "set b \<subseteq> set ?M" using sub b by (rule bspec)
    from processBucket_groups [OF bM gs xgs]
    obtain grp where "\<exists>k. x = groupOf getTag grp \<and> grp \<noteq> []
           \<and> set grp \<subseteq> {x \<in> set b. \<forall>y\<in>set b. \<not> better rc ?req y x}
           \<and> (\<forall>y\<in>set grp. finalGroupingFn ?C (dimItem y) = Some k)" ..
    then obtain k where "x = groupOf getTag grp \<and> grp \<noteq> []
           \<and> set grp \<subseteq> {x \<in> set b. \<forall>y\<in>set b. \<not> better rc ?req y x}
           \<and> (\<forall>y\<in>set grp. finalGroupingFn ?C (dimItem y) = Some k)" ..
    with b have "b \<in> set (energyGroups_of ?M) \<and> x = groupOf getTag grp \<and> grp \<noteq> []
           \<and> set grp \<subseteq> {x \<in> set b. \<forall>y\<in>set b. \<not> better rc ?req y x}
           \<and> (\<forall>y\<in>set grp. finalGroupingFn ?C (dimItem y) = Some k)" by (rule conjI)
    then show ?thesis by (intro exI)
  qed
  then have all: "\<forall>x\<in>set groups. \<exists>bucket grp k.
           bucket \<in> set (energyGroups_of ?M)
           \<and> x = groupOf getTag grp \<and> grp \<noteq> []
           \<and> set grp \<subseteq> {x \<in> set bucket. \<forall>y\<in>set bucket. \<not> better rc ?req y x}
           \<and> (\<forall>y\<in>set grp. finalGroupingFn ?C (dimItem y) = Some k)" ..
  have "mapItemsToGroups f getModTag ds rc r mods ms getTag = Some groups"
    using g by (simp add: mapItemsToGroups_def Let_def)
  then show ?thesis using all by (intro exI conjI)
qed

lemma bucket_member_mapped:
  assumes "bucket \<in> set (energyGroups_of (mapItems f r ms ds))" and "m \<in> set bucket"
  shows "m \<in> set (mapItems f r ms ds)" and "processItem m = f r ms (dimItem m)"
proof -
  have "set bucket \<subseteq> set (mapItems f r ms ds)"
    using assms(1) by (rule energyGroups_of_spec(1))
  then show 1: "m \<in> set (mapItems f r ms ds)" using assms(2) by blast
  have "m = \<lparr> dimItem = dimItem m, processItem = f r ms (dimItem m) \<rparr>"
    using 1 by (simp add: mapItems_member)
  then show "processItem m = f r ms (dimItem m)"
    by (metis MappedItem.select_convs(2))
qed

text \<open>
  Claim C9.  \<^verbatim>\<open>mapItemsToGroups\<close> returns, and any two members of one of its groups are
  both exotic or both not, and two exotic members have the same item hash.
\<close>

theorem groups_separate_exotics:
  "\<exists>groups.
     mapItemsToGroups f getModTag ds rc r mods ms getTag = Some groups
     \<and> (\<forall>g\<in>set groups. \<forall>d1\<in>set (items g). \<forall>d2\<in>set (items g).
           isExotic (f r ms d1) = isExotic (f r ms d2)
           \<and> (isExotic (f r ms d1) \<longrightarrow> hash (f r ms d1) = hash (f r ms d2)))"
proof -
  let ?req = "requiredModTags_of getModTag mods"
  let ?M = "mapItems f r ms ds"
  let ?C = "buildCache rc ?req ?M"
  from mapItemsToGroups_spec [of f getModTag ds rc r mods ms getTag]
  obtain groups where gm: "mapItemsToGroups f getModTag ds rc r mods ms getTag = Some groups
     \<and> (\<forall>g\<in>set groups. \<exists>bucket grp k.
           bucket \<in> set (energyGroups_of ?M)
           \<and> g = groupOf getTag grp \<and> grp \<noteq> []
           \<and> set grp \<subseteq> {x \<in> set bucket. \<forall>y\<in>set bucket. \<not> better rc ?req y x}
           \<and> (\<forall>y\<in>set grp. finalGroupingFn ?C (dimItem y) = Some k))" ..
  have res: "mapItemsToGroups f getModTag ds rc r mods ms getTag = Some groups"
    using gm by (rule conjunct1)
  have "isExotic (f r ms d1) = isExotic (f r ms d2)
           \<and> (isExotic (f r ms d1) \<longrightarrow> hash (f r ms d1) = hash (f r ms d2))"
    if g: "g \<in> set groups" and d1: "d1 \<in> set (items g)" and d2: "d2 \<in> set (items g)" for g d1 d2
  proof -
    from gm g obtain bucket grp where b: "bucket \<in> set (energyGroups_of ?M)"
      and geq: "g = groupOf getTag grp"
      and sub: "set grp \<subseteq> {x \<in> set bucket. \<forall>y\<in>set bucket. \<not> better rc ?req y x}"
      by blast
    obtain m1 m2 where m1: "m1 \<in> set grp" "dimItem m1 = d1" and m2: "m2 \<in> set grp" "dimItem m2 = d2"
      using d1 d2 unfolding geq set_items_groupOf by blast
    have mb: "m1 \<in> set bucket" "m2 \<in> set bucket" using m1(1) m2(1) sub by auto
    have p: "processItem m1 = f r ms d1" "processItem m2 = f r ms d2"
      using bucket_member_mapped(2) [OF b mb(1)] bucket_member_mapped(2) [OF b mb(2)] m1(2) m2(2)
      by simp_all
    have "firstPassGroupingFn (processItem m1) = firstPassGroupingFn (processItem m2)"
      using energyGroups_of_spec(2) [OF b] mb by blast
    then show ?thesis
      unfolding p by (rule firstPassGroupingFn_inj)
  qed
  then show ?thesis using res by blast
qed

text \<open>
  Claim C1.  \<^verbatim>\<open>mapItemsToGroups\<close> returns, and any two members of one of its groups have
  the same constrained stats (in the order of the constraints), the same remaining energy
  capacity, the same relevant mod tags and the same artifice flag.  The tags come from
  \<^verbatim>\<open>getModTypeTagByPlugCategoryHash\<close>, whose table is not among the sources; the key
  joins them with commas, and the theorem assumes that no tag of the table contains one.
\<close>

theorem group_members_interchangeable:
  assumes comma: "\<forall>h t. getModTag h = Some t \<longrightarrow> CHR '','' \<notin> set t"
  shows "\<exists>groups.
     mapItemsToGroups f getModTag ds rc r mods ms getTag = Some groups
     \<and> (\<forall>g\<in>set groups. \<forall>d1\<in>set (items g). \<forall>d2\<in>set (items g).
           map (\<lambda>c. stats (f r ms d1) (statHash c)) rc = map (\<lambda>c. stats (f r ms d2) (statHash c)) rc
           \<and> remainingEnergyCapacity (f r ms d1) = remainingEnergyCapacity (f r ms d2)
           \<and> relevantTags (requiredModTags_of getModTag mods) (f r ms d1)
               = relevantTags (requiredModTags_of getModTag mods) (f r ms d2)
           \<and> isArtifice (f r ms d1) = isArtifice (f r ms d2))"
proof -
  let ?req = "requiredModTags_of getModTag mods"
  let ?M = "mapItems f r ms ds"
  let ?C = "buildCache rc ?req ?M"
  from mapItemsToGroups_spec [of f getModTag ds rc r mods ms getTag]
  obtain groups where gm: "mapItemsToGroups f getModTag ds rc r mods ms getTag = Some groups
     \<and> (\<forall>g\<in>set groups. \<exists>bucket grp k.
           bucket \<in> set (energyGroups_of ?M)
           \<and> g = groupOf getTag grp \<and> grp \<noteq> []
           \<and> set grp \<subseteq> {x \<in> set bucket. \<forall>y\<in>set bucket. \<not> better rc ?req y x}
           \<and> (\<forall>y\<in>set grp. finalGroupingFn ?C (dimItem y) = Some k))" ..
  have res: "mapItemsToGroups f getModTag ds rc r mods ms getTag = Some groups"
    using gm by (rule conjunct1)
  have tags_ok: "\<forall>t\<in>set (relevantModSeasons (cacheEntry rc ?req m)). t \<noteq> [] \<and> CHR '','' \<notin> set t" for m
  proof
    fix t assume "t \<in> set (relevantModSeasons (cacheEntry rc ?req m))"
    then have "t \<in> set ?req" using relevantModSeasons_required by blast
    then have "t \<noteq> [] \<and> (\<exists>h. getModTag h = Some t)" by (rule requiredModTags_of_spec)
    then show "t \<noteq> [] \<and> CHR '','' \<notin> set t" using comma by blast
  qed
  have "map (\<lambda>c. stats (f r ms d1) (statHash c)) rc = map (\<lambda>c. stats (f r ms d2) (statHash c)) rc
           \<and> remainingEnergyCapacity (f r ms d1) = remainingEnergyCapacity (f r ms d2)
           \<and> relevantTags ?req (f r ms d1) = relevantTags ?req (f r ms d2)
           \<and> isArtifice (f r ms d1) = isArtifice (f r ms d2)"
    if g: "g \<in> set groups" and d1: "d1 \<in> set (items g)" and d2: "d2 \<in> set (items g)" for g d1 d2
  proof -
    from gm g obtain bucket grp k where b: "bucket \<in> set (energyGroups_of ?M)"
      and geq: "g = groupOf getTag grp"
      and sub: "set grp \<subseteq> {x \<in> set bucket. \<forall>y\<in>set bucket. \<not> better rc ?req y x}"
      and key: "\<forall>y\<in>set grp. finalGroupingFn ?C (dimItem y) = Some k"
      by blast
    obtain m1 m2 where m1: "m1 \<in> set grp" "dimItem m1 = d1" and m2: "m2 \<in> set grp" "dimItem m2 = d2"
      using d1 d2 unfolding geq set_items_groupOf by blast
    have mb: "m1 \<in> set bucket" "m2 \<in> set bucket" using m1(1) m2(1) sub by auto
    have mM: "m1 \<in> set ?M" "m2 \<in> set ?M"
      using bucket_member_mapped(1) [OF b mb(1)] bucket_member_mapped(1) [OF b mb(2)] by simp_all
    have p: "processItem m1 = f r ms d1" "processItem m2 = f r ms d2"
      using bucket_member_mapped(2) [OF b mb(1)] bucket_member_mapped(2) [OF b mb(2)] m1(2) m2(2)
      by simp_all
    let ?e1 = "cacheEntry rc ?req m1" and ?e2 = "cacheEntry rc ?req m2"
    have "finalGroupingFn ?C (dimItem m1) = finalGroupingFn ?C (dimItem m2)"
      using key m1(1) m2(1) by simp
    then have keq: "Array_toString (stats_c ?e1) @ ''-'' @ Number_toString (energyCapacity_c ?e1)
                      @ ''-'' @ join_comma (relevantModSeasons ?e1)
                    = Array_toString (stats_c ?e2) @ ''-'' @ Number_toString (energyCapacity_c ?e2)
                      @ ''-'' @ join_comma (relevantModSeasons ?e2)"
      unfolding finalGroupingFn_lookup [OF mM(1)] finalGroupingFn_lookup [OF mM(2)] by simp
    have len: "length (stats_c ?e1) = length (stats_c ?e2)"
      by (simp add: cacheEntry_def)
    have eqs: "stats_c ?e1 = stats_c ?e2 \<and> energyCapacity_c ?e1 = energyCapacity_c ?e2
               \<and> relevantModSeasons ?e1 = relevantModSeasons ?e2"
      using len tags_ok [of m1] tags_ok [of m2] keq by (rule final_key_inj)
    have st: "map (\<lambda>c. stats (f r ms d1) (statHash c)) rc = map (\<lambda>c. stats (f r ms d2) (statHash c)) rc"
      using eqs by (simp add: cacheEntry_def p)
    have en: "remainingEnergyCapacity (f r ms d1) = remainingEnergyCapacity (f r ms d2)"
      using eqs by (simp add: cacheEntry_def p)
    have "set (relevantModSeasons ?e1) = set (relevantModSeasons ?e2)" using eqs by simp
    then have tg: "relevantTags ?req (f r ms d1) = relevantTags ?req (f r ms d2)"
      by (simp add: relevantModSeasons_cacheEntry p)
    have st': "\<forall>c\<in>set rc. stats (f r ms d1) (statHash c) = stats (f r ms d2) (statHash c)"
      using st by simp
    have nb: "\<not> better rc ?req m1 m2" "\<not> better rc ?req m2 m1"
      using sub m1(1) m2(1) mb by blast+
    have ar: "isArtifice (f r ms d1) = isArtifice (f r ms d2)"
    proof (rule ccontr)
      assume "isArtifice (f r ms d1) \<noteq> isArtifice (f r ms d2)"
      then consider "isArtifice (f r ms d1)" "\<not> isArtifice (f r ms d2)"
        | "isArtifice (f r ms d2)" "\<not> isArtifice (f r ms d1)" by blast
      then show False
      proof cases
        case 1
        then have "dominates rc ?req (f r ms d1) (f r ms d2)"
          using st' en tg by (simp add: dominates_def)
        then show False using nb(1) by (simp add: better_dominates p)
      next
        case 2
        then have "dominates rc ?req (f r ms d2) (f r ms d1)"
          using st' en tg by (simp add: dominates_def)
        then show False using nb(2) by (simp add: better_dominates p)
      qed
    qed
    show ?thesis using st en tg ar by (intro conjI)
  qed
  then show ?thesis using res by blast
qed

section \<open>The example, evaluated\<close>

lemma firstPassGroupingFn_iff:
  "firstPassGroupingFn p = firstPassGroupingFn q
   \<longleftrightarrow> isExotic p = isExotic q \<and> (isExotic p \<longrightarrow> hash p = hash q)"
proof
  assume "firstPassGroupingFn p = firstPassGroupingFn q"
  then show "isExotic p = isExotic q \<and> (isExotic p \<longrightarrow> hash p = hash q)"
    by (rule firstPassGroupingFn_inj)
next
  assume "isExotic p = isExotic q \<and> (isExotic p \<longrightarrow> hash p = hash q)"
  then show "firstPassGroupingFn p = firstPassGroupingFn q"
    by (auto simp: firstPassGroupingFn_def)
qed

lemma ex_armor_mapped:
  "mapItems ex_mapper () () ex_armor
   = [ex_m (ex_item ''H3'' True 1805), ex_m (ex_item ''H2'' False 1810),
      ex_m (ex_item ''X'' True 1810), ex_m (ex_item ''H1'' True 1810)]"
  by (simp add: mapItems_def ex_armor_def ex_m_def)

lemma ex_m_sel: "dimItem (ex_m d) = d" "processItem (ex_m d) = ex_mapper () () d"
  by (simp_all add: ex_m_def)

lemma ex_mapper_exotic:
  "isExotic (ex_mapper () () (ex_item n ow p)) = (n = ''X'')"
  "hash (ex_mapper () () (ex_item n ow p)) = (if n = ''X'' then 2001 else 1001)"
  by (simp_all add: ex_mapper_def ex_item_def)

lemma ex_energyGroups:
  "energyGroups_of (mapItems ex_mapper () () ex_armor)
   = [[ex_m (ex_item ''H3'' True 1805), ex_m (ex_item ''H2'' False 1810), ex_m (ex_item ''H1'' True 1810)],
      [ex_m (ex_item ''X'' True 1810)]]"
  by (simp add: ex_armor_mapped energyGroups_of_def groupBy_def firstPassGroupingFn_iff
        ex_m_sel ex_mapper_exotic)

lemma ex_m_better:
  "better ex_constraints req (ex_m (ex_item n ow p)) (ex_m (ex_item n' ow' p'))
   \<longleftrightarrow> p' \<le> p \<and> (n' = ''R'' \<longrightarrow> n = ''R'') \<and> (p' < p \<or> (n = ''R'' \<and> n' \<noteq> ''R''))"
  unfolding ex_m_def by (rule ex_better)

lemma ex_isStrictlyBetter:
  assumes "x \<in> set (mapItems ex_mapper () () ex_armor)"
      and "y \<in> set (mapItems ex_mapper () () ex_armor)"
  shows "isStrictlyBetter (buildCache ex_constraints req (mapItems ex_mapper () () ex_armor)) x y
         = Some (better ex_constraints req x y)"
  using assms by (rule isStrictlyBetter_better)

lemma ex_prune_legendary:
  "pruneLoop (buildCache ex_constraints req (mapItems ex_mapper () () ex_armor))
     [ex_m (ex_item ''H3'' True 1805), ex_m (ex_item ''H2'' False 1810), ex_m (ex_item ''H1'' True 1810)] []
   = Some [ex_m (ex_item ''H2'' False 1810), ex_m (ex_item ''H1'' True 1810)]"
  by (simp add: ex_isStrictlyBetter [unfolded ex_armor_mapped] ex_armor_mapped nth_opt_def
        ex_m_better splice1_def)

lemma ex_prune_exotic:
  "pruneLoop (buildCache ex_constraints req (mapItems ex_mapper () () ex_armor))
     [ex_m (ex_item ''X'' True 1810)] []
   = Some [ex_m (ex_item ''X'' True 1810)]"
  by simp

lemma ex_cacheEntry:
  "cacheEntry ex_constraints req (ex_m (ex_item n ow p))
   = \<lparr> stats_c = [p - 1800, 10], energyCapacity_c = 10,
       relevantModSeasons =
         new_Set (sort (filter (\<lambda>season. season \<in> set req) [''vaultofglass'', ''deepstonecrypt''])),
       isArtifice_c = (n = ''R'') \<rparr>"
  by (simp add: cacheEntry_def ex_constraints_def ex_m_def ex_mapper_def ex_item_def)

lemma ex_finalGroupingFn:
  assumes "ex_m d \<in> set (mapItems ex_mapper () () ex_armor)"
  shows "finalGroupingFn (buildCache ex_constraints req (mapItems ex_mapper () () ex_armor)) d
         = Some (Array_toString (stats_c (cacheEntry ex_constraints req (ex_m d))) @ ''-''
                 @ Number_toString (energyCapacity_c (cacheEntry ex_constraints req (ex_m d))) @ ''-''
                 @ join_comma (relevantModSeasons (cacheEntry ex_constraints req (ex_m d))))"
  using finalGroupingFn_lookup [OF assms, of ex_constraints req] by (simp add: ex_m_sel)

lemma ex_sort:
  "Array_sort (groupComparator None) [ex_m (ex_item ''H2'' False 1810), ex_m (ex_item ''H1'' True 1810)]
   = [ex_m (ex_item ''H1'' True 1810), ex_m (ex_item ''H2'' False 1810)]"
  by (simp add: Array_sort_def groupComparator_def compareBy_def ex_m_def ex_item_def
        energyCapacity_or_0_def not_favorite_def)

lemma ex_processBucket_legendary:
  "processBucket (buildCache ex_constraints req (mapItems ex_mapper () () ex_armor)) None
     [ex_m (ex_item ''H3'' True 1805), ex_m (ex_item ''H2'' False 1810), ex_m (ex_item ''H1'' True 1810)]
   = Some [\<lparr> canonicalProcessItem = ex_mapper () () (ex_item ''H1'' True 1810),
             items = [ex_item ''H1'' True 1810, ex_item ''H2'' False 1810] \<rparr>]"
  unfolding processBucket_def ex_prune_legendary
  by (simp add: groupBy_def ex_m_sel ex_finalGroupingFn [unfolded ex_armor_mapped] ex_armor_mapped
        ex_cacheEntry makeGroup_def ex_sort)

lemma ex_processBucket_exotic:
  "processBucket (buildCache ex_constraints req (mapItems ex_mapper () () ex_armor)) None
     [ex_m (ex_item ''X'' True 1810)]
   = Some [\<lparr> canonicalProcessItem = ex_mapper () () (ex_item ''X'' True 1810),
             items = [ex_item ''X'' True 1810] \<rparr>]"
  unfolding processBucket_def ex_prune_exotic
  by (simp add: groupBy_def ex_m_sel ex_finalGroupingFn [unfolded ex_armor_mapped] ex_armor_mapped
        makeGroup_def Array_sort_def)

lemma ex_groups:
  "mapItemsToGroups ex_mapper ex_getModTag ex_armor ex_constraints () ex_mods () None
   = Some [\<lparr> canonicalProcessItem = ex_mapper () () (ex_item ''H1'' True 1810),
             items = [ex_item ''H1'' True 1810, ex_item ''H2'' False 1810] \<rparr>,
           \<lparr> canonicalProcessItem = ex_mapper () () (ex_item ''X'' True 1810),
             items = [ex_item ''X'' True 1810] \<rparr>]"
  unfolding mapItemsToGroups_def Let_def ex_energyGroups
  by (simp add: ex_processBucket_legendary ex_processBucket_exotic)

theorem groups_separate_exotics_witness:
  "\<exists>groups.
     mapItemsToGroups ex_mapper ex_getModTag ex_armor ex_constraints () ex_mods () None = Some groups
     \<and> groups = [\<lparr> canonicalProcessItem = ex_mapper () () (ex_item ''H1'' True 1810),
                    items = [ex_item ''H1'' True 1810, ex_item ''H2'' False 1810] \<rparr>,
                  \<lparr> canonicalProcessItem = ex_mapper () () (ex_item ''X'' True 1810),
                    items = [ex_item ''X'' True 1810] \<rparr>]
     \<and> (\<forall>g\<in>set groups. \<forall>d1\<in>set (items g). \<forall>d2\<in>set (items g).
           isExotic (ex_mapper () () d1) = isExotic (ex_mapper () () d2)
           \<and> (isExotic (ex_mapper () () d1) \<longrightarrow> hash (ex_mapper () () d1) = hash (ex_mapper () () d2)))"
proof -
  from groups_separate_exotics [of ex_mapper ex_getModTag ex_armor ex_constraints "()" ex_mods "()" None]
  obtain groups where A:
    "mapItemsToGroups ex_mapper ex_getModTag ex_armor ex_constraints () ex_mods () None = Some groups
     \<and> (\<forall>g\<in>set groups. \<forall>d1\<in>set (items g). \<forall>d2\<in>set (items g).
           isExotic (ex_mapper () () d1) = isExotic (ex_mapper () () d2)
           \<and> (isExotic (ex_mapper () () d1) \<longrightarrow> hash (ex_mapper () () d1) = hash (ex_mapper () () d2)))" ..
  have "Some groups = Some [\<lparr> canonicalProcessItem = ex_mapper () () (ex_item ''H1'' True 1810),
                    items = [ex_item ''H1'' True 1810, ex_item ''H2'' False 1810] \<rparr>,
                  \<lparr> canonicalProcessItem = ex_mapper () () (ex_item ''X'' True 1810),
                    items = [ex_item ''X'' True 1810] \<rparr>]"
    using A ex_groups by (elim conjE) (rule trans [OF sym])
  then have "groups = [\<lparr> canonicalProcessItem = ex_mapper () () (ex_item ''H1'' True 1810),
                    items = [ex_item ''H1'' True 1810, ex_item ''H2'' False 1810] \<rparr>,
                  \<lparr> canonicalProcessItem = ex_mapper () () (ex_item ''X'' True 1810),
                    items = [ex_item ''X'' True 1810] \<rparr>]"
    by (simp only: option.inject)
  with A show ?thesis by (intro exI [of _ groups]) (elim conjE, intro conjI)
qed

theorem group_members_interchangeable_witness:
  "\<exists>groups.
     mapItemsToGroups ex_mapper ex_getModTag ex_armor ex_constraints () ex_mods () None = Some groups
     \<and> groups = [\<lparr> canonicalProcessItem = ex_mapper () () (ex_item ''H1'' True 1810),
                    items = [ex_item ''H1'' True 1810, ex_item ''H2'' False 1810] \<rparr>,
                  \<lparr> canonicalProcessItem = ex_mapper () () (ex_item ''X'' True 1810),
                    items = [ex_item ''X'' True 1810] \<rparr>]
     \<and> (\<forall>g\<in>set groups. \<forall>d1\<in>set (items g). \<forall>d2\<in>set (items g).
           map (\<lambda>c. stats (ex_mapper () () d1) (statHash c)) ex_constraints
             = map (\<lambda>c. stats (ex_mapper () () d2) (statHash c)) ex_constraints
           \<and> remainingEnergyCapacity (ex_mapper () () d1) = remainingEnergyCapacity (ex_mapper () () d2)
           \<and> relevantTags (requiredModTags_of ex_getModTag ex_mods) (ex_mapper () () d1)
               = relevantTags (requiredModTags_of ex_getModTag ex_mods) (ex_mapper () () d2)
           \<and> isArtifice (ex_mapper () () d1) = isArtifice (ex_mapper () () d2))"
proof -
  have h: "\<forall>h t. ex_getModTag h = Some t \<longrightarrow> CHR '','' \<notin> set t"
    by (simp add: ex_getModTag_def)
  from group_members_interchangeable [OF h, of ex_mapper ex_armor ex_constraints "()" ex_mods "()" None]
  obtain groups where A:
    "mapItemsToGroups ex_mapper ex_getModTag ex_armor ex_constraints () ex_mods () None = Some groups
     \<and> (\<forall>g\<in>set groups. \<forall>d1\<in>set (items g). \<forall>d2\<in>set (items g).
           map (\<lambda>c. stats (ex_mapper () () d1) (statHash c)) ex_constraints
             = map (\<lambda>c. stats (ex_mapper () () d2) (statHash c)) ex_constraints
           \<and> remainingEnergyCapacity (ex_mapper () () d1) = remainingEnergyCapacity (ex_mapper () () d2)
           \<and> relevantTags (requiredModTags_of ex_getModTag ex_mods) (ex_mapper () () d1)
               = relevantTags (requiredModTags_of ex_getModTag ex_mods) (ex_mapper () () d2)
           \<and> isArtifice (ex_mapper () () d1) = isArtifice (ex_mapper () () d2))" ..
  have "Some groups = Some [\<lparr> canonicalProcessItem = ex_mapper () () (ex_item ''H1'' True 1810),
                    items = [ex_item ''H1'' True 1810, ex_item ''H2'' False 1810] \<rparr>,
                  \<lparr> canonicalProcessItem = ex_mapper () () (ex_item ''X'' True 1810),
                    items = [ex_item ''X'' True 1810] \<rparr>]"
    using A ex_groups by (elim conjE) (rule trans [OF sym])
  then have "groups = [\<lparr> canonicalProcessItem = ex_mapper () () (ex_item ''H1'' True 1810),
                    items = [ex_item ''H1'' True 1810, ex_item ''H2'' False 1810] \<rparr>,
                  \<lparr> canonicalProcessItem = ex_mapper () () (ex_item ''X'' True 1810),
                    items = [ex_item ''X'' True 1810] \<rparr>]"
    by (simp only: option.inject)
  with A show "\<exists>groups.
     mapItemsToGroups ex_mapper ex_getModTag ex_armor ex_constraints () ex_mods () None = Some groups
     \<and> groups = [\<lparr> canonicalProcessItem = ex_mapper () () (ex_item ''H1'' True 1810),
                    items = [ex_item ''H1'' True 1810, ex_item ''H2'' False 1810] \<rparr>,
                  \<lparr> canonicalProcessItem = ex_mapper () () (ex_item ''X'' True 1810),
                    items = [ex_item ''X'' True 1810] \<rparr>]
     \<and> (\<forall>g\<in>set groups. \<forall>d1\<in>set (items g). \<forall>d2\<in>set (items g).
           map (\<lambda>c. stats (ex_mapper () () d1) (statHash c)) ex_constraints
             = map (\<lambda>c. stats (ex_mapper () () d2) (statHash c)) ex_constraints
           \<and> remainingEnergyCapacity (ex_mapper () () d1) = remainingEnergyCapacity (ex_mapper () () d2)
           \<and> relevantTags (requiredModTags_of ex_getModTag ex_mods) (ex_mapper () () d1)
               = relevantTags (requiredModTags_of ex_getModTag ex_mods) (ex_mapper () () d2)
           \<and> isArtifice (ex_mapper () () d1) = isArtifice (ex_mapper () () d2))"
    by (intro exI [of _ groups]) (elim conjE, intro conjI)
qed

section \<open>The classes of a grouping\<close>

lemma filter_concat_classes:
  assumes "distinct (map fst res)"
      and "\<forall>(k', g)\<in>set res. \<forall>y\<in>set g. f y = Some k'"
      and "(k, grp) \<in> set res"
  shows "filter (\<lambda>x. f x = Some k) (concat (map snd res)) = grp"
  using assms
proof (induction res)
  case Nil
  then show ?case by simp
next
  case (Cons kg rest)
  obtain k1 g1 where kg: "kg = (k1, g1)" by (cases kg)
  have hom1: "\<forall>y\<in>set g1. f y = Some k1" using Cons.prems(2) kg by simp
  have homr: "\<forall>(k', g)\<in>set rest. \<forall>y\<in>set g. f y = Some k'" using Cons.prems(2) by simp
  have dr: "distinct (map fst rest)" and k1: "k1 \<notin> fst ` set rest"
    using Cons.prems(1) kg by simp_all
  show ?case
  proof (cases "(k, grp) = (k1, g1)")
    case True
    then have keq: "k = k1" and geq: "grp = g1" by simp_all
    have 1: "filter (\<lambda>x. f x = Some k) g1 = g1"
      using hom1 keq by simp
    have "\<forall>x\<in>set (concat (map snd rest)). f x \<noteq> Some k"
    proof
      fix x assume "x \<in> set (concat (map snd rest))"
      then obtain k' g' where m: "(k', g') \<in> set rest" and x: "x \<in> set g'" by auto
      have "f x = Some k'" using homr m x by blast
      moreover have "k' \<noteq> k" using m k1 keq by force
      ultimately show "f x \<noteq> Some k" by simp
    qed
    then have 2: "filter (\<lambda>x. f x = Some k) (concat (map snd rest)) = []"
      by (simp add: filter_empty_conv)
    show ?thesis using 1 2 kg geq by simp
  next
    case False
    then have mem: "(k, grp) \<in> set rest" using Cons.prems(3) kg by auto
    then have "k \<in> fst ` set rest" by force
    then have "k \<noteq> k1" using k1 by blast
    then have 1: "filter (\<lambda>x. f x = Some k) g1 = []"
      using hom1 by (simp add: filter_empty_conv)
    have 2: "filter (\<lambda>x. f x = Some k) (concat (map snd rest)) = grp"
      using dr homr mem by (rule Cons.IH)
    show ?thesis using 1 2 kg by simp
  qed
qed

lemma groupBy_classes:
  assumes "\<forall>x\<in>set xs. \<exists>k. f x = Some k"
  shows "\<exists>res. groupBy f xs = Some res
           \<and> (\<forall>(k, grp)\<in>set res. grp \<noteq> [] \<and> mset grp = mset (filter (\<lambda>x. f x = Some k) xs))
           \<and> (\<forall>x\<in>set xs. \<exists>(k, grp)\<in>set res. x \<in> set grp)"
proof -
  obtain res where
    g: "groupBy f xs = Some res"
    and m: "mset (concat (map snd res)) = mset xs"
    and d: "distinct (map fst res)"
    and k: "\<forall>(k', g)\<in>set res. g \<noteq> [] \<and> (\<forall>y\<in>set g. f y = Some k')"
    using groupBy_spec [OF assms] by blast
  have hom: "\<forall>(k', g)\<in>set res. \<forall>y\<in>set g. f y = Some k'" using k by blast
  have 1: "grp \<noteq> [] \<and> mset grp = mset (filter (\<lambda>x. f x = Some k') xs)"
    if "(k', grp) \<in> set res" for k' grp
  proof -
    have "filter (\<lambda>x. f x = Some k') (concat (map snd res)) = grp"
      using d hom that by (rule filter_concat_classes)
    then have "mset grp = filter_mset (\<lambda>x. f x = Some k') (mset (concat (map snd res)))"
      by (simp only: mset_filter [symmetric])
    also have "\<dots> = mset (filter (\<lambda>x. f x = Some k') xs)"
      by (simp only: m mset_filter)
    finally have "mset grp = mset (filter (\<lambda>x. f x = Some k') xs)" .
    moreover have "grp \<noteq> []" using k that by blast
    ultimately show ?thesis by simp
  qed
  have 2: "\<exists>(k, grp)\<in>set res. x \<in> set grp" if "x \<in> set xs" for x
  proof -
    have "set (concat (map snd res)) = set xs" using m by (rule mset_eq_setD)
    then have "x \<in> set (concat (map snd res))" using that by simp
    then show ?thesis by auto
  qed
  show ?thesis
  proof (intro exI conjI)
    show "groupBy f xs = Some res" by (rule g)
    show "\<forall>(k, grp)\<in>set res. grp \<noteq> [] \<and> mset grp = mset (filter (\<lambda>x. f x = Some k) xs)"
      using 1 by blast
    show "\<forall>x\<in>set xs. \<exists>(k, grp)\<in>set res. x \<in> set grp"
      using 2 by blast
  qed
qed

text \<open>
  A first-pass bucket holds exactly the mapped items with its key, and every mapped item
  is in a bucket.
\<close>

lemma energyGroups_of_classes:
  shows "\<forall>bucket\<in>set (energyGroups_of M). \<forall>x\<in>set bucket. \<forall>y\<in>set M.
           firstPassGroupingFn (processItem y) = firstPassGroupingFn (processItem x) \<longrightarrow> y \<in> set bucket"
    and "\<forall>x\<in>set M. \<exists>bucket\<in>set (energyGroups_of M). x \<in> set bucket"
proof -
  let ?f = "\<lambda>m. Some (firstPassGroupingFn (processItem m))"
  have tot: "\<forall>x\<in>set M. \<exists>k. ?f x = Some k" by simp
  from groupBy_classes [OF tot]
  obtain res where R: "groupBy ?f M = Some res
      \<and> (\<forall>(k, grp)\<in>set res. grp \<noteq> [] \<and> mset grp = mset (filter (\<lambda>x. ?f x = Some k) M))
      \<and> (\<forall>x\<in>set M. \<exists>(k, grp)\<in>set res. x \<in> set grp)" ..
  have g: "groupBy ?f M = Some res" using R by (elim conjE)
  have c: "\<forall>(k, grp)\<in>set res. grp \<noteq> [] \<and> mset grp = mset (filter (\<lambda>x. ?f x = Some k) M)"
    using R by (elim conjE)
  have cov: "\<forall>x\<in>set M. \<exists>(k, grp)\<in>set res. x \<in> set grp" using R by (elim conjE)
  have eg: "energyGroups_of M = map snd res" using g by (simp add: energyGroups_of_def)
  show "\<forall>bucket\<in>set (energyGroups_of M). \<forall>x\<in>set bucket. \<forall>y\<in>set M.
           firstPassGroupingFn (processItem y) = firstPassGroupingFn (processItem x) \<longrightarrow> y \<in> set bucket"
  proof (intro ballI impI)
    fix bucket x y
    assume b: "bucket \<in> set (energyGroups_of M)" and x: "x \<in> set bucket" and y: "y \<in> set M"
      and eq: "firstPassGroupingFn (processItem y) = firstPassGroupingFn (processItem x)"
    obtain k where kb: "(k, bucket) \<in> set res" using b eg by auto
    have "mset bucket = mset (filter (\<lambda>x. ?f x = Some k) M)" using c kb by blast
    then have sb: "set bucket = set (filter (\<lambda>x. ?f x = Some k) M)" by (rule mset_eq_setD)
    then have "?f x = Some k" using x by simp
    then have "?f y = Some k" using eq by simp
    then show "y \<in> set bucket" using sb y by simp
  qed
  show "\<forall>x\<in>set M. \<exists>bucket\<in>set (energyGroups_of M). x \<in> set bucket"
  proof
    fix x assume "x \<in> set M"
    then obtain k grp where "(k, grp) \<in> set res" "x \<in> set grp" using cov by blast
    then show "\<exists>bucket\<in>set (energyGroups_of M). x \<in> set bucket"
      unfolding eg by force
  qed
qed

section \<open>The member list of a group\<close>

lemma processBucket_classes:
  assumes sub: "set bucket \<subseteq> set (mapItems f r ms ds)"
  shows "\<exists>keepSet gs.
           pruneLoop (buildCache rc req (mapItems f r ms ds)) bucket [] = Some keepSet
           \<and> set keepSet = {x \<in> set bucket. \<forall>y\<in>set bucket. \<not> better rc req y x}
           \<and> processBucket (buildCache rc req (mapItems f r ms ds)) getTag bucket = Some gs
           \<and> (\<forall>g\<in>set gs. \<exists>grp. grp \<noteq> [] \<and> g = groupOf getTag grp
                 \<and> mset grp
                     = mset (filter (\<lambda>m. finalGroupingFn (buildCache rc req (mapItems f r ms ds)) (dimItem m)
                                          = finalGroupingFn (buildCache rc req (mapItems f r ms ds))
                                              (dimItem (hd grp))) keepSet))
           \<and> (\<forall>m\<in>set keepSet. \<exists>g\<in>set gs. dimItem m \<in> set (items g))"
proof -
  let ?C = "buildCache rc req (mapItems f r ms ds)"
  let ?key = "\<lambda>m. finalGroupingFn ?C (dimItem m)"
  obtain R where
    R: "pruneLoop ?C bucket [] = Some R"
    and mx: "set R = {x \<in> set bucket. \<forall>y\<in>set bucket. \<not> better rc req y x}"
    using pruneLoop_maximal [OF sub, of rc req] by blast
  have RM: "set R \<subseteq> set (mapItems f r ms ds)" using mx sub by auto
  have tot: "\<forall>x\<in>set R. \<exists>k. ?key x = Some k"
  proof
    fix x assume "x \<in> set R"
    then have "x \<in> set (mapItems f r ms ds)" using RM by blast
    then show "\<exists>k. ?key x = Some k"
      using finalGroupingFn_lookup [of x f r ms ds rc req] by simp
  qed
  from groupBy_classes [OF tot]
  obtain res where B: "groupBy ?key R = Some res
      \<and> (\<forall>(k, grp)\<in>set res. grp \<noteq> [] \<and> mset grp = mset (filter (\<lambda>x. ?key x = Some k) R))
      \<and> (\<forall>x\<in>set R. \<exists>(k, grp)\<in>set res. x \<in> set grp)" ..
  have g: "groupBy ?key R = Some res" using B by (elim conjE)
  have c: "\<forall>(k, grp)\<in>set res. grp \<noteq> [] \<and> mset grp = mset (filter (\<lambda>x. ?key x = Some k) R)"
    using B by (elim conjE)
  have cov: "\<forall>x\<in>set R. \<exists>(k, grp)\<in>set res. x \<in> set grp" using B by (elim conjE)
  have ne: "\<forall>grp\<in>set (map snd res). grp \<noteq> []"
    using c by auto
  have pb: "processBucket ?C getTag bucket = Some (map (groupOf getTag) (map snd res))"
    using R g makeGroups_groupOf [OF ne, of getTag] by (simp add: processBucket_def)
  have 1: "\<exists>grp. grp \<noteq> [] \<and> x = groupOf getTag grp
             \<and> mset grp = mset (filter (\<lambda>m. ?key m = ?key (hd grp)) R)"
    if "x \<in> set (map (groupOf getTag) (map snd res))" for x
  proof -
    from that obtain k grp where kg: "(k, grp) \<in> set res" and xeq: "x = groupOf getTag grp"
      by auto
    have gne: "grp \<noteq> []" and ms: "mset grp = mset (filter (\<lambda>x. ?key x = Some k) R)"
      using c kg by blast+
    have "hd grp \<in> set grp" using gne by simp
    also have "set grp = set (filter (\<lambda>x. ?key x = Some k) R)" using ms by (rule mset_eq_setD)
    finally have "?key (hd grp) = Some k" by simp
    then have "mset grp = mset (filter (\<lambda>m. ?key m = ?key (hd grp)) R)"
      using ms by simp
    then show ?thesis using gne xeq by blast
  qed
  have 2: "\<exists>x\<in>set (map (groupOf getTag) (map snd res)). dimItem m \<in> set (items x)"
    if "m \<in> set R" for m
  proof -
    from cov that obtain k grp where kg: "(k, grp) \<in> set res" and m: "m \<in> set grp" by blast
    have "groupOf getTag grp \<in> set (map (groupOf getTag) (map snd res))"
      using kg by force
    moreover have "dimItem m \<in> set (items (groupOf getTag grp))"
      using m by (simp add: set_items_groupOf)
    ultimately show ?thesis ..
  qed
  show ?thesis
  proof (intro exI conjI)
    show "pruneLoop ?C bucket [] = Some R" by (rule R)
    show "set R = {x \<in> set bucket. \<forall>y\<in>set bucket. \<not> better rc req y x}" by (rule mx)
    show "processBucket ?C getTag bucket = Some (map (groupOf getTag) (map snd res))" by (rule pb)
    show "\<forall>g\<in>set (map (groupOf getTag) (map snd res)). \<exists>grp. grp \<noteq> [] \<and> g = groupOf getTag grp
            \<and> mset grp = mset (filter (\<lambda>m. ?key m = ?key (hd grp)) R)"
      using 1 by (rule ballI)
    show "\<forall>m\<in>set R. \<exists>g\<in>set (map (groupOf getTag) (map snd res)). dimItem m \<in> set (items g)"
      using 2 by (rule ballI)
  qed
qed

lemma processBuckets_set:
  assumes "\<forall>b\<in>set bs. set b \<subseteq> set (mapItems f r ms ds)"
  shows "\<exists>groups.
           processBuckets (buildCache rc req (mapItems f r ms ds)) getTag bs = Some groups
           \<and> (\<forall>b\<in>set bs. \<forall>gs.
                 processBucket (buildCache rc req (mapItems f r ms ds)) getTag b = Some gs
                 \<longrightarrow> set gs \<subseteq> set groups)"
  using assms
proof (induction bs)
  case Nil
  then show ?case by simp
next
  case (Cons b bs)
  let ?C = "buildCache rc req (mapItems f r ms ds)"
  have "set b \<subseteq> set (mapItems f r ms ds)" using Cons.prems by simp
  from processBucket_total [OF this, of rc req getTag]
  obtain gs where gs: "processBucket ?C getTag b = Some gs" ..
  have "\<forall>b\<in>set bs. set b \<subseteq> set (mapItems f r ms ds)" using Cons.prems by simp
  from Cons.IH [OF this]
  obtain groups where gm: "processBuckets ?C getTag bs = Some groups
      \<and> (\<forall>b\<in>set bs. \<forall>gs. processBucket ?C getTag b = Some gs \<longrightarrow> set gs \<subseteq> set groups)" ..
  then have g: "processBuckets ?C getTag bs = Some groups"
    and m: "\<forall>b\<in>set bs. \<forall>gs. processBucket ?C getTag b = Some gs \<longrightarrow> set gs \<subseteq> set groups"
    by simp_all
  show ?case
  proof (intro exI conjI)
    show "processBuckets ?C getTag (b # bs) = Some (gs @ groups)"
      using gs g by simp
    show "\<forall>b'\<in>set (b # bs). \<forall>gs'. processBucket ?C getTag b' = Some gs'
            \<longrightarrow> set gs' \<subseteq> set (gs @ groups)"
    proof (intro ballI allI impI)
      fix b' gs'
      assume b': "b' \<in> set (b # bs)" and p: "processBucket ?C getTag b' = Some gs'"
      from b' consider "b' = b" | "b' \<in> set bs" by auto
      then show "set gs' \<subseteq> set (gs @ groups)"
      proof cases
        case 1
        then have "gs' = gs" using p gs by simp
        then show ?thesis by simp
      next
        case 2
        then have "set gs' \<subseteq> set groups" using m p by blast
        then show ?thesis by auto
      qed
    qed
  qed
qed

text \<open>
  Every group that \<^verbatim>\<open>mapItemsToGroups\<close> returns is built from the kept items of one
  first-pass bucket that have the group's final key, each as often as it is kept; and
  every kept item of every bucket is a member of a group.
\<close>

lemma mapItemsToGroups_classes:
  "\<exists>groups.
     mapItemsToGroups f getModTag ds rc r mods ms getTag = Some groups
     \<and> (\<forall>g\<in>set groups. \<exists>bucket keepSet grp.
           bucket \<in> set (energyGroups_of (mapItems f r ms ds))
           \<and> pruneLoop (buildCache rc (requiredModTags_of getModTag mods) (mapItems f r ms ds)) bucket []
               = Some keepSet
           \<and> set keepSet = {x \<in> set bucket. \<forall>y\<in>set bucket.
                 \<not> better rc (requiredModTags_of getModTag mods) y x}
           \<and> grp \<noteq> [] \<and> g = groupOf getTag grp
           \<and> mset grp
               = mset (filter (\<lambda>m.
                    finalGroupingFn (buildCache rc (requiredModTags_of getModTag mods) (mapItems f r ms ds))
                      (dimItem m)
                    = finalGroupingFn (buildCache rc (requiredModTags_of getModTag mods) (mapItems f r ms ds))
                        (dimItem (hd grp))) keepSet))
     \<and> (\<forall>bucket\<in>set (energyGroups_of (mapItems f r ms ds)). \<forall>x\<in>set bucket.
           (\<forall>y\<in>set bucket. \<not> better rc (requiredModTags_of getModTag mods) y x)
           \<longrightarrow> (\<exists>g\<in>set groups. dimItem x \<in> set (items g)))"
proof -
  let ?req = "requiredModTags_of getModTag mods"
  let ?M = "mapItems f r ms ds"
  let ?C = "buildCache rc ?req ?M"
  let ?key = "\<lambda>m. finalGroupingFn ?C (dimItem m)"
  have sub: "\<forall>b\<in>set (energyGroups_of ?M). set b \<subseteq> set ?M"
  proof
    fix b assume "b \<in> set (energyGroups_of ?M)"
    then show "set b \<subseteq> set ?M" by (rule energyGroups_of_spec(1))
  qed
  from processBuckets_spec [OF sub, of rc ?req getTag]
  obtain groups where
    gm: "processBuckets ?C getTag (energyGroups_of ?M) = Some groups
         \<and> (\<forall>g\<in>set groups. \<exists>b\<in>set (energyGroups_of ?M). \<exists>gs.
              processBucket ?C getTag b = Some gs \<and> g \<in> set gs)" ..
  have g: "processBuckets ?C getTag (energyGroups_of ?M) = Some groups"
    using gm by (rule conjunct1)
  have m: "\<forall>g\<in>set groups. \<exists>b\<in>set (energyGroups_of ?M). \<exists>gs.
              processBucket ?C getTag b = Some gs \<and> g \<in> set gs"
    using gm by (rule conjunct2)
  from processBuckets_set [OF sub, of rc ?req getTag]
  obtain groups' where
    gm': "processBuckets ?C getTag (energyGroups_of ?M) = Some groups'
         \<and> (\<forall>b\<in>set (energyGroups_of ?M). \<forall>gs.
              processBucket ?C getTag b = Some gs \<longrightarrow> set gs \<subseteq> set groups')" ..
  have "groups' = groups" using gm' g by simp
  then have inv: "\<forall>b\<in>set (energyGroups_of ?M). \<forall>gs.
              processBucket ?C getTag b = Some gs \<longrightarrow> set gs \<subseteq> set groups"
    using gm' by simp
  have bucket_facts: "\<exists>keepSet gs.
           pruneLoop ?C b [] = Some keepSet
           \<and> set keepSet = {x \<in> set b. \<forall>y\<in>set b. \<not> better rc ?req y x}
           \<and> processBucket ?C getTag b = Some gs
           \<and> (\<forall>g\<in>set gs. \<exists>grp. grp \<noteq> [] \<and> g = groupOf getTag grp
                 \<and> mset grp = mset (filter (\<lambda>m. ?key m = ?key (hd grp)) keepSet))
           \<and> (\<forall>m\<in>set keepSet. \<exists>g\<in>set gs. dimItem m \<in> set (items g))"
    if "b \<in> set (energyGroups_of ?M)" for b
  proof -
    have "set b \<subseteq> set ?M" using sub that by (rule bspec)
    then show ?thesis by (rule processBucket_classes)
  qed
  have 1: "\<exists>bucket keepSet grp.
           bucket \<in> set (energyGroups_of ?M)
           \<and> pruneLoop ?C bucket [] = Some keepSet
           \<and> set keepSet = {x \<in> set bucket. \<forall>y\<in>set bucket. \<not> better rc ?req y x}
           \<and> grp \<noteq> [] \<and> x = groupOf getTag grp
           \<and> mset grp = mset (filter (\<lambda>m. ?key m = ?key (hd grp)) keepSet)"
    if "x \<in> set groups" for x
  proof -
    from m that have "\<exists>b\<in>set (energyGroups_of ?M). \<exists>gs.
              processBucket ?C getTag b = Some gs \<and> x \<in> set gs" by (rule bspec)
    then obtain b where b: "b \<in> set (energyGroups_of ?M)"
      and ex: "\<exists>gs. processBucket ?C getTag b = Some gs \<and> x \<in> set gs" ..
    from ex obtain gs where gx: "processBucket ?C getTag b = Some gs \<and> x \<in> set gs" ..
    then have gs: "processBucket ?C getTag b = Some gs" and xgs: "x \<in> set gs"
      by simp_all
    from bucket_facts [OF b] obtain keepSet where "\<exists>gs.
           pruneLoop ?C b [] = Some keepSet
           \<and> set keepSet = {x \<in> set b. \<forall>y\<in>set b. \<not> better rc ?req y x}
           \<and> processBucket ?C getTag b = Some gs
           \<and> (\<forall>g\<in>set gs. \<exists>grp. grp \<noteq> [] \<and> g = groupOf getTag grp
                 \<and> mset grp = mset (filter (\<lambda>m. ?key m = ?key (hd grp)) keepSet))
           \<and> (\<forall>m\<in>set keepSet. \<exists>g\<in>set gs. dimItem m \<in> set (items g))" ..
    then obtain gs' where F: "
           pruneLoop ?C b [] = Some keepSet
           \<and> set keepSet = {x \<in> set b. \<forall>y\<in>set b. \<not> better rc ?req y x}
           \<and> processBucket ?C getTag b = Some gs'
           \<and> (\<forall>g\<in>set gs'. \<exists>grp. grp \<noteq> [] \<and> g = groupOf getTag grp
                 \<and> mset grp = mset (filter (\<lambda>m. ?key m = ?key (hd grp)) keepSet))
           \<and> (\<forall>m\<in>set keepSet. \<exists>g\<in>set gs'. dimItem m \<in> set (items g))" ..
    have pl: "pruneLoop ?C b [] = Some keepSet" using F by (elim conjE)
    have mx: "set keepSet = {x \<in> set b. \<forall>y\<in>set b. \<not> better rc ?req y x}" using F by (elim conjE)
    have pb: "processBucket ?C getTag b = Some gs'" using F by (elim conjE)
    have cl: "\<forall>g\<in>set gs'. \<exists>grp. grp \<noteq> [] \<and> g = groupOf getTag grp
                 \<and> mset grp = mset (filter (\<lambda>m. ?key m = ?key (hd grp)) keepSet)"
      using F by (elim conjE)
    have "gs' = gs" using pb gs by simp
    then have "x \<in> set gs'" using xgs by simp
    with cl have "\<exists>grp. grp \<noteq> [] \<and> x = groupOf getTag grp
                 \<and> mset grp = mset (filter (\<lambda>m. ?key m = ?key (hd grp)) keepSet)" by (rule bspec)
    then obtain grp where G: "grp \<noteq> [] \<and> x = groupOf getTag grp
                 \<and> mset grp = mset (filter (\<lambda>m. ?key m = ?key (hd grp)) keepSet)" ..
    show ?thesis
    proof (intro exI conjI)
      show "b \<in> set (energyGroups_of ?M)" by (rule b)
      show "pruneLoop ?C b [] = Some keepSet" by (rule pl)
      show "set keepSet = {x \<in> set b. \<forall>y\<in>set b. \<not> better rc ?req y x}" by (rule mx)
      show "grp \<noteq> []" using G by (elim conjE)
      show "x = groupOf getTag grp" using G by (elim conjE)
      show "mset grp = mset (filter (\<lambda>m. ?key m = ?key (hd grp)) keepSet)" using G by (elim conjE)
    qed
  qed
  have 2: "\<exists>g\<in>set groups. dimItem x \<in> set (items g)"
    if b: "b \<in> set (energyGroups_of ?M)" and x: "x \<in> set b"
      and un: "\<forall>y\<in>set b. \<not> better rc ?req y x" for b x
  proof -
    from bucket_facts [OF b] obtain keepSet where "\<exists>gs.
           pruneLoop ?C b [] = Some keepSet
           \<and> set keepSet = {x \<in> set b. \<forall>y\<in>set b. \<not> better rc ?req y x}
           \<and> processBucket ?C getTag b = Some gs
           \<and> (\<forall>g\<in>set gs. \<exists>grp. grp \<noteq> [] \<and> g = groupOf getTag grp
                 \<and> mset grp = mset (filter (\<lambda>m. ?key m = ?key (hd grp)) keepSet))
           \<and> (\<forall>m\<in>set keepSet. \<exists>g\<in>set gs. dimItem m \<in> set (items g))" ..
    then obtain gs where F: "
           pruneLoop ?C b [] = Some keepSet
           \<and> set keepSet = {x \<in> set b. \<forall>y\<in>set b. \<not> better rc ?req y x}
           \<and> processBucket ?C getTag b = Some gs
           \<and> (\<forall>g\<in>set gs. \<exists>grp. grp \<noteq> [] \<and> g = groupOf getTag grp
                 \<and> mset grp = mset (filter (\<lambda>m. ?key m = ?key (hd grp)) keepSet))
           \<and> (\<forall>m\<in>set keepSet. \<exists>g\<in>set gs. dimItem m \<in> set (items g))" ..
    have mx: "set keepSet = {x \<in> set b. \<forall>y\<in>set b. \<not> better rc ?req y x}" using F by (elim conjE)
    have pb: "processBucket ?C getTag b = Some gs" using F by (elim conjE)
    have cov: "\<forall>m\<in>set keepSet. \<exists>g\<in>set gs. dimItem m \<in> set (items g)" using F by (elim conjE)
    have "x \<in> set keepSet" unfolding mx using x un by simp
    with cov have "\<exists>g\<in>set gs. dimItem x \<in> set (items g)" by (rule bspec)
    then obtain g where ggs: "g \<in> set gs" and xg: "dimItem x \<in> set (items g)" ..
    have "set gs \<subseteq> set groups" using inv b pb by blast
    then have "g \<in> set groups" using ggs by blast
    then show ?thesis using xg ..
  qed
  have res: "mapItemsToGroups f getModTag ds rc r mods ms getTag = Some groups"
    using g by (simp add: mapItemsToGroups_def Let_def)
  show ?thesis
  proof (intro exI conjI)
    show "mapItemsToGroups f getModTag ds rc r mods ms getTag = Some groups" by (rule res)
    show "\<forall>g\<in>set groups. \<exists>bucket keepSet grp.
           bucket \<in> set (energyGroups_of ?M)
           \<and> pruneLoop ?C bucket [] = Some keepSet
           \<and> set keepSet = {x \<in> set bucket. \<forall>y\<in>set bucket. \<not> better rc ?req y x}
           \<and> grp \<noteq> [] \<and> g = groupOf getTag grp
           \<and> mset grp = mset (filter (\<lambda>m. ?key m = ?key (hd grp)) keepSet)"
      using 1 by (rule ballI)
    show "\<forall>bucket\<in>set (energyGroups_of ?M). \<forall>x\<in>set bucket.
           (\<forall>y\<in>set bucket. \<not> better rc ?req y x)
           \<longrightarrow> (\<exists>g\<in>set groups. dimItem x \<in> set (items g))"
      using 2 by (intro ballI impI)
  qed
qed

section \<open>The order inside a group\<close>

lemma chainComparator_compareBy:
  "chainComparator (compareBy k # cs) a b \<le> 0
   \<longleftrightarrow> k a < k b \<or> (k a = k b \<and> chainComparator cs a b \<le> 0)"
  by (auto simp: compareBy_def Let_def)

lemma lex_le_pair:
  "(x1, y1) \<le> (x2, y2) \<longleftrightarrow> x1 < x2 \<or> (x1 = x2 \<and> y1 \<le> y2)"
  for x1 :: "'a::linorder" and y1 :: "'b::order"
  by auto

lemma groupComparator_le:
  "groupComparator getTag a b \<le> 0
   \<longleftrightarrow> groupComparator_key getTag (dimItem a) \<le> groupComparator_key getTag (dimItem b)"
  unfolding groupComparator_def groupComparator_key_def chainComparator_compareBy lex_le_pair
  by simp

lemma set_insort_cmp: "set (insort_cmp cmp x ys) = insert x (set ys)"
  by (induction ys) auto

lemma sorted_insort_cmp:
  fixes k :: "'a \<Rightarrow> 'k::linorder"
  assumes "\<And>a b. cmp a b \<le> 0 \<longleftrightarrow> k a \<le> k b" and "sorted (map k ys)"
  shows "sorted (map k (insort_cmp cmp x ys))"
  using assms(2)
proof (induction ys)
  case Nil
  then show ?case by simp
next
  case (Cons y ys)
  show ?case
  proof (cases "cmp x y \<le> 0")
    case True
    then have "k x \<le> k y" using assms(1) by simp
    then show ?thesis using True Cons.prems by auto
  next
    case False
    then have "k y \<le> k x" using assms(1) by (meson linear)
    then show ?thesis using False Cons by (auto simp: set_insort_cmp)
  qed
qed

lemma sorted_Array_sort:
  fixes k :: "'a \<Rightarrow> 'k::linorder"
  assumes "\<And>a b. cmp a b \<le> 0 \<longleftrightarrow> k a \<le> k b"
  shows "sorted (map k (Array_sort cmp xs))"
proof (induction xs)
  case Nil
  then show ?case by (simp add: Array_sort_def)
next
  case (Cons x xs)
  have "Array_sort cmp (x # xs) = insort_cmp cmp x (Array_sort cmp xs)"
    by (simp add: Array_sort_def)
  then show ?case
    using sorted_insort_cmp [of cmp k, OF assms Cons] by simp
qed

lemma groupOf_sorted:
  "sorted (map (groupComparator_key getTag) (items (groupOf getTag grp)))"
proof -
  have "sorted (map (\<lambda>m. groupComparator_key getTag (dimItem m)) (Array_sort (groupComparator getTag) grp))"
    by (rule sorted_Array_sort) (rule groupComparator_le)
  then show ?thesis
    by (simp add: groupOf_def Let_def comp_def)
qed

lemma groupOf_first:
  assumes "grp \<noteq> []"
  shows "items (groupOf getTag grp) \<noteq> []"
    and "hd (Array_sort (groupComparator getTag) grp) \<in> set grp"
    and "hd (items (groupOf getTag grp)) = dimItem (hd (Array_sort (groupComparator getTag) grp))"
    and "canonicalProcessItem (groupOf getTag grp)
         = processItem (hd (Array_sort (groupComparator getTag) grp))"
proof -
  have ne: "Array_sort (groupComparator getTag) grp \<noteq> []"
    using assms by (simp add: Array_sort_Nil_iff)
  show "items (groupOf getTag grp) \<noteq> []"
    using ne by (simp add: groupOf_def Let_def)
  have "hd (Array_sort (groupComparator getTag) grp) \<in> set (Array_sort (groupComparator getTag) grp)"
    using ne by (rule hd_in_set)
  then show "hd (Array_sort (groupComparator getTag) grp) \<in> set grp"
    by (simp add: set_Array_sort)
  show "hd (items (groupOf getTag grp)) = dimItem (hd (Array_sort (groupComparator getTag) grp))"
    using ne by (simp add: groupOf_def Let_def hd_map)
  show "canonicalProcessItem (groupOf getTag grp)
         = processItem (hd (Array_sort (groupComparator getTag) grp))"
    by (simp add: groupOf_def Let_def)
qed

section \<open>Two items that agree on everything the worker sees\<close>

lemma Array_sort_two:
  "Array_sort cmp [a, b] = (if cmp a b \<le> 0 then [a, b] else [b, a])"
  by (simp add: Array_sort_def)

lemma cacheEntry_eqI:
  assumes "map (\<lambda>c. stats (processItem a) (statHash c)) rc
           = map (\<lambda>c. stats (processItem b) (statHash c)) rc"
      and "remainingEnergyCapacity (processItem a) = remainingEnergyCapacity (processItem b)"
      and "relevantTags req (processItem a) = relevantTags req (processItem b)"
      and "isArtifice (processItem a) = isArtifice (processItem b)"
  shows "cacheEntry rc req a = cacheEntry rc req b"
proof -
  let ?l = "\<lambda>m. case compatibleModSeasons (processItem m) of
               None \<Rightarrow> []
             | Some seasons \<Rightarrow> filter (\<lambda>season. season \<in> set req) seasons"
  have "set (?l a) = relevantTags req (processItem a)" "set (?l b) = relevantTags req (processItem b)"
    by (simp_all add: relevantTags_def split: option.splits)
  then have "set (?l a) = set (?l b)" using assms(3) by simp
  then have "new_Set (sort (?l a)) = new_Set (sort (?l b))" by (rule new_Set_sort_cong)
  then show ?thesis
    using assms(1,2,4) by (simp add: cacheEntry_def)
qed

lemma better_cacheEntry_eq:
  assumes "cacheEntry rc req a = cacheEntry rc req b"
  shows "\<not> better rc req a b"
proof -
  have st: "map (\<lambda>c. stats (processItem a) (statHash c)) rc
            = map (\<lambda>c. stats (processItem b) (statHash c)) rc"
    using arg_cong [OF assms, of stats_c] by (simp add: cacheEntry_def)
  have en: "remainingEnergyCapacity (processItem a) = remainingEnergyCapacity (processItem b)"
    using arg_cong [OF assms, of energyCapacity_c] by (simp add: cacheEntry_def)
  have ar: "isArtifice (processItem a) = isArtifice (processItem b)"
    using arg_cong [OF assms, of isArtifice_c] by (simp add: cacheEntry_def)
  have tg: "relevantTags req (processItem a) = relevantTags req (processItem b)"
    using arg_cong [OF assms, of "\<lambda>e. set (relevantModSeasons e)"]
    by (simp add: relevantModSeasons_cacheEntry)
  have st': "\<forall>c\<in>set rc. stats (processItem a) (statHash c) = stats (processItem b) (statHash c)"
    using st by simp
  show ?thesis
    unfolding better_dominates dominates_def using st' en ar tg by auto
qed

lemma two_items_groups:
  assumes ex: "\<not> isExotic (f r ms x)" "\<not> isExotic (f r ms y)"
      and eq: "cacheEntry rc (requiredModTags_of getModTag mods) \<lparr> dimItem = x, processItem = f r ms x \<rparr>
               = cacheEntry rc (requiredModTags_of getModTag mods) \<lparr> dimItem = y, processItem = f r ms y \<rparr>"
  shows "pruneLoop (buildCache rc (requiredModTags_of getModTag mods) (mapItems f r ms [x, y]))
           (mapItems f r ms [x, y]) [] = Some (mapItems f r ms [x, y])"
    and "mapItemsToGroups f getModTag [x, y] rc r mods ms getTag
         = Some [groupOf getTag (mapItems f r ms [x, y])]"
proof -
  let ?req = "requiredModTags_of getModTag mods"
  let ?mx = "\<lparr> dimItem = x, processItem = f r ms x \<rparr>"
  let ?my = "\<lparr> dimItem = y, processItem = f r ms y \<rparr>"
  let ?C = "buildCache rc ?req (mapItems f r ms [x, y])"
  have M: "mapItems f r ms [x, y] = [?mx, ?my]" by (simp add: mapItems_def)
  have mem: "?mx \<in> set (mapItems f r ms [x, y])" "?my \<in> set (mapItems f r ms [x, y])"
    by (simp_all add: M)
  have nb: "\<not> better rc ?req ?mx ?my" "\<not> better rc ?req ?my ?mx"
    using better_cacheEntry_eq [OF eq] better_cacheEntry_eq [OF eq [symmetric]] by simp_all
  have b1: "isStrictlyBetter ?C ?mx ?my = Some False"
    using isStrictlyBetter_better [OF mem(1) mem(2), of rc ?req] nb by simp
  have b2: "isStrictlyBetter ?C ?my ?mx = Some False"
    using isStrictlyBetter_better [OF mem(2) mem(1), of rc ?req] nb by simp
  have prune: "pruneLoop ?C [?mx, ?my] [] = Some [?mx, ?my]"
    by (simp add: nth_opt_def b1 b2)
  then show "pruneLoop ?C (mapItems f r ms [x, y]) [] = Some (mapItems f r ms [x, y])"
    by (simp only: M)
  have kx: "finalGroupingFn ?C x
        = Some (Array_toString (stats_c (cacheEntry rc ?req ?mx)) @ ''-''
                 @ Number_toString (energyCapacity_c (cacheEntry rc ?req ?mx)) @ ''-''
                 @ join_comma (relevantModSeasons (cacheEntry rc ?req ?mx)))"
    using finalGroupingFn_lookup [OF mem(1), of rc ?req] by simp
  have ky: "finalGroupingFn ?C y = finalGroupingFn ?C x"
    using finalGroupingFn_lookup [OF mem(2), of rc ?req] kx eq by simp
  have grp: "groupBy (\<lambda>m. finalGroupingFn ?C (dimItem m)) [?mx, ?my]
        = Some [(Array_toString (stats_c (cacheEntry rc ?req ?mx)) @ ''-''
                 @ Number_toString (energyCapacity_c (cacheEntry rc ?req ?mx)) @ ''-''
                 @ join_comma (relevantModSeasons (cacheEntry rc ?req ?mx)), [?mx, ?my])]"
    by (simp add: groupBy_def ky kx)
  have pb: "processBucket ?C getTag [?mx, ?my] = Some [groupOf getTag [?mx, ?my]]"
    unfolding processBucket_def prune option.case grp by (simp add: makeGroup_groupOf)
  have eg: "energyGroups_of [?mx, ?my] = [[?mx, ?my]]"
    using ex by (simp add: energyGroups_of_def groupBy_def firstPassGroupingFn_def)
  show "mapItemsToGroups f getModTag [x, y] rc r mods ms getTag
         = Some [groupOf getTag (mapItems f r ms [x, y])]"
    unfolding mapItemsToGroups_def Let_def M eg by (simp add: pb [unfolded M])
qed

lemma groupOf_owned_vendor:
  assumes "energyCapacity_or_0 ven \<le> energyCapacity_or_0 own"
      and "vendor own = None" and "vendor ven \<noteq> None"
  shows "groupOf getTag [\<lparr> dimItem = own, processItem = p \<rparr>, \<lparr> dimItem = ven, processItem = q \<rparr>]
         = \<lparr> canonicalProcessItem = p, items = [own, ven] \<rparr>"
    and "groupOf getTag [\<lparr> dimItem = ven, processItem = q \<rparr>, \<lparr> dimItem = own, processItem = p \<rparr>]
         = \<lparr> canonicalProcessItem = p, items = [own, ven] \<rparr>"
proof -
  have lt: "groupComparator_key getTag own < groupComparator_key getTag ven"
    using assms by (auto simp: groupComparator_key_def)
  then have 1: "groupComparator_key getTag own \<le> groupComparator_key getTag ven"
    and 2: "\<not> groupComparator_key getTag ven \<le> groupComparator_key getTag own"
    by simp_all
  show "groupOf getTag [\<lparr> dimItem = own, processItem = p \<rparr>, \<lparr> dimItem = ven, processItem = q \<rparr>]
         = \<lparr> canonicalProcessItem = p, items = [own, ven] \<rparr>"
    using 1 by (simp add: groupOf_def Let_def Array_sort_two groupComparator_le)
  show "groupOf getTag [\<lparr> dimItem = ven, processItem = q \<rparr>, \<lparr> dimItem = own, processItem = p \<rparr>]
         = \<lparr> canonicalProcessItem = p, items = [own, ven] \<rparr>"
    using 2 by (simp add: groupOf_def Let_def Array_sort_two groupComparator_le)
qed

section \<open>Positions in a sorted member list\<close>

lemma sorted_key_before:
  fixes k :: "'a \<Rightarrow> 'k::linorder"
  assumes "sorted (map k xs)" and "k a < k b"
      and "i < length xs" and "j < length xs" and "xs ! i = a" and "xs ! j = b"
  shows "i < j"
proof (rule ccontr)
  assume "\<not> i < j"
  then have "j \<le> i" by simp
  then have "map k xs ! j \<le> map k xs ! i"
    using assms(1,3) by (simp add: sorted_iff_nth_mono del: nth_map)
  then have "k b \<le> k a" using assms(3-6) by simp
  then show False using assms(2) by simp
qed

lemma sorted_key_hd:
  fixes k :: "'a \<Rightarrow> 'k::linorder"
  assumes "sorted (map k xs)" and "x \<in> set xs"
  shows "k (hd xs) \<le> k x"
  using assms by (cases xs) auto

section \<open>Items that the worker cannot tell apart, in any slot\<close>

lemma legendary_key: "\<not> isExotic p \<Longrightarrow> firstPassGroupingFn p = ''legendary-''"
  by (simp add: firstPassGroupingFn_def)

lemma better_cacheEntry_cong:
  "cacheEntry rc req a = cacheEntry rc req b \<Longrightarrow> better rc req y a = better rc req y b"
  by (simp add: better_def)

text \<open>
  What membership in a group means: the member is mapped from an item of the list, is
  undominated in its first-pass bucket, and the group holds every undominated item of the
  bucket that has the same final key.
\<close>

lemma group_member:
  assumes res: "mapItemsToGroups f getModTag ds rc r mods ms getTag = Some groups"
      and g: "g \<in> set groups" and d: "d \<in> set (items g)"
  shows "\<exists>bucket.
           bucket \<in> set (energyGroups_of (mapItems f r ms ds))
           \<and> \<lparr> dimItem = d, processItem = f r ms d \<rparr> \<in> set bucket
           \<and> (\<forall>y\<in>set bucket. \<not> better rc (requiredModTags_of getModTag mods) y
                   \<lparr> dimItem = d, processItem = f r ms d \<rparr>)
           \<and> (\<forall>x\<in>set bucket.
                 (\<forall>y\<in>set bucket. \<not> better rc (requiredModTags_of getModTag mods) y x)
                 \<and> finalGroupingFn (buildCache rc (requiredModTags_of getModTag mods) (mapItems f r ms ds))
                       (dimItem x)
                     = finalGroupingFn (buildCache rc (requiredModTags_of getModTag mods) (mapItems f r ms ds)) d
                 \<longrightarrow> dimItem x \<in> set (items g))"
proof -
  let ?req = "requiredModTags_of getModTag mods"
  let ?M = "mapItems f r ms ds"
  let ?C = "buildCache rc ?req ?M"
  let ?key = "\<lambda>m. finalGroupingFn ?C (dimItem m)"
  let ?md = "\<lparr> dimItem = d, processItem = f r ms d \<rparr>"
  from mapItemsToGroups_classes [of f getModTag ds rc r mods ms getTag]
  obtain groups' where G: "mapItemsToGroups f getModTag ds rc r mods ms getTag = Some groups'
     \<and> (\<forall>g\<in>set groups'. \<exists>bucket keepSet grp.
           bucket \<in> set (energyGroups_of ?M)
           \<and> pruneLoop ?C bucket [] = Some keepSet
           \<and> set keepSet = {x \<in> set bucket. \<forall>y\<in>set bucket. \<not> better rc ?req y x}
           \<and> grp \<noteq> [] \<and> g = groupOf getTag grp
           \<and> mset grp = mset (filter (\<lambda>m. ?key m = ?key (hd grp)) keepSet))
     \<and> (\<forall>bucket\<in>set (energyGroups_of ?M). \<forall>x\<in>set bucket.
           (\<forall>y\<in>set bucket. \<not> better rc ?req y x)
           \<longrightarrow> (\<exists>g\<in>set groups'. dimItem x \<in> set (items g)))" ..
  have "mapItemsToGroups f getModTag ds rc r mods ms getTag = Some groups'"
    using G by (rule conjunct1)
  then have geq: "groups' = groups" using res by simp
  have cl: "\<forall>g\<in>set groups'. \<exists>bucket keepSet grp.
           bucket \<in> set (energyGroups_of ?M)
           \<and> pruneLoop ?C bucket [] = Some keepSet
           \<and> set keepSet = {x \<in> set bucket. \<forall>y\<in>set bucket. \<not> better rc ?req y x}
           \<and> grp \<noteq> [] \<and> g = groupOf getTag grp
           \<and> mset grp = mset (filter (\<lambda>m. ?key m = ?key (hd grp)) keepSet)"
    using G by (elim conjE)
  have "g \<in> set groups'" using g geq by simp
  with cl have "\<exists>bucket keepSet grp.
           bucket \<in> set (energyGroups_of ?M)
           \<and> pruneLoop ?C bucket [] = Some keepSet
           \<and> set keepSet = {x \<in> set bucket. \<forall>y\<in>set bucket. \<not> better rc ?req y x}
           \<and> grp \<noteq> [] \<and> g = groupOf getTag grp
           \<and> mset grp = mset (filter (\<lambda>m. ?key m = ?key (hd grp)) keepSet)" by (rule bspec)
  then obtain bucket keepSet grp where F: "
           bucket \<in> set (energyGroups_of ?M)
           \<and> pruneLoop ?C bucket [] = Some keepSet
           \<and> set keepSet = {x \<in> set bucket. \<forall>y\<in>set bucket. \<not> better rc ?req y x}
           \<and> grp \<noteq> [] \<and> g = groupOf getTag grp
           \<and> mset grp = mset (filter (\<lambda>m. ?key m = ?key (hd grp)) keepSet)"
    by (elim exE)
  have b: "bucket \<in> set (energyGroups_of ?M)" using F by (elim conjE)
  have mx: "set keepSet = {x \<in> set bucket. \<forall>y\<in>set bucket. \<not> better rc ?req y x}"
    using F by (elim conjE)
  have gg: "g = groupOf getTag grp" using F by (elim conjE)
  have "mset grp = mset (filter (\<lambda>m. ?key m = ?key (hd grp)) keepSet)" using F by (elim conjE)
  then have sg: "set grp = set (filter (\<lambda>m. ?key m = ?key (hd grp)) keepSet)"
    by (rule mset_eq_setD)
  have "d \<in> dimItem ` set grp" using d unfolding gg set_items_groupOf .
  then obtain m where m: "m \<in> set grp" and dm: "dimItem m = d" by auto
  have mk: "m \<in> set keepSet" and km: "?key m = ?key (hd grp)" using m sg by simp_all
  have mb: "m \<in> set bucket" and un: "\<forall>y\<in>set bucket. \<not> better rc ?req y m"
    using mk mx by simp_all
  have "m \<in> set ?M" using b mb by (rule bucket_member_mapped(1))
  then have "m = \<lparr> dimItem = dimItem m, processItem = f r ms (dimItem m) \<rparr>"
    by (simp add: mapItems_member)
  then have meq: "m = ?md" using dm by simp
  have 4: "dimItem x \<in> set (items g)"
    if x: "x \<in> set bucket" and xu: "\<forall>y\<in>set bucket. \<not> better rc ?req y x"
      and xk: "?key x = finalGroupingFn ?C d" for x
  proof -
    have "x \<in> set keepSet" unfolding mx using x xu by simp
    moreover have "?key x = ?key (hd grp)" using xk km dm by simp
    ultimately have "x \<in> set grp" unfolding sg by simp
    then show ?thesis unfolding gg set_items_groupOf by (rule imageI)
  qed
  show ?thesis
  proof (intro exI conjI)
    show "bucket \<in> set (energyGroups_of ?M)" by (rule b)
    show "?md \<in> set bucket" using mb meq by simp
    show "\<forall>y\<in>set bucket. \<not> better rc ?req y ?md" using un meq by simp
    show "\<forall>x\<in>set bucket.
            (\<forall>y\<in>set bucket. \<not> better rc ?req y x) \<and> ?key x = finalGroupingFn ?C d
            \<longrightarrow> dimItem x \<in> set (items g)"
      using 4 by (intro ballI impI) (elim conjE)
  qed
qed

text \<open>
  Two legendary items with equal cache entries are members of the same groups.
\<close>

lemma twins_merge:
  assumes res: "mapItemsToGroups f getModTag ds rc r mods ms getTag = Some groups"
      and g: "g \<in> set groups" and a: "a \<in> set (items g)"
      and b: "b \<in> set ds"
      and ex: "\<not> isExotic (f r ms a)" "\<not> isExotic (f r ms b)"
      and eq: "cacheEntry rc (requiredModTags_of getModTag mods) \<lparr> dimItem = a, processItem = f r ms a \<rparr>
               = cacheEntry rc (requiredModTags_of getModTag mods) \<lparr> dimItem = b, processItem = f r ms b \<rparr>"
  shows "b \<in> set (items g)"
proof -
  let ?req = "requiredModTags_of getModTag mods"
  let ?M = "mapItems f r ms ds"
  let ?C = "buildCache rc ?req ?M"
  let ?ma = "\<lparr> dimItem = a, processItem = f r ms a \<rparr>"
  let ?mb = "\<lparr> dimItem = b, processItem = f r ms b \<rparr>"
  from group_member [OF res g a]
  obtain bucket where F: "bucket \<in> set (energyGroups_of ?M)
           \<and> ?ma \<in> set bucket
           \<and> (\<forall>y\<in>set bucket. \<not> better rc ?req y ?ma)
           \<and> (\<forall>x\<in>set bucket.
                 (\<forall>y\<in>set bucket. \<not> better rc ?req y x)
                 \<and> finalGroupingFn ?C (dimItem x) = finalGroupingFn ?C a
                 \<longrightarrow> dimItem x \<in> set (items g))" ..
  have bk: "bucket \<in> set (energyGroups_of ?M)" using F by (elim conjE)
  have ab: "?ma \<in> set bucket" using F by (elim conjE)
  have au: "\<forall>y\<in>set bucket. \<not> better rc ?req y ?ma" using F by (elim conjE)
  have all: "\<forall>x\<in>set bucket.
                 (\<forall>y\<in>set bucket. \<not> better rc ?req y x)
                 \<and> finalGroupingFn ?C (dimItem x) = finalGroupingFn ?C a
                 \<longrightarrow> dimItem x \<in> set (items g)" using F by (elim conjE)
  have aM: "?ma \<in> set ?M" using bk ab by (rule bucket_member_mapped(1))
  have bM: "?mb \<in> set ?M" using b by (simp add: mapItems_member)
  have "firstPassGroupingFn (processItem ?mb) = firstPassGroupingFn (processItem ?ma)"
    using ex by (simp add: legendary_key)
  then have bb: "?mb \<in> set bucket"
    using energyGroups_of_classes(1) [of ?M] bk ab bM by blast
  have bu: "\<forall>y\<in>set bucket. \<not> better rc ?req y ?mb"
    using au better_cacheEntry_cong [OF eq] by simp
  have "finalGroupingFn ?C (dimItem ?mb) = finalGroupingFn ?C (dimItem ?ma)"
    unfolding finalGroupingFn_lookup [OF aM] finalGroupingFn_lookup [OF bM] eq ..
  then have bkey: "finalGroupingFn ?C (dimItem ?mb) = finalGroupingFn ?C a" by simp
  from all bb have "(\<forall>y\<in>set bucket. \<not> better rc ?req y ?mb)
                 \<and> finalGroupingFn ?C (dimItem ?mb) = finalGroupingFn ?C a
                 \<longrightarrow> dimItem ?mb \<in> set (items g)" by (rule bspec)
  then have "dimItem ?mb \<in> set (items g)" using bu bkey by simp
  then show ?thesis by simp
qed

text \<open>
  A legendary item of the list is a member of a group exactly when no legendary item of
  the list dominates it.
\<close>

lemma legendary_survives_iff:
  assumes res: "mapItemsToGroups f getModTag ds rc r mods ms getTag = Some groups"
      and a: "a \<in> set ds" and ex: "\<not> isExotic (f r ms a)"
  shows "(\<exists>g\<in>set groups. a \<in> set (items g))
         \<longleftrightarrow> (\<forall>d\<in>set ds. \<not> isExotic (f r ms d)
                \<longrightarrow> \<not> dominates rc (requiredModTags_of getModTag mods) (f r ms d) (f r ms a))"
proof
  let ?req = "requiredModTags_of getModTag mods"
  let ?M = "mapItems f r ms ds"
  let ?ma = "\<lparr> dimItem = a, processItem = f r ms a \<rparr>"
  assume "\<exists>g\<in>set groups. a \<in> set (items g)"
  then obtain g where g: "g \<in> set groups" and ag: "a \<in> set (items g)" ..
  from group_member [OF res g ag]
  obtain bucket where F: "bucket \<in> set (energyGroups_of ?M)
           \<and> ?ma \<in> set bucket
           \<and> (\<forall>y\<in>set bucket. \<not> better rc ?req y ?ma)
           \<and> (\<forall>x\<in>set bucket.
                 (\<forall>y\<in>set bucket. \<not> better rc ?req y x)
                 \<and> finalGroupingFn (buildCache rc ?req ?M) (dimItem x)
                     = finalGroupingFn (buildCache rc ?req ?M) a
                 \<longrightarrow> dimItem x \<in> set (items g))" ..
  have bk: "bucket \<in> set (energyGroups_of ?M)" using F by (elim conjE)
  have ab: "?ma \<in> set bucket" using F by (elim conjE)
  have au: "\<forall>y\<in>set bucket. \<not> better rc ?req y ?ma" using F by (elim conjE)
  show "\<forall>d\<in>set ds. \<not> isExotic (f r ms d) \<longrightarrow> \<not> dominates rc ?req (f r ms d) (f r ms a)"
  proof (intro ballI impI)
    fix d assume d: "d \<in> set ds" and dx: "\<not> isExotic (f r ms d)"
    let ?md = "\<lparr> dimItem = d, processItem = f r ms d \<rparr>"
    have dM: "?md \<in> set ?M" using d by (simp add: mapItems_member)
    have "firstPassGroupingFn (processItem ?md) = firstPassGroupingFn (processItem ?ma)"
      using ex dx by (simp add: legendary_key)
    then have "?md \<in> set bucket"
      using energyGroups_of_classes(1) [of ?M] bk ab dM by blast
    with au have "\<not> better rc ?req ?md ?ma" by (rule bspec)
    then show "\<not> dominates rc ?req (f r ms d) (f r ms a)"
      by (simp add: better_dominates)
  qed
next
  let ?req = "requiredModTags_of getModTag mods"
  let ?M = "mapItems f r ms ds"
  let ?C = "buildCache rc ?req ?M"
  let ?key = "\<lambda>m. finalGroupingFn ?C (dimItem m)"
  let ?ma = "\<lparr> dimItem = a, processItem = f r ms a \<rparr>"
  assume nd: "\<forall>d\<in>set ds. \<not> isExotic (f r ms d) \<longrightarrow> \<not> dominates rc ?req (f r ms d) (f r ms a)"
  have aM: "?ma \<in> set ?M" using a by (simp add: mapItems_member)
  with energyGroups_of_classes(2) [of ?M]
  have "\<exists>bucket\<in>set (energyGroups_of ?M). ?ma \<in> set bucket" by (rule bspec)
  then obtain bucket where bk: "bucket \<in> set (energyGroups_of ?M)" and ab: "?ma \<in> set bucket" ..
  have au: "\<forall>y\<in>set bucket. \<not> better rc ?req y ?ma"
  proof
    fix y assume y: "y \<in> set bucket"
    have yM: "y \<in> set ?M" using bk y by (rule bucket_member_mapped(1))
    have yp: "processItem y = f r ms (dimItem y)" using bk y by (rule bucket_member_mapped(2))
    have yd: "dimItem y \<in> set ds" using yM by (simp add: mapItems_member)
    have "firstPassGroupingFn (processItem y) = firstPassGroupingFn (processItem ?ma)"
      using energyGroups_of_spec(2) [OF bk] y ab by blast
    then have "firstPassGroupingFn (f r ms (dimItem y)) = ''legendary-''"
      using ex yp by (simp add: legendary_key)
    then have "\<not> isExotic (f r ms (dimItem y))"
      using firstPassGroupingFn_inj [of "f r ms (dimItem y)" "f r ms a"] ex
      by (simp add: legendary_key)
    then have "\<not> dominates rc ?req (f r ms (dimItem y)) (f r ms a)"
      using nd yd by blast
    then show "\<not> better rc ?req y ?ma" by (simp add: better_dominates yp)
  qed
  from mapItemsToGroups_classes [of f getModTag ds rc r mods ms getTag]
  obtain groups' where G: "mapItemsToGroups f getModTag ds rc r mods ms getTag = Some groups'
     \<and> (\<forall>g\<in>set groups'. \<exists>bucket keepSet grp.
           bucket \<in> set (energyGroups_of ?M)
           \<and> pruneLoop ?C bucket [] = Some keepSet
           \<and> set keepSet = {x \<in> set bucket. \<forall>y\<in>set bucket. \<not> better rc ?req y x}
           \<and> grp \<noteq> [] \<and> g = groupOf getTag grp
           \<and> mset grp = mset (filter (\<lambda>m. ?key m = ?key (hd grp)) keepSet))
     \<and> (\<forall>bucket\<in>set (energyGroups_of ?M). \<forall>x\<in>set bucket.
           (\<forall>y\<in>set bucket. \<not> better rc ?req y x)
           \<longrightarrow> (\<exists>g\<in>set groups'. dimItem x \<in> set (items g)))" ..
  have "mapItemsToGroups f getModTag ds rc r mods ms getTag = Some groups'"
    using G by (rule conjunct1)
  then have geq: "groups' = groups" using res by simp
  have cov: "\<forall>bucket\<in>set (energyGroups_of ?M). \<forall>x\<in>set bucket.
           (\<forall>y\<in>set bucket. \<not> better rc ?req y x)
           \<longrightarrow> (\<exists>g\<in>set groups'. dimItem x \<in> set (items g))"
    using G by (elim conjE)
  from cov bk have "\<forall>x\<in>set bucket.
           (\<forall>y\<in>set bucket. \<not> better rc ?req y x)
           \<longrightarrow> (\<exists>g\<in>set groups'. dimItem x \<in> set (items g))" by (rule bspec)
  from this ab have "(\<forall>y\<in>set bucket. \<not> better rc ?req y ?ma)
           \<longrightarrow> (\<exists>g\<in>set groups'. dimItem ?ma \<in> set (items g))" by (rule bspec)
  then have "\<exists>g\<in>set groups'. dimItem ?ma \<in> set (items g)" using au by (rule mp)
  then show "\<exists>g\<in>set groups. a \<in> set (items g)" using geq by simp
qed

section \<open>The tie-break of the specification\<close>

lemma final_key_energy:
  assumes "m1 \<in> set (mapItems f r ms ds)" and "m2 \<in> set (mapItems f r ms ds)"
      and "finalGroupingFn (buildCache rc req (mapItems f r ms ds)) (dimItem m1)
           = finalGroupingFn (buildCache rc req (mapItems f r ms ds)) (dimItem m2)"
  shows "remainingEnergyCapacity (processItem m1) = remainingEnergyCapacity (processItem m2)"
proof -
  let ?e1 = "cacheEntry rc req m1" and ?e2 = "cacheEntry rc req m2"
  have "Array_toString (stats_c ?e1) @ ''-'' @ Number_toString (energyCapacity_c ?e1)
          @ ''-'' @ join_comma (relevantModSeasons ?e1)
        = Array_toString (stats_c ?e2) @ ''-'' @ Number_toString (energyCapacity_c ?e2)
          @ ''-'' @ join_comma (relevantModSeasons ?e2)"
    using assms(3) unfolding finalGroupingFn_lookup [OF assms(1)] finalGroupingFn_lookup [OF assms(2)]
    by simp
  then have keq: "Array_toString (stats_c ?e1)
          @ CHR ''-'' # (Number_toString (energyCapacity_c ?e1) @ CHR ''-'' # join_comma (relevantModSeasons ?e1))
        = Array_toString (stats_c ?e2)
          @ CHR ''-'' # (Number_toString (energyCapacity_c ?e2) @ CHR ''-'' # join_comma (relevantModSeasons ?e2))"
    by simp
  have len: "length (stats_c ?e1) = length (stats_c ?e2)"
    by (simp add: cacheEntry_def)
  have "Number_toString (energyCapacity_c ?e1) @ CHR ''-'' # join_comma (relevantModSeasons ?e1)
        = Number_toString (energyCapacity_c ?e2) @ CHR ''-'' # join_comma (relevantModSeasons ?e2)"
    using Array_toString_split [OF len keq] by (rule conjunct2)
  then have "energyCapacity_c ?e1 = energyCapacity_c ?e2"
    using Number_toString_split not_is_digit_minus by blast
  then show ?thesis by (simp add: cacheEntry_def)
qed

lemma sorted_tiebreak_key:
  assumes "sorted (map (groupComparator_key getTag) xs)"
      and "\<forall>d\<in>set xs. energyCapacity_or_0 d = e0"
      and "\<forall>d\<in>set xs. remainingEnergyCapacity (f r ms d) = r0"
  shows "sorted (map (\<lambda>d. tiebreak_key getTag \<lparr> dimItem = d, processItem = f r ms d \<rparr>) xs)"
proof -
  let ?spec = "\<lambda>d. tiebreak_key getTag \<lparr> dimItem = d, processItem = f r ms d \<rparr>"
  have "sorted_wrt (\<lambda>x y. groupComparator_key getTag x \<le> groupComparator_key getTag y) xs"
    using assms(1) by (simp only: sorted_map)
  moreover have "?spec x \<le> ?spec y"
    if "x \<in> set xs" "y \<in> set xs" "groupComparator_key getTag x \<le> groupComparator_key getTag y"
    for x y
    using that assms(2,3) by (simp add: groupComparator_key_def tiebreak_key_def lex_le_pair)
  ultimately have "sorted_wrt (\<lambda>x y. ?spec x \<le> ?spec y) xs"
    by (rule sorted_wrt_mono_rel [rotated])
  then show ?thesis by (simp only: sorted_map)
qed

text \<open>
  Every group has a member list that is not empty and sorted by the comparator's keys, has
  the first member's process item as canonical item, holds exactly the kept items of one
  bucket that have the first member's final key, and has members of one remaining energy
  capacity.
\<close>

lemma mapItemsToGroups_members:
  "\<exists>groups.
     mapItemsToGroups f getModTag ds rc r mods ms getTag = Some groups
     \<and> (\<forall>g\<in>set groups.
           items g \<noteq> []
           \<and> sorted (map (groupComparator_key getTag) (items g))
           \<and> canonicalProcessItem g = f r ms (hd (items g))
           \<and> (\<exists>bucket keepSet.
                 bucket \<in> set (energyGroups_of (mapItems f r ms ds))
                 \<and> pruneLoop (buildCache rc (requiredModTags_of getModTag mods) (mapItems f r ms ds))
                       bucket [] = Some keepSet
                 \<and> mset (items g)
                     = mset (map dimItem (filter (\<lambda>m.
                          finalGroupingFn (buildCache rc (requiredModTags_of getModTag mods)
                              (mapItems f r ms ds)) (dimItem m)
                          = finalGroupingFn (buildCache rc (requiredModTags_of getModTag mods)
                              (mapItems f r ms ds)) (hd (items g))) keepSet)))
           \<and> (\<forall>d\<in>set (items g).
                 remainingEnergyCapacity (f r ms d) = remainingEnergyCapacity (f r ms (hd (items g)))))"
proof -
  let ?req = "requiredModTags_of getModTag mods"
  let ?M = "mapItems f r ms ds"
  let ?C = "buildCache rc ?req ?M"
  let ?key = "\<lambda>m. finalGroupingFn ?C (dimItem m)"
  from mapItemsToGroups_classes [of f getModTag ds rc r mods ms getTag]
  obtain groups where G: "mapItemsToGroups f getModTag ds rc r mods ms getTag = Some groups
     \<and> (\<forall>g\<in>set groups. \<exists>bucket keepSet grp.
           bucket \<in> set (energyGroups_of ?M)
           \<and> pruneLoop ?C bucket [] = Some keepSet
           \<and> set keepSet = {x \<in> set bucket. \<forall>y\<in>set bucket. \<not> better rc ?req y x}
           \<and> grp \<noteq> [] \<and> g = groupOf getTag grp
           \<and> mset grp = mset (filter (\<lambda>m. ?key m = ?key (hd grp)) keepSet))
     \<and> (\<forall>bucket\<in>set (energyGroups_of ?M). \<forall>x\<in>set bucket.
           (\<forall>y\<in>set bucket. \<not> better rc ?req y x)
           \<longrightarrow> (\<exists>g\<in>set groups. dimItem x \<in> set (items g)))" ..
  have res: "mapItemsToGroups f getModTag ds rc r mods ms getTag = Some groups"
    using G by (rule conjunct1)
  have cl: "\<forall>g\<in>set groups. \<exists>bucket keepSet grp.
           bucket \<in> set (energyGroups_of ?M)
           \<and> pruneLoop ?C bucket [] = Some keepSet
           \<and> set keepSet = {x \<in> set bucket. \<forall>y\<in>set bucket. \<not> better rc ?req y x}
           \<and> grp \<noteq> [] \<and> g = groupOf getTag grp
           \<and> mset grp = mset (filter (\<lambda>m. ?key m = ?key (hd grp)) keepSet)"
    using G by (elim conjE)
  have 1: "items g \<noteq> []
           \<and> sorted (map (groupComparator_key getTag) (items g))
           \<and> canonicalProcessItem g = f r ms (hd (items g))
           \<and> (\<exists>bucket keepSet.
                 bucket \<in> set (energyGroups_of ?M)
                 \<and> pruneLoop ?C bucket [] = Some keepSet
                 \<and> mset (items g)
                     = mset (map dimItem (filter (\<lambda>m. ?key m = finalGroupingFn ?C (hd (items g))) keepSet)))
           \<and> (\<forall>d\<in>set (items g).
                 remainingEnergyCapacity (f r ms d) = remainingEnergyCapacity (f r ms (hd (items g))))"
    if g: "g \<in> set groups" for g
  proof -
    from cl g have "\<exists>bucket keepSet grp.
           bucket \<in> set (energyGroups_of ?M)
           \<and> pruneLoop ?C bucket [] = Some keepSet
           \<and> set keepSet = {x \<in> set bucket. \<forall>y\<in>set bucket. \<not> better rc ?req y x}
           \<and> grp \<noteq> [] \<and> g = groupOf getTag grp
           \<and> mset grp = mset (filter (\<lambda>m. ?key m = ?key (hd grp)) keepSet)" by (rule bspec)
    then obtain bucket keepSet grp where F: "
           bucket \<in> set (energyGroups_of ?M)
           \<and> pruneLoop ?C bucket [] = Some keepSet
           \<and> set keepSet = {x \<in> set bucket. \<forall>y\<in>set bucket. \<not> better rc ?req y x}
           \<and> grp \<noteq> [] \<and> g = groupOf getTag grp
           \<and> mset grp = mset (filter (\<lambda>m. ?key m = ?key (hd grp)) keepSet)"
      by (elim exE)
    have b: "bucket \<in> set (energyGroups_of ?M)" using F by (elim conjE)
    have pl: "pruneLoop ?C bucket [] = Some keepSet" using F by (elim conjE)
    have mx: "set keepSet = {x \<in> set bucket. \<forall>y\<in>set bucket. \<not> better rc ?req y x}"
      using F by (elim conjE)
    have ne: "grp \<noteq> []" using F by (elim conjE)
    have geq: "g = groupOf getTag grp" using F by (elim conjE)
    have ms: "mset grp = mset (filter (\<lambda>m. ?key m = ?key (hd grp)) keepSet)"
      using F by (elim conjE)
    have sg: "set grp = set (filter (\<lambda>m. ?key m = ?key (hd grp)) keepSet)"
      using ms by (rule mset_eq_setD)
    have mem: "m \<in> set ?M \<and> processItem m = f r ms (dimItem m) \<and> ?key m = ?key (hd grp)"
      if "m \<in> set grp" for m
    proof -
      have "m \<in> set keepSet" and k: "?key m = ?key (hd grp)" using that sg by simp_all
      then have mb: "m \<in> set bucket" using mx by simp
      show ?thesis
        using bucket_member_mapped(1) [OF b mb] bucket_member_mapped(2) [OF b mb] k
        by (intro conjI)
    qed
    let ?first = "hd (Array_sort (groupComparator getTag) grp)"
    have fg: "?first \<in> set grp" using ne by (rule groupOf_first(2))
    have hd_eq: "hd (items g) = dimItem ?first"
      unfolding geq by (rule groupOf_first(3) [OF ne])
    have c1: "items g \<noteq> []" unfolding geq using ne by (rule groupOf_first(1))
    have c2: "sorted (map (groupComparator_key getTag) (items g))"
      unfolding geq by (rule groupOf_sorted)
    have "processItem ?first = f r ms (dimItem ?first)" using mem [OF fg] by (elim conjE)
    then have c3: "canonicalProcessItem g = f r ms (hd (items g))"
      unfolding hd_eq unfolding geq groupOf_first(4) [OF ne] .
    have kf: "finalGroupingFn ?C (hd (items g)) = ?key (hd grp)"
      unfolding hd_eq using mem [OF fg] by (elim conjE)
    have "mset (items g) = image_mset dimItem (mset grp)"
      unfolding geq items_groupOf by simp
    also have "\<dots> = mset (map dimItem (filter (\<lambda>m. ?key m = ?key (hd grp)) keepSet))"
      unfolding ms by simp
    finally have c4: "mset (items g)
        = mset (map dimItem (filter (\<lambda>m. ?key m = finalGroupingFn ?C (hd (items g))) keepSet))"
      unfolding kf .
    have c5: "\<forall>d\<in>set (items g).
                 remainingEnergyCapacity (f r ms d) = remainingEnergyCapacity (f r ms (hd (items g)))"
    proof
      fix d assume "d \<in> set (items g)"
      then have "d \<in> dimItem ` set grp" unfolding geq set_items_groupOf .
      then obtain m where m: "m \<in> set grp" and dm: "dimItem m = d" by auto
      have mM: "m \<in> set ?M" and mp: "processItem m = f r ms (dimItem m)"
        and mk: "?key m = ?key (hd grp)" using mem [OF m] by simp_all
      have fM: "?first \<in> set ?M" and fp: "processItem ?first = f r ms (dimItem ?first)"
        and fk: "?key ?first = ?key (hd grp)" using mem [OF fg] by simp_all
      have "?key m = ?key ?first" using mk fk by simp
      with mM fM have "remainingEnergyCapacity (processItem m)
                       = remainingEnergyCapacity (processItem ?first)"
        by (rule final_key_energy)
      then show "remainingEnergyCapacity (f r ms d) = remainingEnergyCapacity (f r ms (hd (items g)))"
        unfolding hd_eq using mp fp dm by simp
    qed
    show ?thesis
    proof (intro conjI)
      show "items g \<noteq> []" by (rule c1)
      show "sorted (map (groupComparator_key getTag) (items g))" by (rule c2)
      show "canonicalProcessItem g = f r ms (hd (items g))" by (rule c3)
      show "\<exists>bucket keepSet.
                 bucket \<in> set (energyGroups_of ?M)
                 \<and> pruneLoop ?C bucket [] = Some keepSet
                 \<and> mset (items g)
                     = mset (map dimItem (filter (\<lambda>m. ?key m = finalGroupingFn ?C (hd (items g))) keepSet))"
        using b pl c4 by (intro exI conjI)
      show "\<forall>d\<in>set (items g).
                 remainingEnergyCapacity (f r ms d) = remainingEnergyCapacity (f r ms (hd (items g)))"
        by (rule c5)
    qed
  qed
  show ?thesis
  proof (intro exI conjI)
    show "mapItemsToGroups f getModTag ds rc r mods ms getTag = Some groups" by (rule res)
    show "\<forall>g\<in>set groups.
           items g \<noteq> []
           \<and> sorted (map (groupComparator_key getTag) (items g))
           \<and> canonicalProcessItem g = f r ms (hd (items g))
           \<and> (\<exists>bucket keepSet.
                 bucket \<in> set (energyGroups_of ?M)
                 \<and> pruneLoop ?C bucket [] = Some keepSet
                 \<and> mset (items g)
                     = mset (map dimItem (filter (\<lambda>m. ?key m = finalGroupingFn ?C (hd (items g))) keepSet)))
           \<and> (\<forall>d\<in>set (items g).
                 remainingEnergyCapacity (f r ms d) = remainingEnergyCapacity (f r ms (hd (items g))))"
      using 1 by (rule ballI)
  qed
qed

section \<open>The owned twin and the vendor twin\<close>

lemma owned_before_vendor:
  assumes "energyCapacity_or_0 ven \<le> energyCapacity_or_0 own"
      and "vendor own = None" and "vendor ven \<noteq> None"
  shows "groupComparator_key getTag own < groupComparator_key getTag ven"
  using assms by (auto simp: groupComparator_key_def)

lemma twins_two_item_slot:
  assumes ex: "\<not> isExotic (f r ms own)" "\<not> isExotic (f r ms ven)"
      and eq: "cacheEntry rc (requiredModTags_of getModTag mods) \<lparr> dimItem = own, processItem = f r ms own \<rparr>
               = cacheEntry rc (requiredModTags_of getModTag mods) \<lparr> dimItem = ven, processItem = f r ms ven \<rparr>"
      and ec: "energyCapacity_or_0 ven \<le> energyCapacity_or_0 own"
      and vo: "vendor own = None" and vv: "vendor ven \<noteq> None"
  shows "pruneLoop (buildCache rc (requiredModTags_of getModTag mods) (mapItems f r ms [own, ven]))
             (mapItems f r ms [own, ven]) [] = Some (mapItems f r ms [own, ven])
         \<and> pruneLoop (buildCache rc (requiredModTags_of getModTag mods) (mapItems f r ms [ven, own]))
             (mapItems f r ms [ven, own]) [] = Some (mapItems f r ms [ven, own])
         \<and> mapItemsToGroups f getModTag [own, ven] rc r mods ms getTag
             = Some [\<lparr> canonicalProcessItem = f r ms own, items = [own, ven] \<rparr>]
         \<and> mapItemsToGroups f getModTag [ven, own] rc r mods ms getTag
             = Some [\<lparr> canonicalProcessItem = f r ms own, items = [own, ven] \<rparr>]"
proof -
  have g1: "groupOf getTag (mapItems f r ms [own, ven])
            = \<lparr> canonicalProcessItem = f r ms own, items = [own, ven] \<rparr>"
    using groupOf_owned_vendor(1) [OF ec vo vv, of getTag "f r ms own" "f r ms ven"]
    by (simp add: mapItems_def)
  have g2: "groupOf getTag (mapItems f r ms [ven, own])
            = \<lparr> canonicalProcessItem = f r ms own, items = [own, ven] \<rparr>"
    using groupOf_owned_vendor(2) [OF ec vo vv, of getTag "f r ms ven" "f r ms own"]
    by (simp add: mapItems_def)
  show ?thesis
    using two_items_groups(1) [where f = f and r = r and ms = ms and x = own and y = ven, OF ex eq]
      two_items_groups(1) [where f = f and r = r and ms = ms and x = ven and y = own,
        OF ex(2) ex(1) eq [symmetric]]
      two_items_groups(2) [where f = f and r = r and ms = ms and x = own and y = ven
        and getTag = getTag, OF ex eq]
      two_items_groups(2) [where f = f and r = r and ms = ms and x = ven and y = own
        and getTag = getTag, OF ex(2) ex(1) eq [symmetric]]
    unfolding g1 g2 by (intro conjI)
qed

lemma twins_any_slot:
  assumes res: "mapItemsToGroups f getModTag ds rc r mods ms getTag = Some groups"
      and g: "g \<in> set groups"
      and ne: "items g \<noteq> []"
      and srt: "sorted (map (groupComparator_key getTag) (items g))"
      and can: "canonicalProcessItem g = f r ms (hd (items g))"
      and own: "own \<in> set ds" and ven: "ven \<in> set ds"
      and ex: "\<not> isExotic (f r ms own)" "\<not> isExotic (f r ms ven)"
      and eq: "cacheEntry rc (requiredModTags_of getModTag mods) \<lparr> dimItem = own, processItem = f r ms own \<rparr>
               = cacheEntry rc (requiredModTags_of getModTag mods) \<lparr> dimItem = ven, processItem = f r ms ven \<rparr>"
      and ec: "energyCapacity_or_0 ven \<le> energyCapacity_or_0 own"
      and vo: "vendor own = None" and vv: "vendor ven \<noteq> None"
  shows "(own \<in> set (items g) \<longleftrightarrow> ven \<in> set (items g))
         \<and> (own \<in> set (items g) \<longrightarrow>
               hd (items g) \<noteq> ven
               \<and> (\<forall>i<length (items g). \<forall>j<length (items g).
                     items g ! i = own \<and> items g ! j = ven \<longrightarrow> i < j)
               \<and> ((\<forall>d\<in>set (items g). d \<noteq> own
                       \<longrightarrow> groupComparator_key getTag own < groupComparator_key getTag d)
                    \<longrightarrow> hd (items g) = own \<and> canonicalProcessItem g = f r ms own))"
proof (intro conjI impI)
  show "own \<in> set (items g) \<longleftrightarrow> ven \<in> set (items g)"
  proof
    assume "own \<in> set (items g)"
    with res g show "ven \<in> set (items g)" using ven ex eq by (rule twins_merge)
  next
    assume "ven \<in> set (items g)"
    with res g show "own \<in> set (items g)" using own ex(2) ex(1) eq [symmetric] by (rule twins_merge)
  qed
next
  assume og: "own \<in> set (items g)"
  have lt: "groupComparator_key getTag own < groupComparator_key getTag ven"
    using ec vo vv by (rule owned_before_vendor)
  have "groupComparator_key getTag (hd (items g)) \<le> groupComparator_key getTag own"
    using srt og by (rule sorted_key_hd)
  then have "groupComparator_key getTag (hd (items g)) < groupComparator_key getTag ven"
    using lt by (rule le_less_trans)
  then show "hd (items g) \<noteq> ven" by auto
next
  assume og: "own \<in> set (items g)"
  have lt: "groupComparator_key getTag own < groupComparator_key getTag ven"
    using ec vo vv by (rule owned_before_vendor)
  show "\<forall>i<length (items g). \<forall>j<length (items g).
          items g ! i = own \<and> items g ! j = ven \<longrightarrow> i < j"
  proof (intro allI impI)
    fix i j
    assume i: "i < length (items g)" and j: "j < length (items g)"
      and ij: "items g ! i = own \<and> items g ! j = ven"
    have io: "items g ! i = own" and jv: "items g ! j = ven" using ij by simp_all
    from srt lt i j io jv show "i < j" by (rule sorted_key_before)
  qed
next
  assume og: "own \<in> set (items g)"
    and first: "\<forall>d\<in>set (items g). d \<noteq> own
                  \<longrightarrow> groupComparator_key getTag own < groupComparator_key getTag d"
  have le: "groupComparator_key getTag (hd (items g)) \<le> groupComparator_key getTag own"
    using srt og by (rule sorted_key_hd)
  have "hd (items g) \<in> set (items g)" using ne by (rule hd_in_set)
  with first have "hd (items g) \<noteq> own
      \<longrightarrow> groupComparator_key getTag own < groupComparator_key getTag (hd (items g))"
    by (rule bspec)
  then show h: "hd (items g) = own" using le by auto
  show "canonicalProcessItem g = f r ms own" using can h by simp
qed

text \<open>
  Claim C8, as amended.  \<^verbatim>\<open>mapItemsToGroups\<close> returns, and in each of its groups the member
  list is not empty and sorted by the lexicographic tie-break that the code applies: higher
  energy capacity of the item itself (\<^verbatim>\<open>dimItem.energy.energyCapacity\<close>, 0 if absent) first,
  then owned before vendor-sourced, then favorited, then higher power, then equipped.  The
  canonical process item is that of the first member, and the member list retains every
  member: it holds exactly the kept items of one bucket that have the first member's final
  grouping key, each as often as it is kept.  Where the members of a group have the same
  item energy capacity, the list is also sorted by the tie-break as the specification
  words it.

  In particular, take two legendaries that agree on the constrained stats, the remaining
  energy, the relevant mod tags and the artifice flag, one owned and one vendor-sourced,
  the owned one's item energy capacity being no lower.  When they are the slot's items, in
  either order, both survive pruning and form the one group, the owned one first and
  representative.  When they are among the items of any slot, the owned one survives
  exactly when no legendary of the slot dominates it; a group has both or neither as
  members; and in a group that has them the owned one comes before the vendor one, the
  vendor one is not the first member, and the owned one is first and representative
  whenever it precedes every other member in the tie-break.
\<close>

theorem group_order_and_representative:
  "\<exists>groups.
     mapItemsToGroups f getModTag ds rc r mods ms getTag = Some groups
     \<and> (\<forall>g\<in>set groups.
           items g \<noteq> []
           \<and> sorted (map (groupComparator_key getTag) (items g))
           \<and> canonicalProcessItem g = f r ms (hd (items g))
           \<and> (\<exists>bucket keepSet.
                 bucket \<in> set (energyGroups_of (mapItems f r ms ds))
                 \<and> pruneLoop (buildCache rc (requiredModTags_of getModTag mods) (mapItems f r ms ds))
                       bucket [] = Some keepSet
                 \<and> mset (items g)
                     = mset (map dimItem (filter (\<lambda>m.
                          finalGroupingFn (buildCache rc (requiredModTags_of getModTag mods)
                              (mapItems f r ms ds)) (dimItem m)
                          = finalGroupingFn (buildCache rc (requiredModTags_of getModTag mods)
                              (mapItems f r ms ds)) (hd (items g))) keepSet)))
           \<and> ((\<forall>d\<in>set (items g). energyCapacity_or_0 d = energyCapacity_or_0 (hd (items g)))
                \<longrightarrow> sorted (map (\<lambda>d. tiebreak_key getTag \<lparr> dimItem = d, processItem = f r ms d \<rparr>)
                              (items g))))
     \<and> (\<not> isExotic (f r ms own) \<and> \<not> isExotic (f r ms ven)
        \<and> map (\<lambda>c. stats (f r ms own) (statHash c)) rc = map (\<lambda>c. stats (f r ms ven) (statHash c)) rc
        \<and> remainingEnergyCapacity (f r ms own) = remainingEnergyCapacity (f r ms ven)
        \<and> relevantTags (requiredModTags_of getModTag mods) (f r ms own)
            = relevantTags (requiredModTags_of getModTag mods) (f r ms ven)
        \<and> isArtifice (f r ms own) = isArtifice (f r ms ven)
        \<and> energyCapacity_or_0 ven \<le> energyCapacity_or_0 own
        \<and> vendor own = None \<and> vendor ven \<noteq> None
       \<longrightarrow>
         pruneLoop (buildCache rc (requiredModTags_of getModTag mods) (mapItems f r ms [own, ven]))
             (mapItems f r ms [own, ven]) [] = Some (mapItems f r ms [own, ven])
         \<and> pruneLoop (buildCache rc (requiredModTags_of getModTag mods) (mapItems f r ms [ven, own]))
             (mapItems f r ms [ven, own]) [] = Some (mapItems f r ms [ven, own])
         \<and> mapItemsToGroups f getModTag [own, ven] rc r mods ms getTag
             = Some [\<lparr> canonicalProcessItem = f r ms own, items = [own, ven] \<rparr>]
         \<and> mapItemsToGroups f getModTag [ven, own] rc r mods ms getTag
             = Some [\<lparr> canonicalProcessItem = f r ms own, items = [own, ven] \<rparr>]
         \<and> (own \<in> set ds \<and> ven \<in> set ds
              \<longrightarrow>
                ((\<exists>g\<in>set groups. own \<in> set (items g))
                 \<longleftrightarrow> (\<forall>d\<in>set ds. \<not> isExotic (f r ms d)
                        \<longrightarrow> \<not> dominates rc (requiredModTags_of getModTag mods) (f r ms d) (f r ms own)))
                \<and> (\<forall>g\<in>set groups.
                      (own \<in> set (items g) \<longleftrightarrow> ven \<in> set (items g))
                      \<and> (own \<in> set (items g) \<longrightarrow>
                            hd (items g) \<noteq> ven
                            \<and> (\<forall>i<length (items g). \<forall>j<length (items g).
                                  items g ! i = own \<and> items g ! j = ven \<longrightarrow> i < j)
                            \<and> ((\<forall>d\<in>set (items g). d \<noteq> own
                                    \<longrightarrow> groupComparator_key getTag own < groupComparator_key getTag d)
                                 \<longrightarrow> hd (items g) = own \<and> canonicalProcessItem g = f r ms own)))))"
proof -
  let ?req = "requiredModTags_of getModTag mods"
  let ?M = "mapItems f r ms ds"
  let ?C = "buildCache rc ?req ?M"
  let ?mo = "\<lparr> dimItem = own, processItem = f r ms own \<rparr>"
  let ?mv = "\<lparr> dimItem = ven, processItem = f r ms ven \<rparr>"
  let ?members = "\<lambda>g. items g \<noteq> []
           \<and> sorted (map (groupComparator_key getTag) (items g))
           \<and> canonicalProcessItem g = f r ms (hd (items g))
           \<and> (\<exists>bucket keepSet.
                 bucket \<in> set (energyGroups_of ?M)
                 \<and> pruneLoop ?C bucket [] = Some keepSet
                 \<and> mset (items g)
                     = mset (map dimItem (filter (\<lambda>m. finalGroupingFn ?C (dimItem m)
                            = finalGroupingFn ?C (hd (items g))) keepSet)))
           \<and> (\<forall>d\<in>set (items g).
                 remainingEnergyCapacity (f r ms d) = remainingEnergyCapacity (f r ms (hd (items g))))"
  from mapItemsToGroups_members [of f getModTag ds rc r mods ms getTag]
  obtain groups where G: "mapItemsToGroups f getModTag ds rc r mods ms getTag = Some groups
     \<and> (\<forall>g\<in>set groups. ?members g)" ..
  have res: "mapItemsToGroups f getModTag ds rc r mods ms getTag = Some groups"
    using G by (rule conjunct1)
  have all: "\<forall>g\<in>set groups. ?members g" using G by (rule conjunct2)
  have members: "?members g" if "g \<in> set groups" for g
    using all that by (rule bspec)
  have part1: "items g \<noteq> []
           \<and> sorted (map (groupComparator_key getTag) (items g))
           \<and> canonicalProcessItem g = f r ms (hd (items g))
           \<and> (\<exists>bucket keepSet.
                 bucket \<in> set (energyGroups_of ?M)
                 \<and> pruneLoop ?C bucket [] = Some keepSet
                 \<and> mset (items g)
                     = mset (map dimItem (filter (\<lambda>m. finalGroupingFn ?C (dimItem m)
                            = finalGroupingFn ?C (hd (items g))) keepSet)))
           \<and> ((\<forall>d\<in>set (items g). energyCapacity_or_0 d = energyCapacity_or_0 (hd (items g)))
                \<longrightarrow> sorted (map (\<lambda>d. tiebreak_key getTag \<lparr> dimItem = d, processItem = f r ms d \<rparr>)
                              (items g)))"
    if g: "g \<in> set groups" for g
  proof -
    note m = members [OF g]
    have c1: "items g \<noteq> []" using m by (elim conjE)
    have c2: "sorted (map (groupComparator_key getTag) (items g))" using m by (elim conjE)
    have c3: "canonicalProcessItem g = f r ms (hd (items g))" using m by (elim conjE)
    have c4: "\<exists>bucket keepSet.
                 bucket \<in> set (energyGroups_of ?M)
                 \<and> pruneLoop ?C bucket [] = Some keepSet
                 \<and> mset (items g)
                     = mset (map dimItem (filter (\<lambda>m. finalGroupingFn ?C (dimItem m)
                            = finalGroupingFn ?C (hd (items g))) keepSet))" using m by (elim conjE)
    have c5: "\<forall>d\<in>set (items g).
                 remainingEnergyCapacity (f r ms d) = remainingEnergyCapacity (f r ms (hd (items g)))"
      using m by (elim conjE)
    have c6: "(\<forall>d\<in>set (items g). energyCapacity_or_0 d = energyCapacity_or_0 (hd (items g)))
                \<longrightarrow> sorted (map (\<lambda>d. tiebreak_key getTag \<lparr> dimItem = d, processItem = f r ms d \<rparr>)
                              (items g))"
    proof
      assume "\<forall>d\<in>set (items g). energyCapacity_or_0 d = energyCapacity_or_0 (hd (items g))"
      with c2 show "sorted (map (\<lambda>d. tiebreak_key getTag \<lparr> dimItem = d, processItem = f r ms d \<rparr>)
                              (items g))"
        using c5 by (rule sorted_tiebreak_key)
    qed
    show ?thesis using c1 c2 c3 c4 c6 by (intro conjI)
  qed
  let ?twins = "pruneLoop (buildCache rc ?req (mapItems f r ms [own, ven]))
             (mapItems f r ms [own, ven]) [] = Some (mapItems f r ms [own, ven])
         \<and> pruneLoop (buildCache rc ?req (mapItems f r ms [ven, own]))
             (mapItems f r ms [ven, own]) [] = Some (mapItems f r ms [ven, own])
         \<and> mapItemsToGroups f getModTag [own, ven] rc r mods ms getTag
             = Some [\<lparr> canonicalProcessItem = f r ms own, items = [own, ven] \<rparr>]
         \<and> mapItemsToGroups f getModTag [ven, own] rc r mods ms getTag
             = Some [\<lparr> canonicalProcessItem = f r ms own, items = [own, ven] \<rparr>]
         \<and> (own \<in> set ds \<and> ven \<in> set ds
              \<longrightarrow>
                ((\<exists>g\<in>set groups. own \<in> set (items g))
                 \<longleftrightarrow> (\<forall>d\<in>set ds. \<not> isExotic (f r ms d)
                        \<longrightarrow> \<not> dominates rc ?req (f r ms d) (f r ms own)))
                \<and> (\<forall>g\<in>set groups.
                      (own \<in> set (items g) \<longleftrightarrow> ven \<in> set (items g))
                      \<and> (own \<in> set (items g) \<longrightarrow>
                            hd (items g) \<noteq> ven
                            \<and> (\<forall>i<length (items g). \<forall>j<length (items g).
                                  items g ! i = own \<and> items g ! j = ven \<longrightarrow> i < j)
                            \<and> ((\<forall>d\<in>set (items g). d \<noteq> own
                                    \<longrightarrow> groupComparator_key getTag own < groupComparator_key getTag d)
                                 \<longrightarrow> hd (items g) = own \<and> canonicalProcessItem g = f r ms own))))"
  have part2: "?twins"
    if ex: "\<not> isExotic (f r ms own)" "\<not> isExotic (f r ms ven)"
      and st: "map (\<lambda>c. stats (f r ms own) (statHash c)) rc = map (\<lambda>c. stats (f r ms ven) (statHash c)) rc"
      and en: "remainingEnergyCapacity (f r ms own) = remainingEnergyCapacity (f r ms ven)"
      and tg: "relevantTags ?req (f r ms own) = relevantTags ?req (f r ms ven)"
      and ar: "isArtifice (f r ms own) = isArtifice (f r ms ven)"
      and ec: "energyCapacity_or_0 ven \<le> energyCapacity_or_0 own"
      and vo: "vendor own = None" and vv: "vendor ven \<noteq> None"
  proof -
    have eq: "cacheEntry rc ?req ?mo = cacheEntry rc ?req ?mv"
      by (rule cacheEntry_eqI) (simp_all add: st en tg ar)
    note two = twins_two_item_slot [where f = f and r = r and ms = ms and own = own and ven = ven
        and getTag = getTag, OF ex eq ec vo vv]
    have general: "((\<exists>g\<in>set groups. own \<in> set (items g))
                 \<longleftrightarrow> (\<forall>d\<in>set ds. \<not> isExotic (f r ms d)
                        \<longrightarrow> \<not> dominates rc ?req (f r ms d) (f r ms own)))
                \<and> (\<forall>g\<in>set groups.
                      (own \<in> set (items g) \<longleftrightarrow> ven \<in> set (items g))
                      \<and> (own \<in> set (items g) \<longrightarrow>
                            hd (items g) \<noteq> ven
                            \<and> (\<forall>i<length (items g). \<forall>j<length (items g).
                                  items g ! i = own \<and> items g ! j = ven \<longrightarrow> i < j)
                            \<and> ((\<forall>d\<in>set (items g). d \<noteq> own
                                    \<longrightarrow> groupComparator_key getTag own < groupComparator_key getTag d)
                                 \<longrightarrow> hd (items g) = own \<and> canonicalProcessItem g = f r ms own)))"
      if own: "own \<in> set ds" and ven: "ven \<in> set ds"
    proof (rule conjI)
      show "(\<exists>g\<in>set groups. own \<in> set (items g))
                 \<longleftrightarrow> (\<forall>d\<in>set ds. \<not> isExotic (f r ms d)
                        \<longrightarrow> \<not> dominates rc ?req (f r ms d) (f r ms own))"
        by (rule legendary_survives_iff [where f = f and r = r and ms = ms and a = own,
              OF res own ex(1)])
      show "\<forall>g\<in>set groups.
                      (own \<in> set (items g) \<longleftrightarrow> ven \<in> set (items g))
                      \<and> (own \<in> set (items g) \<longrightarrow>
                            hd (items g) \<noteq> ven
                            \<and> (\<forall>i<length (items g). \<forall>j<length (items g).
                                  items g ! i = own \<and> items g ! j = ven \<longrightarrow> i < j)
                            \<and> ((\<forall>d\<in>set (items g). d \<noteq> own
                                    \<longrightarrow> groupComparator_key getTag own < groupComparator_key getTag d)
                                 \<longrightarrow> hd (items g) = own \<and> canonicalProcessItem g = f r ms own))"
      proof
        fix g assume g: "g \<in> set groups"
        note m = members [OF g]
        have c1: "items g \<noteq> []" using m by (elim conjE)
        have c2: "sorted (map (groupComparator_key getTag) (items g))" using m by (elim conjE)
        have c3: "canonicalProcessItem g = f r ms (hd (items g))" using m by (elim conjE)
        show "(own \<in> set (items g) \<longleftrightarrow> ven \<in> set (items g))
                      \<and> (own \<in> set (items g) \<longrightarrow>
                            hd (items g) \<noteq> ven
                            \<and> (\<forall>i<length (items g). \<forall>j<length (items g).
                                  items g ! i = own \<and> items g ! j = ven \<longrightarrow> i < j)
                            \<and> ((\<forall>d\<in>set (items g). d \<noteq> own
                                    \<longrightarrow> groupComparator_key getTag own < groupComparator_key getTag d)
                                 \<longrightarrow> hd (items g) = own \<and> canonicalProcessItem g = f r ms own))"
          by (rule twins_any_slot [where f = f and r = r and ms = ms and ds = ds and own = own
                and ven = ven, OF res g c1 c2 c3 own ven ex eq ec vo vv])
      qed
    qed
    have gen: "own \<in> set ds \<and> ven \<in> set ds
              \<longrightarrow>
                ((\<exists>g\<in>set groups. own \<in> set (items g))
                 \<longleftrightarrow> (\<forall>d\<in>set ds. \<not> isExotic (f r ms d)
                        \<longrightarrow> \<not> dominates rc ?req (f r ms d) (f r ms own)))
                \<and> (\<forall>g\<in>set groups.
                      (own \<in> set (items g) \<longleftrightarrow> ven \<in> set (items g))
                      \<and> (own \<in> set (items g) \<longrightarrow>
                            hd (items g) \<noteq> ven
                            \<and> (\<forall>i<length (items g). \<forall>j<length (items g).
                                  items g ! i = own \<and> items g ! j = ven \<longrightarrow> i < j)
                            \<and> ((\<forall>d\<in>set (items g). d \<noteq> own
                                    \<longrightarrow> groupComparator_key getTag own < groupComparator_key getTag d)
                                 \<longrightarrow> hd (items g) = own \<and> canonicalProcessItem g = f r ms own)))"
    proof (rule impI, elim conjE)
      assume "own \<in> set ds" "ven \<in> set ds"
      then show "((\<exists>g\<in>set groups. own \<in> set (items g))
                 \<longleftrightarrow> (\<forall>d\<in>set ds. \<not> isExotic (f r ms d)
                        \<longrightarrow> \<not> dominates rc ?req (f r ms d) (f r ms own)))
                \<and> (\<forall>g\<in>set groups.
                      (own \<in> set (items g) \<longleftrightarrow> ven \<in> set (items g))
                      \<and> (own \<in> set (items g) \<longrightarrow>
                            hd (items g) \<noteq> ven
                            \<and> (\<forall>i<length (items g). \<forall>j<length (items g).
                                  items g ! i = own \<and> items g ! j = ven \<longrightarrow> i < j)
                            \<and> ((\<forall>d\<in>set (items g). d \<noteq> own
                                    \<longrightarrow> groupComparator_key getTag own < groupComparator_key getTag d)
                                 \<longrightarrow> hd (items g) = own \<and> canonicalProcessItem g = f r ms own)))"
        by (rule general)
    qed
    show ?thesis
      using two gen by (elim conjE) (intro conjI)
  qed
  show ?thesis
  proof (intro exI conjI)
    show "mapItemsToGroups f getModTag ds rc r mods ms getTag = Some groups" by (rule res)
    show "\<forall>g\<in>set groups.
           items g \<noteq> []
           \<and> sorted (map (groupComparator_key getTag) (items g))
           \<and> canonicalProcessItem g = f r ms (hd (items g))
           \<and> (\<exists>bucket keepSet.
                 bucket \<in> set (energyGroups_of ?M)
                 \<and> pruneLoop ?C bucket [] = Some keepSet
                 \<and> mset (items g)
                     = mset (map dimItem (filter (\<lambda>m. finalGroupingFn ?C (dimItem m)
                            = finalGroupingFn ?C (hd (items g))) keepSet)))
           \<and> ((\<forall>d\<in>set (items g). energyCapacity_or_0 d = energyCapacity_or_0 (hd (items g)))
                \<longrightarrow> sorted (map (\<lambda>d. tiebreak_key getTag \<lparr> dimItem = d, processItem = f r ms d \<rparr>)
                              (items g)))"
      using part1 by (rule ballI)
    show "\<not> isExotic (f r ms own) \<and> \<not> isExotic (f r ms ven)
        \<and> map (\<lambda>c. stats (f r ms own) (statHash c)) rc = map (\<lambda>c. stats (f r ms ven) (statHash c)) rc
        \<and> remainingEnergyCapacity (f r ms own) = remainingEnergyCapacity (f r ms ven)
        \<and> relevantTags ?req (f r ms own)
            = relevantTags ?req (f r ms ven)
        \<and> isArtifice (f r ms own) = isArtifice (f r ms ven)
        \<and> energyCapacity_or_0 ven \<le> energyCapacity_or_0 own
        \<and> vendor own = None \<and> vendor ven \<noteq> None
       \<longrightarrow>
         pruneLoop (buildCache rc ?req (mapItems f r ms [own, ven]))
             (mapItems f r ms [own, ven]) [] = Some (mapItems f r ms [own, ven])
         \<and> pruneLoop (buildCache rc ?req (mapItems f r ms [ven, own]))
             (mapItems f r ms [ven, own]) [] = Some (mapItems f r ms [ven, own])
         \<and> mapItemsToGroups f getModTag [own, ven] rc r mods ms getTag
             = Some [\<lparr> canonicalProcessItem = f r ms own, items = [own, ven] \<rparr>]
         \<and> mapItemsToGroups f getModTag [ven, own] rc r mods ms getTag
             = Some [\<lparr> canonicalProcessItem = f r ms own, items = [own, ven] \<rparr>]
         \<and> (own \<in> set ds \<and> ven \<in> set ds
              \<longrightarrow>
                ((\<exists>g\<in>set groups. own \<in> set (items g))
                 \<longleftrightarrow> (\<forall>d\<in>set ds. \<not> isExotic (f r ms d)
                        \<longrightarrow> \<not> dominates rc ?req (f r ms d) (f r ms own)))
                \<and> (\<forall>g\<in>set groups.
                      (own \<in> set (items g) \<longleftrightarrow> ven \<in> set (items g))
                      \<and> (own \<in> set (items g) \<longrightarrow>
                            hd (items g) \<noteq> ven
                            \<and> (\<forall>i<length (items g). \<forall>j<length (items g).
                                  items g ! i = own \<and> items g ! j = ven \<longrightarrow> i < j)
                            \<and> ((\<forall>d\<in>set (items g). d \<noteq> own
                                    \<longrightarrow> groupComparator_key getTag own < groupComparator_key getTag d)
                                 \<longrightarrow> hd (items g) = own \<and> canonicalProcessItem g = f r ms own))))"
    proof (rule impI, elim conjE)
      assume "\<not> isExotic (f r ms own)" "\<not> isExotic (f r ms ven)"
        "map (\<lambda>c. stats (f r ms own) (statHash c)) rc = map (\<lambda>c. stats (f r ms ven) (statHash c)) rc"
        "remainingEnergyCapacity (f r ms own) = remainingEnergyCapacity (f r ms ven)"
        "relevantTags ?req (f r ms own) = relevantTags ?req (f r ms ven)"
        "isArtifice (f r ms own) = isArtifice (f r ms ven)"
        "energyCapacity_or_0 ven \<le> energyCapacity_or_0 own"
        "vendor own = None" "vendor ven \<noteq> None"
      then show "?twins" by (rule part2)
    qed
  qed
qed

theorem group_order_and_representative_witness:
  "\<exists>groups.
     mapItemsToGroups ex_mapper ex_getModTag ex_armor ex_constraints () ex_mods () None = Some groups
     \<and> groups = [\<lparr> canonicalProcessItem = ex_mapper () () (ex_item ''H1'' True 1810),
                    items = [ex_item ''H1'' True 1810, ex_item ''H2'' False 1810] \<rparr>,
                  \<lparr> canonicalProcessItem = ex_mapper () () (ex_item ''X'' True 1810),
                    items = [ex_item ''X'' True 1810] \<rparr>]
     \<and> (\<forall>g\<in>set groups.
           items g \<noteq> []
           \<and> sorted (map (groupComparator_key None) (items g))
           \<and> canonicalProcessItem g = ex_mapper () () (hd (items g))
           \<and> sorted (map (\<lambda>d. tiebreak_key None \<lparr> dimItem = d, processItem = ex_mapper () () d \<rparr>)
                              (items g)))
     \<and> pruneLoop (buildCache ex_constraints (requiredModTags_of ex_getModTag ex_mods) (mapItems ex_mapper () () [(ex_item ''H2'' False 1810), (ex_item ''H1'' True 1810)]))
             (mapItems ex_mapper () () [(ex_item ''H2'' False 1810), (ex_item ''H1'' True 1810)]) [] = Some (mapItems ex_mapper () () [(ex_item ''H2'' False 1810), (ex_item ''H1'' True 1810)])
     \<and> mapItemsToGroups ex_mapper ex_getModTag [(ex_item ''H2'' False 1810), (ex_item ''H1'' True 1810)] ex_constraints () ex_mods () None
             = Some [\<lparr> canonicalProcessItem = ex_mapper () () (ex_item ''H1'' True 1810), items = [(ex_item ''H1'' True 1810), (ex_item ''H2'' False 1810)] \<rparr>]
     \<and> (\<exists>g\<in>set groups.
           (ex_item ''H1'' True 1810) \<in> set (items g) \<and> (ex_item ''H2'' False 1810) \<in> set (items g)
           \<and> hd (items g) = (ex_item ''H1'' True 1810) \<and> canonicalProcessItem g = ex_mapper () () (ex_item ''H1'' True 1810))"
proof -
  let ?own = "ex_item ''H1'' True 1810" and ?ven = "ex_item ''H2'' False 1810"
  note inst = group_order_and_representative [where f = ex_mapper and getModTag = ex_getModTag
      and ds = ex_armor and rc = ex_constraints and r = "()" and mods = ex_mods and ms = "()"
      and getTag = None and own = ?own and ven = ?ven]
  have hyp: "\<not> isExotic (ex_mapper () () ?own) \<and> \<not> isExotic (ex_mapper () () ?ven)
        \<and> map (\<lambda>c. stats (ex_mapper () () ?own) (statHash c)) ex_constraints = map (\<lambda>c. stats (ex_mapper () () ?ven) (statHash c)) ex_constraints
        \<and> remainingEnergyCapacity (ex_mapper () () ?own) = remainingEnergyCapacity (ex_mapper () () ?ven)
        \<and> relevantTags (requiredModTags_of ex_getModTag ex_mods) (ex_mapper () () ?own)
            = relevantTags (requiredModTags_of ex_getModTag ex_mods) (ex_mapper () () ?ven)
        \<and> isArtifice (ex_mapper () () ?own) = isArtifice (ex_mapper () () ?ven)
        \<and> energyCapacity_or_0 ?ven \<le> energyCapacity_or_0 ?own
        \<and> vendor ?own = None \<and> vendor ?ven \<noteq> None"
    by (simp add: ex_mapper_def ex_item_def ex_constraints_def relevantTags_def energyCapacity_or_0_def)
  have mem: "?own \<in> set ex_armor \<and> ?ven \<in> set ex_armor"
    by (simp add: ex_armor_def)
  from inst obtain groups where A: "mapItemsToGroups ex_mapper ex_getModTag ex_armor ex_constraints () ex_mods () None = Some groups
     \<and> (\<forall>g\<in>set groups.
           items g \<noteq> []
           \<and> sorted (map (groupComparator_key None) (items g))
           \<and> canonicalProcessItem g = ex_mapper () () (hd (items g))
           \<and> (\<exists>bucket keepSet.
                 bucket \<in> set (energyGroups_of (mapItems ex_mapper () () ex_armor))
                 \<and> pruneLoop (buildCache ex_constraints (requiredModTags_of ex_getModTag ex_mods) (mapItems ex_mapper () () ex_armor))
                       bucket [] = Some keepSet
                 \<and> mset (items g)
                     = mset (map dimItem (filter (\<lambda>m.
                          finalGroupingFn (buildCache ex_constraints (requiredModTags_of ex_getModTag ex_mods)
                              (mapItems ex_mapper () () ex_armor)) (dimItem m)
                          = finalGroupingFn (buildCache ex_constraints (requiredModTags_of ex_getModTag ex_mods)
                              (mapItems ex_mapper () () ex_armor)) (hd (items g))) keepSet)))
           \<and> ((\<forall>d\<in>set (items g). energyCapacity_or_0 d = energyCapacity_or_0 (hd (items g)))
                \<longrightarrow> sorted (map (\<lambda>d. tiebreak_key None \<lparr> dimItem = d, processItem = ex_mapper () () d \<rparr>)
                              (items g))))
     \<and> (\<not> isExotic (ex_mapper () () ?own) \<and> \<not> isExotic (ex_mapper () () ?ven)
        \<and> map (\<lambda>c. stats (ex_mapper () () ?own) (statHash c)) ex_constraints = map (\<lambda>c. stats (ex_mapper () () ?ven) (statHash c)) ex_constraints
        \<and> remainingEnergyCapacity (ex_mapper () () ?own) = remainingEnergyCapacity (ex_mapper () () ?ven)
        \<and> relevantTags (requiredModTags_of ex_getModTag ex_mods) (ex_mapper () () ?own)
            = relevantTags (requiredModTags_of ex_getModTag ex_mods) (ex_mapper () () ?ven)
        \<and> isArtifice (ex_mapper () () ?own) = isArtifice (ex_mapper () () ?ven)
        \<and> energyCapacity_or_0 ?ven \<le> energyCapacity_or_0 ?own
        \<and> vendor ?own = None \<and> vendor ?ven \<noteq> None
       \<longrightarrow>
         pruneLoop (buildCache ex_constraints (requiredModTags_of ex_getModTag ex_mods) (mapItems ex_mapper () () [?own, ?ven]))
             (mapItems ex_mapper () () [?own, ?ven]) [] = Some (mapItems ex_mapper () () [?own, ?ven])
         \<and> pruneLoop (buildCache ex_constraints (requiredModTags_of ex_getModTag ex_mods) (mapItems ex_mapper () () [?ven, ?own]))
             (mapItems ex_mapper () () [?ven, ?own]) [] = Some (mapItems ex_mapper () () [?ven, ?own])
         \<and> mapItemsToGroups ex_mapper ex_getModTag [?own, ?ven] ex_constraints () ex_mods () None
             = Some [\<lparr> canonicalProcessItem = ex_mapper () () ?own, items = [?own, ?ven] \<rparr>]
         \<and> mapItemsToGroups ex_mapper ex_getModTag [?ven, ?own] ex_constraints () ex_mods () None
             = Some [\<lparr> canonicalProcessItem = ex_mapper () () ?own, items = [?own, ?ven] \<rparr>]
         \<and> (?own \<in> set ex_armor \<and> ?ven \<in> set ex_armor
              \<longrightarrow>
                ((\<exists>g\<in>set groups. ?own \<in> set (items g))
                 \<longleftrightarrow> (\<forall>d\<in>set ex_armor. \<not> isExotic (ex_mapper () () d)
                        \<longrightarrow> \<not> dominates ex_constraints (requiredModTags_of ex_getModTag ex_mods) (ex_mapper () () d) (ex_mapper () () ?own)))
                \<and> (\<forall>g\<in>set groups.
                      (?own \<in> set (items g) \<longleftrightarrow> ?ven \<in> set (items g))
                      \<and> (?own \<in> set (items g) \<longrightarrow>
                            hd (items g) \<noteq> ?ven
                            \<and> (\<forall>i<length (items g). \<forall>j<length (items g).
                                  items g ! i = ?own \<and> items g ! j = ?ven \<longrightarrow> i < j)
                            \<and> ((\<forall>d\<in>set (items g). d \<noteq> ?own
                                    \<longrightarrow> groupComparator_key None ?own < groupComparator_key None d)
                                 \<longrightarrow> hd (items g) = ?own \<and> canonicalProcessItem g = ex_mapper () () ?own)))))" ..
  have res: "mapItemsToGroups ex_mapper ex_getModTag ex_armor ex_constraints () ex_mods () None = Some groups"
    using A by (rule conjunct1)
  have geq: "groups = [\<lparr> canonicalProcessItem = ex_mapper () () (ex_item ''H1'' True 1810),
                    items = [ex_item ''H1'' True 1810, ex_item ''H2'' False 1810] \<rparr>,
                  \<lparr> canonicalProcessItem = ex_mapper () () (ex_item ''X'' True 1810),
                    items = [ex_item ''X'' True 1810] \<rparr>]"
    using res by (simp add: ex_groups)
  have p1: "\<forall>g\<in>set groups.
           items g \<noteq> []
           \<and> sorted (map (groupComparator_key None) (items g))
           \<and> canonicalProcessItem g = ex_mapper () () (hd (items g))
           \<and> (\<exists>bucket keepSet.
                 bucket \<in> set (energyGroups_of (mapItems ex_mapper () () ex_armor))
                 \<and> pruneLoop (buildCache ex_constraints (requiredModTags_of ex_getModTag ex_mods) (mapItems ex_mapper () () ex_armor))
                       bucket [] = Some keepSet
                 \<and> mset (items g)
                     = mset (map dimItem (filter (\<lambda>m.
                          finalGroupingFn (buildCache ex_constraints (requiredModTags_of ex_getModTag ex_mods)
                              (mapItems ex_mapper () () ex_armor)) (dimItem m)
                          = finalGroupingFn (buildCache ex_constraints (requiredModTags_of ex_getModTag ex_mods)
                              (mapItems ex_mapper () () ex_armor)) (hd (items g))) keepSet)))
           \<and> ((\<forall>d\<in>set (items g). energyCapacity_or_0 d = energyCapacity_or_0 (hd (items g)))
                \<longrightarrow> sorted (map (\<lambda>d. tiebreak_key None \<lparr> dimItem = d, processItem = ex_mapper () () d \<rparr>)
                              (items g)))"
    using A by (elim conjE)
  have imp: "\<not> isExotic (ex_mapper () () ?own) \<and> \<not> isExotic (ex_mapper () () ?ven)
        \<and> map (\<lambda>c. stats (ex_mapper () () ?own) (statHash c)) ex_constraints = map (\<lambda>c. stats (ex_mapper () () ?ven) (statHash c)) ex_constraints
        \<and> remainingEnergyCapacity (ex_mapper () () ?own) = remainingEnergyCapacity (ex_mapper () () ?ven)
        \<and> relevantTags (requiredModTags_of ex_getModTag ex_mods) (ex_mapper () () ?own)
            = relevantTags (requiredModTags_of ex_getModTag ex_mods) (ex_mapper () () ?ven)
        \<and> isArtifice (ex_mapper () () ?own) = isArtifice (ex_mapper () () ?ven)
        \<and> energyCapacity_or_0 ?ven \<le> energyCapacity_or_0 ?own
        \<and> vendor ?own = None \<and> vendor ?ven \<noteq> None
       \<longrightarrow>
         pruneLoop (buildCache ex_constraints (requiredModTags_of ex_getModTag ex_mods) (mapItems ex_mapper () () [?own, ?ven]))
             (mapItems ex_mapper () () [?own, ?ven]) [] = Some (mapItems ex_mapper () () [?own, ?ven])
         \<and> pruneLoop (buildCache ex_constraints (requiredModTags_of ex_getModTag ex_mods) (mapItems ex_mapper () () [?ven, ?own]))
             (mapItems ex_mapper () () [?ven, ?own]) [] = Some (mapItems ex_mapper () () [?ven, ?own])
         \<and> mapItemsToGroups ex_mapper ex_getModTag [?own, ?ven] ex_constraints () ex_mods () None
             = Some [\<lparr> canonicalProcessItem = ex_mapper () () ?own, items = [?own, ?ven] \<rparr>]
         \<and> mapItemsToGroups ex_mapper ex_getModTag [?ven, ?own] ex_constraints () ex_mods () None
             = Some [\<lparr> canonicalProcessItem = ex_mapper () () ?own, items = [?own, ?ven] \<rparr>]
         \<and> (?own \<in> set ex_armor \<and> ?ven \<in> set ex_armor
              \<longrightarrow>
                ((\<exists>g\<in>set groups. ?own \<in> set (items g))
                 \<longleftrightarrow> (\<forall>d\<in>set ex_armor. \<not> isExotic (ex_mapper () () d)
                        \<longrightarrow> \<not> dominates ex_constraints (requiredModTags_of ex_getModTag ex_mods) (ex_mapper () () d) (ex_mapper () () ?own)))
                \<and> (\<forall>g\<in>set groups.
                      (?own \<in> set (items g) \<longleftrightarrow> ?ven \<in> set (items g))
                      \<and> (?own \<in> set (items g) \<longrightarrow>
                            hd (items g) \<noteq> ?ven
                            \<and> (\<forall>i<length (items g). \<forall>j<length (items g).
                                  items g ! i = ?own \<and> items g ! j = ?ven \<longrightarrow> i < j)
                            \<and> ((\<forall>d\<in>set (items g). d \<noteq> ?own
                                    \<longrightarrow> groupComparator_key None ?own < groupComparator_key None d)
                                 \<longrightarrow> hd (items g) = ?own \<and> canonicalProcessItem g = ex_mapper () () ?own))))"
    using A by (elim conjE)
  from imp hyp have T: "pruneLoop (buildCache ex_constraints (requiredModTags_of ex_getModTag ex_mods) (mapItems ex_mapper () () [?own, ?ven]))
             (mapItems ex_mapper () () [?own, ?ven]) [] = Some (mapItems ex_mapper () () [?own, ?ven])
         \<and> pruneLoop (buildCache ex_constraints (requiredModTags_of ex_getModTag ex_mods) (mapItems ex_mapper () () [?ven, ?own]))
             (mapItems ex_mapper () () [?ven, ?own]) [] = Some (mapItems ex_mapper () () [?ven, ?own])
         \<and> mapItemsToGroups ex_mapper ex_getModTag [?own, ?ven] ex_constraints () ex_mods () None
             = Some [\<lparr> canonicalProcessItem = ex_mapper () () ?own, items = [?own, ?ven] \<rparr>]
         \<and> mapItemsToGroups ex_mapper ex_getModTag [?ven, ?own] ex_constraints () ex_mods () None
             = Some [\<lparr> canonicalProcessItem = ex_mapper () () ?own, items = [?own, ?ven] \<rparr>]
         \<and> (?own \<in> set ex_armor \<and> ?ven \<in> set ex_armor
              \<longrightarrow>
                ((\<exists>g\<in>set groups. ?own \<in> set (items g))
                 \<longleftrightarrow> (\<forall>d\<in>set ex_armor. \<not> isExotic (ex_mapper () () d)
                        \<longrightarrow> \<not> dominates ex_constraints (requiredModTags_of ex_getModTag ex_mods) (ex_mapper () () d) (ex_mapper () () ?own)))
                \<and> (\<forall>g\<in>set groups.
                      (?own \<in> set (items g) \<longleftrightarrow> ?ven \<in> set (items g))
                      \<and> (?own \<in> set (items g) \<longrightarrow>
                            hd (items g) \<noteq> ?ven
                            \<and> (\<forall>i<length (items g). \<forall>j<length (items g).
                                  items g ! i = ?own \<and> items g ! j = ?ven \<longrightarrow> i < j)
                            \<and> ((\<forall>d\<in>set (items g). d \<noteq> ?own
                                    \<longrightarrow> groupComparator_key None ?own < groupComparator_key None d)
                                 \<longrightarrow> hd (items g) = ?own \<and> canonicalProcessItem g = ex_mapper () () ?own))))"
    by (rule mp)
  have t2: "pruneLoop (buildCache ex_constraints (requiredModTags_of ex_getModTag ex_mods) (mapItems ex_mapper () () [?ven, ?own]))
             (mapItems ex_mapper () () [?ven, ?own]) [] = Some (mapItems ex_mapper () () [?ven, ?own])"
    using T by (elim conjE)
  have t4: "mapItemsToGroups ex_mapper ex_getModTag [?ven, ?own] ex_constraints () ex_mods () None
             = Some [\<lparr> canonicalProcessItem = ex_mapper () () ?own, items = [?own, ?ven] \<rparr>]"
    using T by (elim conjE)
  have gimp: "?own \<in> set ex_armor \<and> ?ven \<in> set ex_armor
              \<longrightarrow>
                ((\<exists>g\<in>set groups. ?own \<in> set (items g))
                 \<longleftrightarrow> (\<forall>d\<in>set ex_armor. \<not> isExotic (ex_mapper () () d)
                        \<longrightarrow> \<not> dominates ex_constraints (requiredModTags_of ex_getModTag ex_mods) (ex_mapper () () d) (ex_mapper () () ?own)))
                \<and> (\<forall>g\<in>set groups.
                      (?own \<in> set (items g) \<longleftrightarrow> ?ven \<in> set (items g))
                      \<and> (?own \<in> set (items g) \<longrightarrow>
                            hd (items g) \<noteq> ?ven
                            \<and> (\<forall>i<length (items g). \<forall>j<length (items g).
                                  items g ! i = ?own \<and> items g ! j = ?ven \<longrightarrow> i < j)
                            \<and> ((\<forall>d\<in>set (items g). d \<noteq> ?own
                                    \<longrightarrow> groupComparator_key None ?own < groupComparator_key None d)
                                 \<longrightarrow> hd (items g) = ?own \<and> canonicalProcessItem g = ex_mapper () () ?own)))"
    using T by (elim conjE)
  from gimp mem have G: "((\<exists>g\<in>set groups. ?own \<in> set (items g))
                 \<longleftrightarrow> (\<forall>d\<in>set ex_armor. \<not> isExotic (ex_mapper () () d)
                        \<longrightarrow> \<not> dominates ex_constraints (requiredModTags_of ex_getModTag ex_mods) (ex_mapper () () d) (ex_mapper () () ?own)))
                \<and> (\<forall>g\<in>set groups.
                      (?own \<in> set (items g) \<longleftrightarrow> ?ven \<in> set (items g))
                      \<and> (?own \<in> set (items g) \<longrightarrow>
                            hd (items g) \<noteq> ?ven
                            \<and> (\<forall>i<length (items g). \<forall>j<length (items g).
                                  items g ! i = ?own \<and> items g ! j = ?ven \<longrightarrow> i < j)
                            \<and> ((\<forall>d\<in>set (items g). d \<noteq> ?own
                                    \<longrightarrow> groupComparator_key None ?own < groupComparator_key None d)
                                 \<longrightarrow> hd (items g) = ?own \<and> canonicalProcessItem g = ex_mapper () () ?own)))"
    by (rule mp)
  have iff: "(\<exists>g\<in>set groups. ?own \<in> set (items g))
                 \<longleftrightarrow> (\<forall>d\<in>set ex_armor. \<not> isExotic (ex_mapper () () d)
                        \<longrightarrow> \<not> dominates ex_constraints (requiredModTags_of ex_getModTag ex_mods) (ex_mapper () () d) (ex_mapper () () ?own))"
    using G by (rule conjunct1)
  have per: "\<forall>g\<in>set groups.
                      (?own \<in> set (items g) \<longleftrightarrow> ?ven \<in> set (items g))
                      \<and> (?own \<in> set (items g) \<longrightarrow>
                            hd (items g) \<noteq> ?ven
                            \<and> (\<forall>i<length (items g). \<forall>j<length (items g).
                                  items g ! i = ?own \<and> items g ! j = ?ven \<longrightarrow> i < j)
                            \<and> ((\<forall>d\<in>set (items g). d \<noteq> ?own
                                    \<longrightarrow> groupComparator_key None ?own < groupComparator_key None d)
                                 \<longrightarrow> hd (items g) = ?own \<and> canonicalProcessItem g = ex_mapper () () ?own))"
    using G by (rule conjunct2)
  have dom: "dominates ex_constraints req (ex_mapper () () (ex_item n ow p))
               (ex_mapper () () (ex_item n' ow' p'))
             \<longleftrightarrow> p' \<le> p \<and> (n' = ''R'' \<longrightarrow> n = ''R'') \<and> (p' < p \<or> (n = ''R'' \<and> n' \<noteq> ''R''))"
    for req n ow p n' ow' p'
    using ex_m_better [of req n ow p n' ow' p'] by (simp add: better_dominates ex_m_sel)
  have nodom: "\<forall>d\<in>set ex_armor. \<not> isExotic (ex_mapper () () d)
                        \<longrightarrow> \<not> dominates ex_constraints (requiredModTags_of ex_getModTag ex_mods) (ex_mapper () () d) (ex_mapper () () ?own)"
    by (simp add: ex_armor_def dom)
  from iff nodom have surv: "\<exists>g\<in>set groups. ?own \<in> set (items g)"
    by (rule iffD2)
  have w1: "items g \<noteq> []
           \<and> sorted (map (groupComparator_key None) (items g))
           \<and> canonicalProcessItem g = ex_mapper () () (hd (items g))
           \<and> sorted (map (\<lambda>d. tiebreak_key None \<lparr> dimItem = d, processItem = ex_mapper () () d \<rparr>)
                              (items g))"
    if g: "g \<in> set groups" for g
  proof -
    from p1 g have m: "items g \<noteq> []
           \<and> sorted (map (groupComparator_key None) (items g))
           \<and> canonicalProcessItem g = ex_mapper () () (hd (items g))
           \<and> (\<exists>bucket keepSet.
                 bucket \<in> set (energyGroups_of (mapItems ex_mapper () () ex_armor))
                 \<and> pruneLoop (buildCache ex_constraints (requiredModTags_of ex_getModTag ex_mods) (mapItems ex_mapper () () ex_armor))
                       bucket [] = Some keepSet
                 \<and> mset (items g)
                     = mset (map dimItem (filter (\<lambda>m.
                          finalGroupingFn (buildCache ex_constraints (requiredModTags_of ex_getModTag ex_mods)
                              (mapItems ex_mapper () () ex_armor)) (dimItem m)
                          = finalGroupingFn (buildCache ex_constraints (requiredModTags_of ex_getModTag ex_mods)
                              (mapItems ex_mapper () () ex_armor)) (hd (items g))) keepSet)))
           \<and> ((\<forall>d\<in>set (items g). energyCapacity_or_0 d = energyCapacity_or_0 (hd (items g)))
                \<longrightarrow> sorted (map (\<lambda>d. tiebreak_key None \<lparr> dimItem = d, processItem = ex_mapper () () d \<rparr>)
                              (items g)))"
      by (rule bspec)
    have c1: "items g \<noteq> []" using m by (elim conjE)
    have c2: "sorted (map (groupComparator_key None) (items g))" using m by (elim conjE)
    have c3: "canonicalProcessItem g = ex_mapper () () (hd (items g))" using m by (elim conjE)
    have c6: "(\<forall>d\<in>set (items g). energyCapacity_or_0 d = energyCapacity_or_0 (hd (items g)))
                \<longrightarrow> sorted (map (\<lambda>d. tiebreak_key None \<lparr> dimItem = d, processItem = ex_mapper () () d \<rparr>)
                              (items g))"
      using m by (elim conjE)
    have en: "\<forall>d\<in>set (items g). energyCapacity_or_0 d = energyCapacity_or_0 (hd (items g))"
      using g unfolding geq by (auto simp: energyCapacity_or_0_def ex_item_def)
    from c6 en have c7: "sorted (map (\<lambda>d. tiebreak_key None \<lparr> dimItem = d, processItem = ex_mapper () () d \<rparr>)
                              (items g))"
      by (rule mp)
    show ?thesis using c1 c2 c3 c7 by (intro conjI)
  qed
  have w2: "(?own \<in> set (items g) \<longleftrightarrow> ?ven \<in> set (items g))
           \<and> (?own \<in> set (items g) \<longrightarrow> hd (items g) = ?own \<and> canonicalProcessItem g = ex_mapper () () ?own)"
    if g: "g \<in> set groups" for g
  proof -
    from per g have pg: "(?own \<in> set (items g) \<longleftrightarrow> ?ven \<in> set (items g))
                      \<and> (?own \<in> set (items g) \<longrightarrow>
                            hd (items g) \<noteq> ?ven
                            \<and> (\<forall>i<length (items g). \<forall>j<length (items g).
                                  items g ! i = ?own \<and> items g ! j = ?ven \<longrightarrow> i < j)
                            \<and> ((\<forall>d\<in>set (items g). d \<noteq> ?own
                                    \<longrightarrow> groupComparator_key None ?own < groupComparator_key None d)
                                 \<longrightarrow> hd (items g) = ?own \<and> canonicalProcessItem g = ex_mapper () () ?own))"
      by (rule bspec)
    have both: "?own \<in> set (items g) \<longleftrightarrow> ?ven \<in> set (items g)"
      using pg by (rule conjunct1)
    have inner: "?own \<in> set (items g) \<longrightarrow>
                            hd (items g) \<noteq> ?ven
                            \<and> (\<forall>i<length (items g). \<forall>j<length (items g).
                                  items g ! i = ?own \<and> items g ! j = ?ven \<longrightarrow> i < j)
                            \<and> ((\<forall>d\<in>set (items g). d \<noteq> ?own
                                    \<longrightarrow> groupComparator_key None ?own < groupComparator_key None d)
                                 \<longrightarrow> hd (items g) = ?own \<and> canonicalProcessItem g = ex_mapper () () ?own)"
      using pg by (rule conjunct2)
    have rep: "hd (items g) = ?own \<and> canonicalProcessItem g = ex_mapper () () ?own"
      if og: "?own \<in> set (items g)"
    proof -
      from inner og have "hd (items g) \<noteq> ?ven
                            \<and> (\<forall>i<length (items g). \<forall>j<length (items g).
                                  items g ! i = ?own \<and> items g ! j = ?ven \<longrightarrow> i < j)
                            \<and> ((\<forall>d\<in>set (items g). d \<noteq> ?own
                                    \<longrightarrow> groupComparator_key None ?own < groupComparator_key None d)
                                 \<longrightarrow> hd (items g) = ?own \<and> canonicalProcessItem g = ex_mapper () () ?own)"
        by (rule mp)
      then have fimp: "(\<forall>d\<in>set (items g). d \<noteq> ?own
                                    \<longrightarrow> groupComparator_key None ?own < groupComparator_key None d)
                                 \<longrightarrow> hd (items g) = ?own \<and> canonicalProcessItem g = ex_mapper () () ?own"
        by (elim conjE)
      have first: "\<forall>d\<in>set (items g). d \<noteq> ?own
                                    \<longrightarrow> groupComparator_key None ?own < groupComparator_key None d"
        using g og unfolding geq
        by (auto simp: groupComparator_key_def ex_item_def energyCapacity_or_0_def)
      from fimp first show ?thesis by (rule mp)
    qed
    have rimp: "?own \<in> set (items g) \<longrightarrow> hd (items g) = ?own \<and> canonicalProcessItem g = ex_mapper () () ?own"
      using rep by (rule impI)
    show ?thesis using both rimp by (rule conjI)
  qed
  have all1: "\<forall>g\<in>set groups.
           items g \<noteq> []
           \<and> sorted (map (groupComparator_key None) (items g))
           \<and> canonicalProcessItem g = ex_mapper () () (hd (items g))
           \<and> sorted (map (\<lambda>d. tiebreak_key None \<lparr> dimItem = d, processItem = ex_mapper () () d \<rparr>)
                              (items g))"
    using w1 by (rule ballI)
  from surv obtain g where g: "g \<in> set groups" and og: "?own \<in> set (items g)" ..
  note pg = w2 [OF g]
  have vg: "?ven \<in> set (items g)" using pg [THEN conjunct1] og by (rule iffD1)
  have rep: "hd (items g) = ?own \<and> canonicalProcessItem g = ex_mapper () () ?own" using pg [THEN conjunct2] og by (rule mp)
  have merged: "\<exists>g\<in>set groups.
           ?own \<in> set (items g) \<and> ?ven \<in> set (items g)
           \<and> hd (items g) = ?own \<and> canonicalProcessItem g = ex_mapper () () ?own"
    using g og vg rep by (intro bexI [of _ g]) (elim conjE, intro conjI)
  show ?thesis
    using res geq all1 t2 t4 merged by (intro exI [of _ groups] conjI)
qed

lemma ex_counter_prune:
  "pruneLoop (buildCache ex_constraints [] (mapItems ex_mapper () () [ex_item ''H1'' True 1810, ex_item ''R'' False 1810]))
     (mapItems ex_mapper () () [ex_item ''H1'' True 1810, ex_item ''R'' False 1810]) []
   = Some [ex_m (ex_item ''R'' False 1810)]"
proof -
  let ?ds = "[ex_item ''H1'' True 1810, ex_item ''R'' False 1810]"
  have M: "mapItems ex_mapper () () ?ds = [ex_m (ex_item ''H1'' True 1810), ex_m (ex_item ''R'' False 1810)]"
    by (simp add: mapItems_def ex_m_def)
  have b: "isStrictlyBetter (buildCache ex_constraints [] (mapItems ex_mapper () () ?ds)) x y
           = Some (better ex_constraints [] x y)"
    if "x \<in> set (mapItems ex_mapper () () ?ds)" "y \<in> set (mapItems ex_mapper () () ?ds)" for x y
    using that by (rule isStrictlyBetter_better)
  show ?thesis
    unfolding M by (simp add: b [unfolded M] nth_opt_def ex_m_better splice1_def)
qed

lemma ex_counter_groups:
  "mapItemsToGroups ex_mapper ex_getModTag [ex_item ''H1'' True 1810, ex_item ''R'' False 1810]
     ex_constraints () [] () None
   = Some [\<lparr> canonicalProcessItem = ex_mapper () () (ex_item ''R'' False 1810),
             items = [ex_item ''R'' False 1810] \<rparr>]"
proof -
  let ?ds = "[ex_item ''H1'' True 1810, ex_item ''R'' False 1810]"
  let ?C = "buildCache ex_constraints [] (mapItems ex_mapper () () ?ds)"
  have M: "mapItems ex_mapper () () ?ds = [ex_m (ex_item ''H1'' True 1810), ex_m (ex_item ''R'' False 1810)]"
    by (simp add: mapItems_def ex_m_def)
  have req: "requiredModTags_of ex_getModTag [] = []"
    by (simp add: requiredModTags_of_def)
  have eg: "energyGroups_of (mapItems ex_mapper () () ?ds) = [mapItems ex_mapper () () ?ds]"
    by (simp add: M energyGroups_of_def groupBy_def firstPassGroupingFn_iff ex_m_sel ex_mapper_exotic)
  have "ex_m (ex_item ''R'' False 1810) \<in> set (mapItems ex_mapper () () ?ds)"
    by (simp add: M)
  from finalGroupingFn_lookup [OF this, of ex_constraints "[]"]
  obtain k where k: "finalGroupingFn ?C (ex_item ''R'' False 1810) = Some k"
    by (simp add: ex_m_sel)
  have pb: "processBucket ?C None (mapItems ex_mapper () () ?ds)
            = Some [\<lparr> canonicalProcessItem = ex_mapper () () (ex_item ''R'' False 1810),
                      items = [ex_item ''R'' False 1810] \<rparr>]"
    unfolding processBucket_def ex_counter_prune option.case
    by (simp add: groupBy_def ex_m_sel k makeGroup_def Array_sort_def)
  show ?thesis
    unfolding mapItemsToGroups_def Let_def req eg by (simp add: pb)
qed


lemma ex_cacheEntry_unmasterworked:
  "cacheEntry ex_constraints req (ex_m (ex_unmasterworked n p))
   = \<lparr> stats_c = [p - 1800, 10], energyCapacity_c = 10,
       relevantModSeasons =
         new_Set (sort (filter (\<lambda>season. season \<in> set req) [''vaultofglass'', ''deepstonecrypt''])),
       isArtifice_c = (n = ''R'') \<rparr>"
  by (simp add: cacheEntry_def ex_constraints_def ex_m_def ex_mapper_def ex_unmasterworked_def)

lemma ex_counter_energy_groups:
  "mapItemsToGroups ex_mapper ex_getModTag [ex_unmasterworked ''U'' 1810, ex_item ''H2'' False 1810]
     ex_constraints () [] () None
   = Some [\<lparr> canonicalProcessItem = ex_mapper () () (ex_item ''H2'' False 1810),
             items = [ex_item ''H2'' False 1810, ex_unmasterworked ''U'' 1810] \<rparr>]"
proof -
  let ?u = "ex_unmasterworked ''U'' 1810" and ?v = "ex_item ''H2'' False 1810"
  have ex: "\<not> isExotic (ex_mapper () () ?u)" "\<not> isExotic (ex_mapper () () ?v)"
    by (simp_all add: ex_mapper_def ex_item_def ex_unmasterworked_def)
  have eq: "cacheEntry ex_constraints (requiredModTags_of ex_getModTag [])
              \<lparr> dimItem = ?u, processItem = ex_mapper () () ?u \<rparr>
            = cacheEntry ex_constraints (requiredModTags_of ex_getModTag [])
              \<lparr> dimItem = ?v, processItem = ex_mapper () () ?v \<rparr>"
    using ex_cacheEntry_unmasterworked [of "requiredModTags_of ex_getModTag []" "''U''" 1810]
      ex_cacheEntry [of "requiredModTags_of ex_getModTag []" "''H2''" False 1810]
    by (simp add: ex_m_def)
  have g: "groupOf None (mapItems ex_mapper () () [?u, ?v])
           = \<lparr> canonicalProcessItem = ex_mapper () () ?v, items = [?v, ?u] \<rparr>"
    by (simp add: mapItems_def groupOf_def Let_def Array_sort_two groupComparator_le
          groupComparator_key_def energyCapacity_or_0_def ex_item_def ex_unmasterworked_def)
  show ?thesis
    using two_items_groups(2) [where f = ex_mapper and r = "()" and ms = "()" and x = ?u and y = ?v
        and getTag = None and mods = "[]" and getModTag = ex_getModTag and rc = ex_constraints,
        OF ex eq]
    unfolding g .
qed

text \<open>
  Claim C8 as stated fails in two ways.  Where the vendor item alone is artifice armor,
  the two items agree on stats, energy and mod tags, yet the owned and equipped one is
  pruned and the vendor item is the only member and the representative of the group.
  And where the two items agree on everything the worker sees, the artifice flag
  included, but the owned and equipped one is not masterworked (item energy capacity 7
  against the vendor item's 10), both are kept and merged, but the vendor item comes
  first and is the representative: the member list is not in the order of the
  specification's tie-break, whose energy capacity is equal within the group.
\<close>

theorem owned_item_not_representative_counterexample:
  "stats_c (cacheEntry ex_constraints [] (ex_m (ex_item ''H1'' True 1810)))
     = stats_c (cacheEntry ex_constraints [] (ex_m (ex_item ''R'' False 1810)))
   \<and> energyCapacity_c (cacheEntry ex_constraints [] (ex_m (ex_item ''H1'' True 1810)))
     = energyCapacity_c (cacheEntry ex_constraints [] (ex_m (ex_item ''R'' False 1810)))
   \<and> relevantModSeasons (cacheEntry ex_constraints [] (ex_m (ex_item ''H1'' True 1810)))
     = relevantModSeasons (cacheEntry ex_constraints [] (ex_m (ex_item ''R'' False 1810)))
   \<and> energyCapacity_or_0 (ex_item ''H1'' True 1810) = energyCapacity_or_0 (ex_item ''R'' False 1810)
   \<and> \<not> isExotic (ex_mapper () () (ex_item ''H1'' True 1810))
   \<and> \<not> isExotic (ex_mapper () () (ex_item ''R'' False 1810))
   \<and> vendor (ex_item ''H1'' True 1810) = None \<and> equipped (ex_item ''H1'' True 1810)
   \<and> vendor (ex_item ''R'' False 1810) \<noteq> None
   \<and> pruneLoop (buildCache ex_constraints []
          (mapItems ex_mapper () () [ex_item ''H1'' True 1810, ex_item ''R'' False 1810]))
        (mapItems ex_mapper () () [ex_item ''H1'' True 1810, ex_item ''R'' False 1810]) []
      = Some [ex_m (ex_item ''R'' False 1810)]
   \<and> mapItemsToGroups ex_mapper ex_getModTag [ex_item ''H1'' True 1810, ex_item ''R'' False 1810]
        ex_constraints () [] () None
      = Some [\<lparr> canonicalProcessItem = ex_mapper () () (ex_item ''R'' False 1810),
                items = [ex_item ''R'' False 1810] \<rparr>]
   \<and> cacheEntry ex_constraints [] (ex_m (ex_unmasterworked ''U'' 1810))
     = cacheEntry ex_constraints [] (ex_m (ex_item ''H2'' False 1810))
   \<and> \<not> isExotic (ex_mapper () () (ex_unmasterworked ''U'' 1810))
   \<and> \<not> isExotic (ex_mapper () () (ex_item ''H2'' False 1810))
   \<and> vendor (ex_unmasterworked ''U'' 1810) = None \<and> equipped (ex_unmasterworked ''U'' 1810)
   \<and> vendor (ex_item ''H2'' False 1810) \<noteq> None
   \<and> energyCapacity_or_0 (ex_unmasterworked ''U'' 1810) = 7
   \<and> energyCapacity_or_0 (ex_item ''H2'' False 1810) = 10
   \<and> mapItemsToGroups ex_mapper ex_getModTag [ex_unmasterworked ''U'' 1810, ex_item ''H2'' False 1810]
        ex_constraints () [] () None
      = Some [\<lparr> canonicalProcessItem = ex_mapper () () (ex_item ''H2'' False 1810),
                items = [ex_item ''H2'' False 1810, ex_unmasterworked ''U'' 1810] \<rparr>]
   \<and> \<not> sorted (map (\<lambda>d. tiebreak_key None (ex_m d))
                 [ex_item ''H2'' False 1810, ex_unmasterworked ''U'' 1810])"
proof -
  have a: "energyCapacity_or_0 (ex_item ''H1'' True 1810) = energyCapacity_or_0 (ex_item ''R'' False 1810)"
    and b: "vendor (ex_item ''H1'' True 1810) = None" and c: "equipped (ex_item ''H1'' True 1810)"
    and d: "vendor (ex_item ''R'' False 1810) \<noteq> None"
    by (simp_all add: energyCapacity_or_0_def ex_item_def)
  have e: "vendor (ex_unmasterworked ''U'' 1810) = None" and f: "equipped (ex_unmasterworked ''U'' 1810)"
    and g: "vendor (ex_item ''H2'' False 1810) \<noteq> None"
    and h: "energyCapacity_or_0 (ex_unmasterworked ''U'' 1810) = 7"
    and i: "energyCapacity_or_0 (ex_item ''H2'' False 1810) = 10"
    by (simp_all add: energyCapacity_or_0_def ex_item_def ex_unmasterworked_def)
  have j: "\<not> isExotic (ex_mapper () () (ex_unmasterworked ''U'' 1810))"
    by (simp add: ex_mapper_def ex_unmasterworked_def)
  have k: "\<not> sorted (map (\<lambda>d. tiebreak_key None (ex_m d))
                 [ex_item ''H2'' False 1810, ex_unmasterworked ''U'' 1810])"
    by (simp add: tiebreak_key_def ex_m_def ex_mapper_def ex_item_def ex_unmasterworked_def)
  show ?thesis
    using a b c d e f g h i j k ex_counter_prune ex_counter_groups ex_counter_energy_groups
    by (simp add: ex_cacheEntry ex_cacheEntry_unmasterworked ex_mapper_exotic)
qed

section \<open>The index of the groups that were sent\<close>

lemma mapItemsToGroups_canonical:
  "\<exists>groups.
     mapItemsToGroups f getModTag ds rc r mods ms getTag = Some groups
     \<and> (\<forall>g\<in>set groups. items g \<noteq> [] \<and> canonicalProcessItem g = f r ms (hd (items g))
           \<and> set (items g) \<subseteq> set ds)"
proof -
  let ?req = "requiredModTags_of getModTag mods"
  let ?M = "mapItems f r ms ds"
  let ?C = "buildCache rc ?req ?M"
  from mapItemsToGroups_spec [of f getModTag ds rc r mods ms getTag]
  obtain groups where gm: "mapItemsToGroups f getModTag ds rc r mods ms getTag = Some groups
     \<and> (\<forall>g\<in>set groups. \<exists>bucket grp k.
           bucket \<in> set (energyGroups_of ?M)
           \<and> g = groupOf getTag grp \<and> grp \<noteq> []
           \<and> set grp \<subseteq> {x \<in> set bucket. \<forall>y\<in>set bucket. \<not> better rc ?req y x}
           \<and> (\<forall>y\<in>set grp. finalGroupingFn ?C (dimItem y) = Some k))" ..
  have res: "mapItemsToGroups f getModTag ds rc r mods ms getTag = Some groups"
    using gm by (rule conjunct1)
  have "items g \<noteq> [] \<and> canonicalProcessItem g = f r ms (hd (items g)) \<and> set (items g) \<subseteq> set ds"
    if g: "g \<in> set groups" for g
  proof -
    from gm g obtain bucket grp where b: "bucket \<in> set (energyGroups_of ?M)"
      and geq: "g = groupOf getTag grp" and ne: "grp \<noteq> []"
      and sub: "set grp \<subseteq> {x \<in> set bucket. \<forall>y\<in>set bucket. \<not> better rc ?req y x}"
      by blast
    let ?first = "hd (Array_sort (groupComparator getTag) grp)"
    have "?first \<in> set grp" using ne by (rule groupOf_first(2))
    then have "?first \<in> set bucket" using sub by blast
    then have "processItem ?first = f r ms (dimItem ?first)"
      using b by (rule bucket_member_mapped(2) [rotated])
    then have 1: "canonicalProcessItem g = f r ms (hd (items g))"
      unfolding geq groupOf_first(3) [OF ne] groupOf_first(4) [OF ne] .
    have 2: "items g \<noteq> []" unfolding geq using ne by (rule groupOf_first(1))
    have "dimItem m \<in> set ds" if "m \<in> set grp" for m
    proof -
      have "m \<in> set bucket" using that sub by blast
      then have "m \<in> set ?M" using b by (rule bucket_member_mapped(1) [rotated])
      then show ?thesis by (simp add: mapItems_member)
    qed
    then have 3: "set (items g) \<subseteq> set ds"
      unfolding geq set_items_groupOf by blast
    show ?thesis using 1 2 3 by (intro conjI)
  qed
  then show ?thesis using res by blast
qed

lemma tablesOk_initial: "tablesOk f rules lmm filteredItems (initialTables armorBuckets)"
proof -
  have "sent = []" if "map_of (map (\<lambda>b. (b, [])) armorBuckets) b = Some sent" for b and sent :: "ProcessItem list"
  proof -
    have "(b, sent) \<in> set (map (\<lambda>b. (b, [])) armorBuckets)"
      using that by (rule map_of_SomeD)
    then show ?thesis by auto
  qed
  then show ?thesis
    unfolding tablesOk_def initialTables_def by fastforce
qed

lemma tablesOk_reset:
  assumes "tablesOk f rules lmm filteredItems tables"
  shows "tablesOk f rules lmm filteredItems (tables\<lparr> processItems := (processItems tables)(b \<mapsto> []) \<rparr>)"
  using assms unfolding tablesOk_def by (simp split: if_splits)

lemma addGroup_ok:
  assumes ok: "tablesOk f rules lmm filteredItems tables"
      and ids: "idsIdentifyItems f rules lmm filteredItems"
      and sent: "processItems tables b = Some sent"
      and entry: "(b, ds) \<in> set filteredItems"
      and ne: "items g \<noteq> []"
      and first: "hd (items g) \<in> set ds"
      and canon: "canonicalProcessItem g = f rules (modsForSlot_of lmm b) (hd (items g))"
  shows "\<exists>tables'. addGroup b tables g = Some tables'
           \<and> tablesOk f rules lmm filteredItems tables'
           \<and> processItems tables' b = Some (sent @ [canonicalProcessItem g])"
proof -
  let ?p = "canonicalProcessItem g"
  let ?T = "\<lparr> processItems = (processItems tables)(b \<mapsto> sent @ [?p]),
              itemsById = (itemsById tables)(id_p ?p \<mapsto> g) \<rparr>"
  have eq: "addGroup b tables g = Some ?T"
    using sent by (simp add: addGroup_def)
  have "(\<exists>ds d. (b0, ds) \<in> set filteredItems \<and> d \<in> set ds
            \<and> p = f rules (modsForSlot_of lmm b0) d)
        \<and> (\<exists>g'. itemsById ?T (id_p p) = Some g' \<and> canonicalProcessItem g' = p \<and> items g' \<noteq> []
              \<and> f rules (modsForSlot_of lmm b0) (hd (items g')) = p)"
    if s0: "processItems ?T b0 = Some sent0" and p: "p \<in> set sent0" for b0 sent0 p
  proof (cases "b0 = b \<and> p = ?p")
    case True
    then show ?thesis using entry first canon ne by auto
  next
    case False
    have old: "\<exists>sent1. processItems tables b0 = Some sent1 \<and> p \<in> set sent1"
    proof (cases "b0 = b")
      case True
      then have "sent0 = sent @ [?p]" using s0 by simp
      then have "p \<in> set sent" using p False True by auto
      then show ?thesis using sent True by blast
    next
      case False
      then show ?thesis using s0 p by simp
    qed
    then obtain sent1 where s1: "processItems tables b0 = Some sent1" and p1: "p \<in> set sent1"
      by blast
    from ok s1 p1 obtain ds0 d0 g0 where
      e0: "(b0, ds0) \<in> set filteredItems" "d0 \<in> set ds0" "p = f rules (modsForSlot_of lmm b0) d0"
      and g0: "itemsById tables (id_p p) = Some g0" "canonicalProcessItem g0 = p" "items g0 \<noteq> []"
        "f rules (modsForSlot_of lmm b0) (hd (items g0)) = p"
      unfolding tablesOk_def by blast
    show ?thesis
    proof (cases "id_p p = id_p ?p")
      case True
      then have "id_p (f rules (modsForSlot_of lmm b0) d0)
                 = id_p (f rules (modsForSlot_of lmm b) (hd (items g)))"
        using e0(3) canon by simp
      then have "b0 = b \<and> d0 = hd (items g)"
        using ids e0(1,2) entry first unfolding idsIdentifyItems_def by blast
      then have "b0 = b \<and> p = ?p" using e0(3) canon by simp
      then show ?thesis using False by blast
    next
      case False
      then show ?thesis using e0 g0 by auto
    qed
  qed
  then have "tablesOk f rules lmm filteredItems ?T"
    unfolding tablesOk_def by blast
  moreover have "processItems ?T b = Some (sent @ [?p])" by simp
  ultimately show ?thesis using eq by blast
qed

lemma addGroups_ok:
  assumes "tablesOk f rules lmm filteredItems tables"
      and "idsIdentifyItems f rules lmm filteredItems"
      and "processItems tables b = Some sent"
      and "(b, ds) \<in> set filteredItems"
      and "\<forall>g\<in>set groups. items g \<noteq> []
             \<and> canonicalProcessItem g = f rules (modsForSlot_of lmm b) (hd (items g))
             \<and> set (items g) \<subseteq> set ds"
  shows "\<exists>tables'. addGroups b tables groups = Some tables'
           \<and> tablesOk f rules lmm filteredItems tables'"
  using assms
proof (induction groups arbitrary: tables sent)
  case Nil
  then show ?case by simp
next
  case (Cons g groups)
  have ne: "items g \<noteq> []"
    and canon: "canonicalProcessItem g = f rules (modsForSlot_of lmm b) (hd (items g))"
    and sub: "set (items g) \<subseteq> set ds"
    using Cons.prems(5) by simp_all
  have first: "hd (items g) \<in> set ds" using ne sub by (meson hd_in_set subsetD)
  from addGroup_ok [OF Cons.prems(1) Cons.prems(2) Cons.prems(3) Cons.prems(4) ne first canon]
  obtain tables' where t: "addGroup b tables g = Some tables'
           \<and> tablesOk f rules lmm filteredItems tables'
           \<and> processItems tables' b = Some (sent @ [canonicalProcessItem g])" ..
  have rest: "\<forall>g\<in>set groups. items g \<noteq> []
             \<and> canonicalProcessItem g = f rules (modsForSlot_of lmm b) (hd (items g))
             \<and> set (items g) \<subseteq> set ds"
    using Cons.prems(5) by simp
  from Cons.IH [OF t [THEN conjunct2, THEN conjunct1] Cons.prems(2)
      t [THEN conjunct2, THEN conjunct2] Cons.prems(4) rest]
  obtain tables'' where "addGroups b tables' groups = Some tables''
           \<and> tablesOk f rules lmm filteredItems tables''" ..
  then show ?case using t by simp
qed

lemma fillTables_ok:
  assumes "tablesOk f rules lmm filteredItems tables"
      and "idsIdentifyItems f rules lmm filteredItems"
      and "set entries \<subseteq> set filteredItems"
  shows "\<exists>tables'. fillTables f getModTag rc rules lmm getTag entries tables = Some tables'
           \<and> tablesOk f rules lmm filteredItems tables'"
  using assms
proof (induction entries arbitrary: tables)
  case Nil
  then show ?case by simp
next
  case (Cons e entries)
  obtain b ds where e: "e = (b, ds)" by (cases e)
  have entry: "(b, ds) \<in> set filteredItems" using Cons.prems(3) e by simp
  from mapItemsToGroups_canonical [of f getModTag ds rc rules "activityMods lmm" "modsForSlot_of lmm b" getTag]
  obtain groups where g: "mapItemsToGroups f getModTag ds rc rules (activityMods lmm)
        (modsForSlot_of lmm b) getTag = Some groups
     \<and> (\<forall>g\<in>set groups. items g \<noteq> []
           \<and> canonicalProcessItem g = f rules (modsForSlot_of lmm b) (hd (items g))
           \<and> set (items g) \<subseteq> set ds)" ..
  let ?T = "tables\<lparr> processItems := (processItems tables)(b \<mapsto> []) \<rparr>"
  have ok: "tablesOk f rules lmm filteredItems ?T"
    using Cons.prems(1) by (rule tablesOk_reset)
  have sent: "processItems ?T b = Some []" by simp
  from addGroups_ok [OF ok Cons.prems(2) sent entry g [THEN conjunct2]]
  obtain tables' where t: "addGroups b ?T groups = Some tables'
           \<and> tablesOk f rules lmm filteredItems tables'" ..
  have rest: "set entries \<subseteq> set filteredItems" using Cons.prems(3) by simp
  from Cons.IH [OF t [THEN conjunct2] Cons.prems(2) rest]
  obtain tables'' where "fillTables f getModTag rc rules lmm getTag entries tables' = Some tables''
           \<and> tablesOk f rules lmm filteredItems tables''" ..
  then show ?case using g t e by simp
qed

lemma hydrateSlots_ok:
  assumes ok: "tablesOk f rules lmm filteredItems tables"
      and "\<forall>(b, p)\<in>set picks. \<exists>sent. processItems tables b = Some sent \<and> p \<in> set sent"
  shows "\<exists>slots. hydrateSlots (itemsById tables) (map (\<lambda>(b, p). id_p p) picks) = Some slots
           \<and> length slots = length picks
           \<and> (\<forall>i<length picks.
                 f rules (modsForSlot_of lmm (fst (picks ! i))) (representative (slots ! i))
                 = snd (picks ! i))"
  using assms(2)
proof (induction picks)
  case Nil
  then show ?case by simp
next
  case (Cons bp picks)
  obtain b p where bp: "bp = (b, p)" by (cases bp)
  obtain sent where s: "processItems tables b = Some sent" "p \<in> set sent"
    using Cons.prems bp by auto
  from ok s obtain g where g: "itemsById tables (id_p p) = Some g" "items g \<noteq> []"
      "f rules (modsForSlot_of lmm b) (hd (items g)) = p"
    unfolding tablesOk_def by blast
  obtain first others where io: "items g = first # others"
    using g(2) by (cases "items g") auto
  have slot: "hydrateSlot (itemsById tables) (id_p p)
              = Some \<lparr> representative = first, alternatives = others \<rparr>"
    using g(1) io by (simp add: hydrateSlot_def)
  have fp: "f rules (modsForSlot_of lmm b) first = p" using g(3) io by simp
  have "\<forall>(b, p)\<in>set picks. \<exists>sent. processItems tables b = Some sent \<and> p \<in> set sent"
    using Cons.prems by simp
  from Cons.IH [OF this]
  obtain slots where sl: "hydrateSlots (itemsById tables) (map (\<lambda>(b, p). id_p p) picks) = Some slots
           \<and> length slots = length picks
           \<and> (\<forall>i<length picks.
                 f rules (modsForSlot_of lmm (fst (picks ! i))) (representative (slots ! i))
                 = snd (picks ! i))" ..
  let ?slots = "\<lparr> representative = first, alternatives = others \<rparr> # slots"
  have 1: "hydrateSlots (itemsById tables) (map (\<lambda>(b, p). id_p p) (bp # picks)) = Some ?slots"
    using slot sl bp by simp
  have 2: "length ?slots = length (bp # picks)" using sl by simp
  have 3: "f rules (modsForSlot_of lmm (fst ((bp # picks) ! i))) (representative (?slots ! i))
                 = snd ((bp # picks) ! i)" if "i < length (bp # picks)" for i
  proof (cases i)
    case 0
    then show ?thesis using fp bp by simp
  next
    case (Suc j)
    then have "j < length picks" using that by simp
    then show ?thesis using sl Suc by simp
  qed
  show ?case
  proof (intro exI conjI)
    show "hydrateSlots (itemsById tables) (map (\<lambda>(b, p). id_p p) (bp # picks)) = Some ?slots"
      by (rule 1)
    show "length ?slots = length (bp # picks)" by (rule 2)
    show "\<forall>i<length (bp # picks).
            f rules (modsForSlot_of lmm (fst ((bp # picks) ! i))) (representative (?slots ! i))
            = snd ((bp # picks) ! i)"
      using 3 by blast
  qed
qed

text \<open>
  Claim C10.  For filtered items whose process-item ids identify the item and its bucket,
  the loop that fills the tables returns; the id of every process item sent for a bucket
  is a key of \<^verbatim>\<open>itemsById\<close>, mapped to a group whose canonical process item is that
  item; and hydrating a set of ids of sent items succeeds and gives, slot by slot, a
  representative whose process item is the item that was sent.
\<close>

theorem hydration_round_trip:
  assumes "idsIdentifyItems f rules lmm filteredItems"
  shows "\<exists>tables.
           fillTables f getModTag rc rules lmm getTag filteredItems (initialTables armorBuckets)
             = Some tables
           \<and> (\<forall>b sent p. processItems tables b = Some sent \<longrightarrow> p \<in> set sent \<longrightarrow>
                 (\<exists>g. itemsById tables (id_p p) = Some g \<and> canonicalProcessItem g = p))
           \<and> (\<forall>picks.
                 (\<forall>(b, p)\<in>set picks. \<exists>sent. processItems tables b = Some sent \<and> p \<in> set sent) \<longrightarrow>
                 (\<exists>slots.
                    hydrateArmorSet \<lparr> armor = map (\<lambda>(b, p). id_p p) picks \<rparr> (itemsById tables)
                      = Some slots
                    \<and> length slots = length picks
                    \<and> (\<forall>i<length picks.
                          f rules (modsForSlot_of lmm (fst (picks ! i))) (representative (slots ! i))
                          = snd (picks ! i))))"
proof -
  have ok0: "tablesOk f rules lmm filteredItems (initialTables armorBuckets)"
    by (rule tablesOk_initial)
  from fillTables_ok [OF ok0 assms order_refl, of getModTag rc getTag]
  obtain tables where t: "fillTables f getModTag rc rules lmm getTag filteredItems
        (initialTables armorBuckets) = Some tables
      \<and> tablesOk f rules lmm filteredItems tables" ..
  then have ok: "tablesOk f rules lmm filteredItems tables" by (rule conjunct2)
  have 1: "\<forall>b sent p. processItems tables b = Some sent \<longrightarrow> p \<in> set sent \<longrightarrow>
                 (\<exists>g. itemsById tables (id_p p) = Some g \<and> canonicalProcessItem g = p)"
    using ok unfolding tablesOk_def by blast
  have 2: "\<forall>picks.
                 (\<forall>(b, p)\<in>set picks. \<exists>sent. processItems tables b = Some sent \<and> p \<in> set sent) \<longrightarrow>
                 (\<exists>slots.
                    hydrateArmorSet \<lparr> armor = map (\<lambda>(b, p). id_p p) picks \<rparr> (itemsById tables)
                      = Some slots
                    \<and> length slots = length picks
                    \<and> (\<forall>i<length picks.
                          f rules (modsForSlot_of lmm (fst (picks ! i))) (representative (slots ! i))
                          = snd (picks ! i)))"
  proof (intro allI impI)
    fix picks :: "(int \<times> ProcessItem) list"
    assume "\<forall>(b, p)\<in>set picks. \<exists>sent. processItems tables b = Some sent \<and> p \<in> set sent"
    from hydrateSlots_ok [OF ok this]
    show "\<exists>slots.
            hydrateArmorSet \<lparr> armor = map (\<lambda>(b, p). id_p p) picks \<rparr> (itemsById tables) = Some slots
            \<and> length slots = length picks
            \<and> (\<forall>i<length picks.
                  f rules (modsForSlot_of lmm (fst (picks ! i))) (representative (slots ! i))
                  = snd (picks ! i))"
      by (simp add: hydrateArmorSet_def)
  qed
  show ?thesis
    using t [THEN conjunct1] 1 2 by (intro exI conjI)
qed

lemma mapItemsToGroups_mapper_cong:
  assumes "f r ms = f' r' ms'"
  shows "mapItemsToGroups f getModTag ds rc r mods ms getTag
         = mapItemsToGroups f' getModTag ds rc r' mods ms' getTag"
  using assms by (simp add: mapItemsToGroups_def mapItems_def)

lemma ex_ids: "idsIdentifyItems ex_slot_mapper () ex_lockedModMap ex_filteredItems"
  by (simp add: idsIdentifyItems_def ex_filteredItems_def ex_armor_def ex_slot_mapper_def
        ex_mapper_def ex_item_def)

lemma ex_fillTables:
  "fillTables ex_slot_mapper ex_getModTag ex_constraints () ex_lockedModMap None ex_filteredItems
     (initialTables ex_armorBuckets)
   = Some \<lparr> processItems = (processItems (initialTables ex_armorBuckets))
               (3448274439 \<mapsto> [ex_mapper () () (ex_item ''H1'' True 1810),
                                ex_mapper () () (ex_item ''X'' True 1810)]),
             itemsById =
               [id_p (ex_mapper () () (ex_item ''H1'' True 1810)) \<mapsto>
                  \<lparr> canonicalProcessItem = ex_mapper () () (ex_item ''H1'' True 1810),
                    items = [ex_item ''H1'' True 1810, ex_item ''H2'' False 1810] \<rparr>,
                id_p (ex_mapper () () (ex_item ''X'' True 1810)) \<mapsto>
                  \<lparr> canonicalProcessItem = ex_mapper () () (ex_item ''X'' True 1810),
                    items = [ex_item ''X'' True 1810] \<rparr>] \<rparr>"
proof -
  have m: "ex_slot_mapper () (modsForSlot_of ex_lockedModMap 3448274439) = ex_mapper () ()"
    by (rule ext) (simp add: ex_slot_mapper_def)
  have g: "mapItemsToGroups ex_slot_mapper ex_getModTag ex_armor ex_constraints ()
             (activityMods ex_lockedModMap) (modsForSlot_of ex_lockedModMap 3448274439) None
           = Some [\<lparr> canonicalProcessItem = ex_mapper () () (ex_item ''H1'' True 1810),
                     items = [ex_item ''H1'' True 1810, ex_item ''H2'' False 1810] \<rparr>,
                   \<lparr> canonicalProcessItem = ex_mapper () () (ex_item ''X'' True 1810),
                     items = [ex_item ''X'' True 1810] \<rparr>]"
    using mapItemsToGroups_mapper_cong [where f = ex_slot_mapper and r = "()"
        and ms = "modsForSlot_of ex_lockedModMap 3448274439" and f' = ex_mapper and r' = "()"
        and ms' = "()", OF m] ex_groups
    by (simp add: ex_lockedModMap_def)
  show ?thesis
    unfolding ex_filteredItems_def by (simp add: g addGroup_def initialTables_def)
qed

theorem hydration_round_trip_witness:
  "\<exists>tables.
     fillTables ex_slot_mapper ex_getModTag ex_constraints () ex_lockedModMap None ex_filteredItems
       (initialTables ex_armorBuckets) = Some tables
     \<and> processItems tables 3448274439
        = Some [ex_mapper () () (ex_item ''H1'' True 1810), ex_mapper () () (ex_item ''X'' True 1810)]
     \<and> (\<exists>g. itemsById tables ''H1'' = Some g
            \<and> canonicalProcessItem g = ex_mapper () () (ex_item ''H1'' True 1810))
     \<and> (\<exists>slots. hydrateArmorSet \<lparr> armor = [''X'', ''H1''] \<rparr> (itemsById tables) = Some slots
            \<and> length slots = 2
            \<and> ex_mapper () () (representative (slots ! 0)) = ex_mapper () () (ex_item ''X'' True 1810)
            \<and> ex_mapper () () (representative (slots ! 1)) = ex_mapper () () (ex_item ''H1'' True 1810))"
proof -
  let ?b = "3448274439 :: int"
  let ?pH = "ex_mapper () () (ex_item ''H1'' True 1810)"
  let ?pX = "ex_mapper () () (ex_item ''X'' True 1810)"
  from hydration_round_trip [OF ex_ids, of ex_getModTag ex_constraints None ex_armorBuckets]
  obtain tables where A:
    "fillTables ex_slot_mapper ex_getModTag ex_constraints () ex_lockedModMap None ex_filteredItems
       (initialTables ex_armorBuckets) = Some tables
     \<and> (\<forall>b sent p. processItems tables b = Some sent \<longrightarrow> p \<in> set sent \<longrightarrow>
           (\<exists>g. itemsById tables (id_p p) = Some g \<and> canonicalProcessItem g = p))
     \<and> (\<forall>picks.
           (\<forall>(b, p)\<in>set picks. \<exists>sent. processItems tables b = Some sent \<and> p \<in> set sent) \<longrightarrow>
           (\<exists>slots.
              hydrateArmorSet \<lparr> armor = map (\<lambda>(b, p). id_p p) picks \<rparr> (itemsById tables)
                = Some slots
              \<and> length slots = length picks
              \<and> (\<forall>i<length picks.
                    ex_slot_mapper () (modsForSlot_of ex_lockedModMap (fst (picks ! i)))
                      (representative (slots ! i))
                    = snd (picks ! i))))" ..
  have fill: "fillTables ex_slot_mapper ex_getModTag ex_constraints () ex_lockedModMap None
                ex_filteredItems (initialTables ex_armorBuckets) = Some tables"
    using A by (rule conjunct1)
  have sent: "processItems tables ?b = Some [?pH, ?pX]"
    using fill unfolding ex_fillTables by auto
  have idH: "id_p ?pH = ''H1''" and idX: "id_p ?pX = ''X''"
    by (simp_all add: ex_mapper_def ex_item_def)
  have "\<exists>g. itemsById tables (id_p ?pH) = Some g \<and> canonicalProcessItem g = ?pH"
    using A [THEN conjunct2, THEN conjunct1] sent by simp
  then have key: "\<exists>g. itemsById tables ''H1'' = Some g \<and> canonicalProcessItem g = ?pH"
    unfolding idH .
  have picks: "\<forall>(b, p)\<in>set [(?b, ?pX), (?b, ?pH)].
                 \<exists>sent. processItems tables b = Some sent \<and> p \<in> set sent"
    using sent by simp
  from A [THEN conjunct2, THEN conjunct2, THEN spec, THEN mp, OF picks]
  obtain slots where sl:
    "hydrateArmorSet \<lparr> armor = map (\<lambda>(b, p). id_p p) [(?b, ?pX), (?b, ?pH)] \<rparr> (itemsById tables)
       = Some slots
     \<and> length slots = length [(?b, ?pX), (?b, ?pH)]
     \<and> (\<forall>i<length [(?b, ?pX), (?b, ?pH)].
           ex_slot_mapper () (modsForSlot_of ex_lockedModMap (fst ([(?b, ?pX), (?b, ?pH)] ! i)))
             (representative (slots ! i))
           = snd ([(?b, ?pX), (?b, ?pH)] ! i))" ..
  have h: "hydrateArmorSet \<lparr> armor = [''X'', ''H1''] \<rparr> (itemsById tables) = Some slots"
    using sl [THEN conjunct1] by (simp add: idH idX)
  have l: "length slots = 2" using sl [THEN conjunct2, THEN conjunct1] by simp
  have r0: "ex_mapper () () (representative (slots ! 0)) = ?pX"
    using sl [THEN conjunct2, THEN conjunct2, THEN spec, of 0] by (simp add: ex_slot_mapper_def)
  have r1: "ex_mapper () () (representative (slots ! 1)) = ?pH"
    using sl [THEN conjunct2, THEN conjunct2, THEN spec, of 1] by (simp add: ex_slot_mapper_def)
  have "\<exists>slots. hydrateArmorSet \<lparr> armor = [''X'', ''H1''] \<rparr> (itemsById tables) = Some slots
            \<and> length slots = 2
            \<and> ex_mapper () () (representative (slots ! 0)) = ?pX
            \<and> ex_mapper () () (representative (slots ! 1)) = ?pH"
    using h l r0 r1 by (intro exI conjI)
  then show ?thesis
    using fill sent key by (intro exI [of _ tables] conjI)
qed

section \<open>The result promise settles only on success\<close>

lemma step_released:
  assumes "\<not> cleanupRef st"
  shows "step groupIndex st e = st"
  using assms by (cases e) (simp_all add: cleanup_def)

lemma foldl_step_released:
  assumes "\<not> cleanupRef st"
  shows "foldl (step groupIndex) st events = st"
  using assms by (induction events) (simp_all add: step_released)

lemma step_then_released: "\<not> cleanupRef (step groupIndex st e)"
  by (cases e) (simp_all add: cleanup_def)

lemma run_Cons:
  "run groupIndex (e # events) = step groupIndex dispatched e"
  unfolding run_def using foldl_step_released [OF step_then_released] by simp

lemma resultPromise_cleanup: "resultPromise (cleanup st) = resultPromise st"
  by (simp add: cleanup_def)

lemma workerReleased_step_dispatched: "workerReleased (step groupIndex dispatched e) = 1"
  by (cases e) (simp_all add: cleanup_def dispatched_def onResult_def resolve_def split: option.splits)

lemma resultPromise_step_dispatched:
  "resultPromise (step groupIndex dispatched e) =
     (case e of
        WorkerFulfils result_sets \<Rightarrow>
          (case hydrateSets groupIndex result_sets of None \<Rightarrow> Pending | Some h \<Rightarrow> Fulfilled h)
      | _ \<Rightarrow> Pending)"
  by (cases e)
     (simp_all add: resultPromise_cleanup dispatched_def onResult_def resolve_def cleanup_def
        split: option.splits)

text \<open>
  Claim C2, as amended.  The result promise is never rejected and settles at most once:
  once fulfilled it keeps its value.  It is fulfilled with the hydrated sets when the
  worker's call fulfils first and the sets hydrate.  When the worker's call rejects first,
  or the caller calls \<^verbatim>\<open>cleanup\<close> first, the promise stays pending whatever happens later.
  The worker is released at most once, and exactly once as soon as anything has happened.
\<close>

theorem resultPromise_settles_only_on_success:
  "(\<forall>err. resultPromise (run groupIndex events) \<noteq> Rejected err)
   \<and> (resultPromise (run groupIndex events) = Fulfilled v \<longrightarrow>
         resultPromise (run groupIndex (events @ later)) = Fulfilled v)
   \<and> (hydrateSets groupIndex result_sets = Some hydratedSets \<longrightarrow>
         resultPromise (run groupIndex (WorkerFulfils result_sets # later)) = Fulfilled hydratedSets)
   \<and> resultPromise (run groupIndex (WorkerRejects err0 # later)) = Pending
   \<and> resultPromise (run groupIndex (CallerCleanup # later)) = Pending
   \<and> workerReleased (run groupIndex events) \<le> 1
   \<and> (events \<noteq> [] \<longrightarrow> workerReleased (run groupIndex events) = 1)"
proof (intro conjI)
  show "\<forall>err. resultPromise (run groupIndex events) \<noteq> Rejected err"
  proof (cases events)
    case Nil
    then show ?thesis by (simp add: run_def dispatched_def)
  next
    case (Cons e es)
    then show ?thesis
      by (simp add: run_Cons resultPromise_step_dispatched del: step.simps split: Event.splits option.splits)
  qed
  show "resultPromise (run groupIndex events) = Fulfilled v \<longrightarrow>
         resultPromise (run groupIndex (events @ later)) = Fulfilled v"
  proof (cases events)
    case Nil
    then show ?thesis by (simp add: run_def dispatched_def)
  next
    case (Cons e es)
    then show ?thesis by (simp add: run_Cons)
  qed
  show "hydrateSets groupIndex result_sets = Some hydratedSets \<longrightarrow>
         resultPromise (run groupIndex (WorkerFulfils result_sets # later)) = Fulfilled hydratedSets"
    by (simp add: run_Cons resultPromise_step_dispatched del: step.simps)
  show "resultPromise (run groupIndex (WorkerRejects err0 # later)) = Pending"
    by (simp add: run_Cons resultPromise_step_dispatched del: step.simps)
  show "resultPromise (run groupIndex (CallerCleanup # later)) = Pending"
    by (simp add: run_Cons resultPromise_step_dispatched del: step.simps)
  show "workerReleased (run groupIndex events) \<le> 1"
  proof (cases events)
    case Nil
    then show ?thesis by (simp add: run_def dispatched_def)
  next
    case (Cons e es)
    then show ?thesis by (simp add: run_Cons workerReleased_step_dispatched del: step.simps)
  qed
  show "events \<noteq> [] \<longrightarrow> workerReleased (run groupIndex events) = 1"
  proof (cases events)
    case Nil
    then show ?thesis by simp
  next
    case (Cons e es)
    then show ?thesis by (simp add: run_Cons workerReleased_step_dispatched del: step.simps)
  qed
qed

lemma ex_hydrateSets:
  "hydrateSets ex_index [\<lparr> armor = [''H1''] \<rparr>]
   = Some [[\<lparr> representative = ex_item ''H1'' True 1810,
              alternatives = [ex_item ''H2'' False 1810] \<rparr>]]"
  by (simp add: hydrateArmorSet_def hydrateSlot_def ex_index_def)

theorem resultPromise_settles_only_on_success_witness:
  "resultPromise (run ex_index [WorkerFulfils [\<lparr> armor = [''H1''] \<rparr>], CallerCleanup])
     = Fulfilled [[\<lparr> representative = ex_item ''H1'' True 1810,
                     alternatives = [ex_item ''H2'' False 1810] \<rparr>]]
   \<and> workerReleased (run ex_index [WorkerFulfils [\<lparr> armor = [''H1''] \<rparr>], CallerCleanup]) = 1"
proof -
  note inst = resultPromise_settles_only_on_success [where groupIndex = ex_index
      and events = "[WorkerFulfils [\<lparr> armor = [''H1''] \<rparr>], CallerCleanup]"
      and result_sets = "[\<lparr> armor = [''H1''] \<rparr>]" and later = "[CallerCleanup]"]
  have ne: "[WorkerFulfils [\<lparr> armor = [''H1''] \<rparr>], CallerCleanup] \<noteq> []" by simp
  from inst [THEN conjunct2, THEN conjunct2, THEN conjunct1, THEN mp, OF ex_hydrateSets]
    inst [THEN conjunct2, THEN conjunct2, THEN conjunct2, THEN conjunct2, THEN conjunct2,
      THEN conjunct2, THEN mp, OF ne]
  show ?thesis by (rule conjI)
qed

text \<open>
  Claim C2 as stated fails: after the worker's call has rejected, and after the caller
  has called \<^verbatim>\<open>cleanup\<close> before any answer, the result promise is still pending.
\<close>

theorem resultPromise_pending_counterexample:
  "resultPromise (run ex_index [WorkerRejects ''worker crashed'']) = Pending
   \<and> resultPromise (run ex_index [WorkerRejects ''worker crashed'', CallerCleanup]) = Pending
   \<and> resultPromise (run ex_index [CallerCleanup]) = Pending
   \<and> resultPromise (run ex_index [CallerCleanup, CallerCleanup]) = Pending"
  by (simp add: run_def dispatched_def cleanup_def)

end
